(* ===== verification/Prelude.thy ===== *)
theory Prelude
  imports Main "HOL-Library.Word" "HOL-Library.Monad_Syntax" "HOL-Library.Multiset"
begin

text \<open>
  Shared vocabulary of the XiUOS kernel development: the machine types and the error codes
  of \<^verbatim>\<open>kernel/include/xs_base.h\<close>, the alignment macros, and the generic lemmas on lists,
  options and words that the components share.

  The machine modelled is a 32-bit target (\<^verbatim>\<open>unsigned long\<close>, hence \<^verbatim>\<open>x_ubase\<close> and
  \<^verbatim>\<open>x_size_t\<close>, is 32 bits wide). An operation that may stop the processor (a failing
  \<^verbatim>\<open>CHECK\<close> or \<^verbatim>\<open>NULL_PARAM_CHECK\<close>, which spin forever, or a NULL dereference) returns an
  \<open>option\<close>; \<open>None\<close> is the stopped machine.
\<close>

unbundle bit_operations_syntax

type_synonym uint8 = "8 word"
type_synonym uint16 = "16 word"
type_synonym uint32 = "32 word"
type_synonym uint64 = "64 word"
type_synonym x_ubase = "32 word"
type_synonym x_ticks_t = "32 word"

text \<open>Error codes are the C integers; functions return them negated.\<close>

type_synonym x_err_t = int

definition EOK :: x_err_t where "EOK = 0"
definition ERROR :: x_err_t where "ERROR = 1"
definition ETIMEOUT :: x_err_t where "ETIMEOUT = 2"
definition EFULL :: x_err_t where "EFULL = 3"
definition EEMPTY :: x_err_t where "EEMPTY = 4"
definition ENOMEMORY :: x_err_t where "ENOMEMORY = 5"
definition EINVALED :: x_err_t where "EINVALED = 10"

lemmas err_defs = EOK_def ERROR_def ETIMEOUT_def EFULL_def EEMPTY_def ENOMEMORY_def EINVALED_def

named_theorems kernel_simps \<open>unfolding equations of the kernel operations\<close>

text \<open>\<^verbatim>\<open>ALIGN_MEN_UP\<close> and \<^verbatim>\<open>ALIGN_MEN_DOWN\<close> on unbounded naturals.\<close>

definition ALIGN_MEN_UP :: "nat \<Rightarrow> nat \<Rightarrow> nat" where
  "ALIGN_MEN_UP sz align = ((sz + align - 1) div align) * align"

definition ALIGN_MEN_DOWN :: "nat \<Rightarrow> nat \<Rightarrow> nat" where
  "ALIGN_MEN_DOWN sz align = sz div align * align"

subsection \<open>Lists\<close>

lemma filter_neq_notin [simp]: "x \<notin> set xs \<Longrightarrow> filter (\<lambda>y. y \<noteq> x) xs = xs"
  by (induction xs) auto

lemma dropWhile_True [simp]: "dropWhile (\<lambda>x. True) xs = []"
  by (induction xs) auto

lemma removeAll_notin [simp]: "x \<notin> set xs \<Longrightarrow> removeAll x xs = xs"
  by (induction xs) auto

end
