(* ===== verification/SingleLink.thy ===== *)
theory SingleLink
  imports Prelude
begin

text \<open>
  The singly linked lists of \<^verbatim>\<open>kernel/thread/single_link.c\<close> on a heap of \<^verbatim>\<open>node_next\<close> pointers, and
  what each operation does to the list of nodes that hangs from a head. The loops that follow
  \<^verbatim>\<open>node_next\<close> have no result on a cyclic chain, so they are option-valued.
\<close>

type_synonym 'a sl_heap = "'a \<Rightarrow> 'a option"

definition InitSingleLinkList :: "'a \<Rightarrow> 'a sl_heap \<Rightarrow> 'a sl_heap" where
  "InitSingleLinkList linklist h = h(linklist := None)"

partial_function (option) SingleLinkListGetTailNode :: "'a sl_heap \<Rightarrow> 'a \<Rightarrow> 'a option" where
  "SingleLinkListGetTailNode h linklist =
     (case h linklist of None \<Rightarrow> Some linklist | Some n \<Rightarrow> SingleLinkListGetTailNode h n)"

text \<open>\<^verbatim>\<open>AppendSingleLinkList\<close> walks to the last node with the same loop as \<^verbatim>\<open>SingleLinkListGetTailNode\<close>.\<close>

definition AppendSingleLinkList :: "'a \<Rightarrow> 'a \<Rightarrow> 'a sl_heap \<Rightarrow> 'a sl_heap option" where
  "AppendSingleLinkList linklist linklist_node h =
     do { node \<leftarrow> SingleLinkListGetTailNode h linklist;
          let h = h(node := Some linklist_node);
          Some (h(linklist_node := None)) }"

definition SingleLinkListNodeInsert :: "'a \<Rightarrow> 'a \<Rightarrow> 'a sl_heap \<Rightarrow> 'a sl_heap" where
  "SingleLinkListNodeInsert linklist linklist_node h =
     (let h = h(linklist_node := h linklist) in h(linklist := Some linklist_node))"

partial_function (option) SingleLinkListGetLen_loop :: "'a sl_heap \<Rightarrow> 'a option \<Rightarrow> uint32 \<Rightarrow> uint32 option" where
  "SingleLinkListGetLen_loop h tmp_list len =
     (case tmp_list of None \<Rightarrow> Some len | Some n \<Rightarrow> SingleLinkListGetLen_loop h (h n) (len + 1))"

definition SingleLinkListGetLen :: "'a sl_heap \<Rightarrow> 'a \<Rightarrow> uint32 option" where
  "SingleLinkListGetLen h linklist = SingleLinkListGetLen_loop h (h linklist) 0"

partial_function (option) SingleLinkListRmNode_loop :: "'a sl_heap \<Rightarrow> 'a \<Rightarrow> 'a \<Rightarrow> 'a option" where
  "SingleLinkListRmNode_loop h linklist_node node =
     (case h node of None \<Rightarrow> Some node
      | Some n \<Rightarrow> if n = linklist_node then Some node else SingleLinkListRmNode_loop h linklist_node n)"

definition SingleLinkListRmNode :: "'a \<Rightarrow> 'a \<Rightarrow> 'a sl_heap \<Rightarrow> 'a sl_heap option" where
  "SingleLinkListRmNode linklist linklist_node h =
     do { node \<leftarrow> SingleLinkListRmNode_loop h linklist_node linklist;
          Some (case h node of None \<Rightarrow> h | Some n \<Rightarrow> h(node := h n)) }"

definition SingleLinkListGetFirstNode :: "'a sl_heap \<Rightarrow> 'a \<Rightarrow> 'a option" where
  "SingleLinkListGetFirstNode h linklist = h linklist"

definition SingleLinkListGetNextNode :: "'a sl_heap \<Rightarrow> 'a \<Rightarrow> 'a option" where
  "SingleLinkListGetNextNode h linklist_node = h linklist_node"

definition IsSingleLinkListEmpty :: "'a sl_heap \<Rightarrow> 'a \<Rightarrow> bool" where
  "IsSingleLinkListEmpty h linklist \<longleftrightarrow> h linklist = None"

subsection \<open>The list hanging from a head\<close>

fun slchain :: "'a sl_heap \<Rightarrow> 'a \<Rightarrow> 'a list \<Rightarrow> bool" where
  "slchain h l [] \<longleftrightarrow> h l = None"
| "slchain h l (x # xs) \<longleftrightarrow> h l = Some x \<and> slchain h x xs"

definition slist :: "'a sl_heap \<Rightarrow> 'a \<Rightarrow> 'a list \<Rightarrow> bool" where
  "slist h l xs \<longleftrightarrow> slchain h l xs \<and> distinct (l # xs)"

lemma slchain_upd_other: "a \<notin> set (l # xs) \<Longrightarrow> slchain (h(a := v)) l xs = slchain h l xs"
  by (induction xs arbitrary: l) auto

lemma GetTailNode_slchain:
  "slchain h l xs \<Longrightarrow> SingleLinkListGetTailNode h l = Some (last (l # xs))"
  by (induction xs arbitrary: l) (simp_all add: SingleLinkListGetTailNode.simps)

lemma slchain_append_upd:
  "slchain h l xs \<Longrightarrow> distinct (l # xs) \<Longrightarrow> n \<notin> set (l # xs) \<Longrightarrow>
    slchain (h(last (l # xs) := Some n, n := None)) l (xs @ [n])"
proof (induction xs arbitrary: l)
  case (Cons x xs)
  define h' where "h' = h(last (x # xs) := Some n, n := None)"
  have "slchain h' x (xs @ [n])"
    unfolding h'_def by (rule Cons.IH) (use Cons.prems in auto)
  moreover have "last (x # xs) \<noteq> l"
    using Cons.prems(2) by (metis distinct.simps(2) last_in_set list.distinct(1))
  then have "h' l = Some x" using Cons.prems by (auto simp: h'_def)
  moreover have "last (l # x # xs) = last (x # xs)" by simp
  ultimately show ?case by (simp only: h'_def[symmetric] append_Cons slchain.simps)
qed simp

lemma AppendSingleLinkList_slist:
  assumes "slist h l xs" and "n \<notin> set (l # xs)"
  shows "\<exists>h'. AppendSingleLinkList l n h = Some h' \<and> slist h' l (xs @ [n])"
  using assms slchain_append_upd[of h l xs n] GetTailNode_slchain[of h l xs]
  by (auto simp: AppendSingleLinkList_def slist_def Let_def)

lemma SingleLinkListNodeInsert_slist:
  assumes "slist h l xs" and "n \<notin> set (l # xs)"
  shows "slist (SingleLinkListNodeInsert l n h) l (n # xs)"
proof -
  have "slchain (h(n := h l, l := Some n)) n xs"
    using assms by (cases xs) (auto simp: slist_def slchain_upd_other)
  then show ?thesis using assms by (auto simp: SingleLinkListNodeInsert_def slist_def Let_def)
qed

lemma GetLen_loop_slchain:
  "slchain h l xs \<Longrightarrow> SingleLinkListGetLen_loop h (h l) k = Some (k + word_of_nat (length xs))"
proof (induction xs arbitrary: l k)
  case (Cons x xs)
  then show ?case by (subst SingleLinkListGetLen_loop.simps) (simp add: algebra_simps)
qed (simp add: SingleLinkListGetLen_loop.simps)

lemma SingleLinkListGetLen_slist:
  "slist h l xs \<Longrightarrow> SingleLinkListGetLen h l = Some (word_of_nat (length xs))"
  using GetLen_loop_slchain[of h l xs 0] by (simp add: SingleLinkListGetLen_def slist_def)

lemma RmNode_loop_split:
  "slchain h l (ys @ n # zs) \<Longrightarrow> n \<notin> set ys \<Longrightarrow>
    SingleLinkListRmNode_loop h n l = Some (last (l # ys))"
  by (induction ys arbitrary: l) (auto simp: SingleLinkListRmNode_loop.simps)

lemma RmNode_loop_absent:
  "slchain h l xs \<Longrightarrow> n \<notin> set xs \<Longrightarrow> SingleLinkListRmNode_loop h n l = Some (last (l # xs))"
  by (induction xs arbitrary: l) (auto simp: SingleLinkListRmNode_loop.simps)

lemma slchain_last: "slchain h l xs \<Longrightarrow> h (last (l # xs)) = None"
  by (induction xs arbitrary: l) auto

lemma slchain_mid: "slchain h l (ys @ n # zs) \<Longrightarrow> h (last (l # ys)) = Some n \<and> slchain h n zs"
  by (induction ys arbitrary: l) auto

lemma slchain_unlink:
  "slchain h l (ys @ n # zs) \<Longrightarrow> distinct (l # ys @ n # zs) \<Longrightarrow>
    slchain (h(last (l # ys) := h n)) l (ys @ zs)"
proof (induction ys arbitrary: l)
  case Nil
  show ?case
  proof (cases zs)
    case (Cons z zs')
    then have "slchain (h(l := h n)) z zs'"
      using Nil by (subst slchain_upd_other) auto
    moreover have "(h(l := h n)) l = Some z" using Nil Cons by simp
    ultimately show ?thesis by (simp only: Cons append_Nil slchain.simps last_ConsL)
  qed (use Nil in simp)
next
  case (Cons y ys)
  define h' where "h' = h(last (y # ys) := h n)"
  have "slchain h' y (ys @ zs)"
    unfolding h'_def by (rule Cons.IH) (use Cons.prems in auto)
  moreover have "last (y # ys) \<in> set (y # ys)" by (rule last_in_set) simp
  then have "last (y # ys) \<noteq> l" using Cons.prems(2) by auto
  then have "h' l = Some y" using Cons.prems by (simp add: h'_def)
  moreover have "last (l # y # ys) = last (y # ys)" by simp
  ultimately show ?case by (simp only: h'_def[symmetric] append_Cons slchain.simps)
qed

lemma SingleLinkListRmNode_slist:
  assumes "slist h l xs"
  shows "\<exists>h'. SingleLinkListRmNode l n h = Some h' \<and> slist h' l (removeAll n xs)"
proof (cases "n \<in> set xs")
  case True
  then obtain ys zs where xs: "xs = ys @ n # zs" and n: "n \<notin> set ys"
    by (meson split_list_first)
  then have d: "removeAll n xs = ys @ zs" using assms by (simp add: slist_def)
  have c: "slchain h l (ys @ n # zs)" using assms xs by (simp add: slist_def)
  show ?thesis
    using RmNode_loop_split[OF c n] slchain_mid[OF c] slchain_unlink[OF c] assms xs d
    by (auto simp: SingleLinkListRmNode_def slist_def)
next
  case False
  then show ?thesis
    using RmNode_loop_absent[of h l xs n] slchain_last[of h l xs] assms
    by (auto simp: SingleLinkListRmNode_def slist_def)
qed

lemma SingleLinkList_queries:
  assumes "slist h l xs"
  shows "SingleLinkListGetFirstNode h l = (case xs of [] \<Rightarrow> None | x # _ \<Rightarrow> Some x)"
    and "IsSingleLinkListEmpty h l \<longleftrightarrow> xs = []"
    and "SingleLinkListGetTailNode h l = Some (last (l # xs))"
    and "ys @ a # b # zs = xs \<Longrightarrow> SingleLinkListGetNextNode h a = Some b"
proof -
  show "SingleLinkListGetTailNode h l = Some (last (l # xs))"
    using assms by (intro GetTailNode_slchain) (simp add: slist_def)
  show "ys @ a # b # zs = xs \<Longrightarrow> SingleLinkListGetNextNode h a = Some b"
    using assms slchain_mid[of h l ys a "b # zs"]
    by (auto simp: slist_def SingleLinkListGetNextNode_def)
qed (use assms in \<open>cases xs; simp add: slist_def SingleLinkListGetFirstNode_def IsSingleLinkListEmpty_def\<close>)+

end
