(* ===== verification/DoubleLink.thy ===== *)
theory DoubleLink
  imports Prelude
begin

text \<open>
  The intrusive doubly linked lists of \<^verbatim>\<open>kernel/thread/double_link.c\<close>, on an explicit store
  of link nodes. An address is a value of an arbitrary type \<open>'a\<close>; a pointer is an
  \<open>'a option\<close> whose \<open>None\<close> is NULL. Dereferencing NULL stops the machine (\<open>None\<close>).
\<close>

record 'a dl_node =
  node_next :: "'a option"
  node_prev :: "'a option"

type_synonym 'a dl_heap = "'a \<Rightarrow> 'a dl_node"

definition set_next :: "'a \<Rightarrow> 'a option \<Rightarrow> 'a dl_heap \<Rightarrow> 'a dl_heap" where
  "set_next a p h = h(a := (h a)\<lparr>node_next := p\<rparr>)"

definition set_prev :: "'a \<Rightarrow> 'a option \<Rightarrow> 'a dl_heap \<Rightarrow> 'a dl_heap" where
  "set_prev a p h = h(a := (h a)\<lparr>node_prev := p\<rparr>)"

definition InitDoubleLinkList :: "'a \<Rightarrow> 'a dl_heap \<Rightarrow> 'a dl_heap" where
  "InitDoubleLinkList l h = set_prev l (Some l) (set_next l (Some l) h)"

definition DoubleLinkListInsertNodeAfter :: "'a \<Rightarrow> 'a \<Rightarrow> 'a dl_heap \<Rightarrow> 'a dl_heap option" where
  "DoubleLinkListInsertNodeAfter l n h = do {
     nx \<leftarrow> node_next (h l);
     let h = set_prev nx (Some n) h;
     let h = set_next n (node_next (h l)) h;
     let h = set_next l (Some n) h;
     let h = set_prev n (Some l) h;
     Some h }"

definition DoubleLinkListInsertNodeBefore :: "'a \<Rightarrow> 'a \<Rightarrow> 'a dl_heap \<Rightarrow> 'a dl_heap option" where
  "DoubleLinkListInsertNodeBefore l n h = do {
     pv \<leftarrow> node_prev (h l);
     let h = set_next pv (Some n) h;
     let h = set_prev n (node_prev (h l)) h;
     let h = set_prev l (Some n) h;
     let h = set_next n (Some l) h;
     Some h }"

definition DoubleLinkListRmNode :: "'a \<Rightarrow> 'a dl_heap \<Rightarrow> 'a dl_heap option" where
  "DoubleLinkListRmNode n h = do {
     nx \<leftarrow> node_next (h n);
     let h = set_prev nx (node_prev (h n)) h;
     pv \<leftarrow> node_prev (h n);
     let h = set_next pv (node_next (h n)) h;
     let h = set_next n (Some n) h;
     let h = set_prev n (Some n) h;
     Some h }"

definition IsDoubleLinkListEmpty :: "'a \<Rightarrow> 'a dl_heap \<Rightarrow> bool" where
  "IsDoubleLinkListEmpty l h = (node_next (h l) = Some l)"

definition DoubleLinkListGetHead :: "'a \<Rightarrow> 'a dl_heap \<Rightarrow> 'a option" where
  "DoubleLinkListGetHead l h = (if IsDoubleLinkListEmpty l h then None else node_next (h l))"

definition DoubleLinkListGetNext :: "'a \<Rightarrow> 'a \<Rightarrow> 'a dl_heap \<Rightarrow> 'a option" where
  "DoubleLinkListGetNext l n h = (if node_next (h n) = Some l then None else node_next (h n))"

text \<open>
  The two loops over a list. Both follow \<open>node_next\<close> until the head comes back; the length
  counter is a C \<^verbatim>\<open>unsigned int\<close>. A walk that meets NULL, or that never comes back to the head,
  has the value \<open>None\<close>.
\<close>

partial_function (option) DoubleLinkListLen_loop ::
  "'a \<Rightarrow> 'a dl_heap \<Rightarrow> 'a \<Rightarrow> uint32 \<Rightarrow> uint32 option" where
  "DoubleLinkListLen_loop l h tmp_node len = do {
     nx \<leftarrow> node_next (h tmp_node);
     (if nx = l then Some len else DoubleLinkListLen_loop l h nx (len + 1)) }"

definition DoubleLinkListLenGet :: "'a \<Rightarrow> 'a dl_heap \<Rightarrow> uint32 option" where
  "DoubleLinkListLenGet l h = DoubleLinkListLen_loop l h l 0"

text \<open>
  \<^verbatim>\<open>DOUBLE_LINKLIST_FOR_EACH\<close> with a body that only breaks: the node at which the loop stops,
  the head itself when no node satisfies the condition.
\<close>

partial_function (option) FOR_EACH_loop ::
  "'a \<Rightarrow> ('a \<Rightarrow> bool) \<Rightarrow> 'a dl_heap \<Rightarrow> 'a \<Rightarrow> 'a option" where
  "FOR_EACH_loop l P h item =
     (if item = l \<or> P item then Some item
      else do { nx \<leftarrow> node_next (h item); FOR_EACH_loop l P h nx })"

definition DOUBLE_LINKLIST_FOR_EACH :: "'a \<Rightarrow> ('a \<Rightarrow> bool) \<Rightarrow> 'a dl_heap \<Rightarrow> 'a option" where
  "DOUBLE_LINKLIST_FOR_EACH l P h = do { nx \<leftarrow> node_next (h l); FOR_EACH_loop l P h nx }"

subsection \<open>Chains\<close>

text \<open>A chain of pointers \<open>f\<close> through a list; only the list without its last element is read.\<close>

fun nchain :: "('a \<Rightarrow> 'a option) \<Rightarrow> 'a list \<Rightarrow> bool" where
  "nchain f (x # y # zs) = (f x = Some y \<and> nchain f (y # zs))"
| "nchain f _ = True"

lemma nchain_append: "nchain f (us @ x # vs) = (nchain f (us @ [x]) \<and> nchain f (x # vs))"
proof (induction us)
  case Nil show ?case by (cases vs) auto
next
  case (Cons u us) then show ?case by (cases us) auto
qed

lemma nchain_upd: "a \<notin> set (butlast ys) \<Longrightarrow> nchain (f(a := v)) ys = nchain f ys"
  by (induction f ys rule: nchain.induct) auto

lemma nchain_cong: "(\<And>x. x \<in> set (butlast ys) \<Longrightarrow> f x = g x) \<Longrightarrow> nchain f ys = nchain g ys"
  by (induction f ys rule: nchain.induct) auto

lemma nchain_insert:
  assumes ch: "nchain f (us @ a # b # vs)"
    and fresh: "n \<notin> set (us @ a # butlast (b # vs))"
    and a: "a \<notin> set us" "a \<notin> set (butlast (b # vs))"
  shows "nchain (f(a := Some n, n := Some b)) (us @ a # n # b # vs)"
proof -
  let ?g = "f(a := Some n, n := Some b)"
  from ch have 1: "nchain f (us @ [a])" and 2: "nchain f (b # vs)"
    using nchain_append[of f us a "b # vs"] by auto
  have "nchain ?g (us @ [a])"
    using 1 fresh a by (subst nchain_cong[where g = f]) auto
  moreover have "nchain ?g (b # vs)"
    using 2 fresh a by (subst nchain_cong[where g = f]) auto
  moreover have "a \<noteq> n" using fresh by auto
  ultimately show ?thesis using nchain_append[of ?g us a "n # b # vs"] by simp
qed

lemma nchain_delete:
  assumes ch: "nchain f (us @ a # n # b # vs)"
    and a: "a \<notin> set us" "a \<notin> set (butlast (b # vs))"
  shows "nchain (f(a := Some b)) (us @ a # b # vs)"
proof -
  let ?g = "f(a := Some b)"
  from ch have 1: "nchain f (us @ [a])" and 2: "nchain f (b # vs)"
    using nchain_append[of f us a "n # b # vs"] by auto
  have "nchain ?g (us @ [a])" using 1 a by (subst nchain_upd) auto
  moreover have "nchain ?g (b # vs)" using 2 a by (subst nchain_upd) auto
  ultimately show ?thesis using nchain_append[of ?g us a "b # vs"] by simp
qed


lemma nchain_cycle_insert:
  assumes "nchain f (l # us @ vs @ [l])" and "distinct (l # us @ vs)" and "n \<notin> set (l # us @ vs)"
  shows "nchain (f(last (l # us) := Some n, n := Some (hd (vs @ [l])))) (l # us @ n # vs @ [l])"
proof -
  obtain us0 a where us0: "l # us = us0 @ [a]" by (metis list.distinct(1) rev_exhaust)
  obtain b vs0 where vs0: "vs @ [l] = b # vs0" by (cases "vs @ [l]") auto
  have e: "l # us @ vs @ [l] = us0 @ a # b # vs0" "l # us @ n # vs @ [l] = us0 @ a # n # b # vs0"
    using us0 vs0 by (metis append_Cons append_assoc append_Nil)+
  have bl: "butlast (b # vs0) = vs" using vs0 by (metis butlast_snoc)
  have d: "distinct ((us0 @ [a]) @ vs)" "n \<notin> set ((us0 @ [a]) @ vs)"
    using assms(2,3) us0 by (metis append_Cons)+
  have "nchain (f(a := Some n, n := Some b)) (us0 @ a # n # b # vs0)"
    using assms(1) e(1) d bl by (intro nchain_insert) auto
  moreover have "last (l # us) = a" "hd (vs @ [l]) = b" using us0 vs0 by simp_all
  ultimately show ?thesis using e(2) by simp
qed

lemma nchain_cycle_delete:
  assumes "nchain f (l # us @ n # vs @ [l])" and "distinct (l # us @ n # vs)"
  shows "nchain (f(last (l # us) := Some (hd (vs @ [l])))) (l # us @ vs @ [l])"
proof -
  obtain us0 a where us0: "l # us = us0 @ [a]" by (metis list.distinct(1) rev_exhaust)
  obtain b vs0 where vs0: "vs @ [l] = b # vs0" by (cases "vs @ [l]") auto
  have e: "l # us @ vs @ [l] = us0 @ a # b # vs0" "l # us @ n # vs @ [l] = us0 @ a # n # b # vs0"
    using us0 vs0 by (metis append_Cons append_assoc append_Nil)+
  have bl: "butlast (b # vs0) = vs" using vs0 by (metis butlast_snoc)
  have d: "distinct ((us0 @ [a]) @ n # vs)" using assms(2) us0 by (metis append_Cons)
  have "nchain (f(a := Some b)) (us0 @ a # b # vs0)"
    using assms(1) e(2) d bl by (intro nchain_delete) auto
  moreover have "last (l # us) = a" "hd (vs @ [l]) = b" using us0 vs0 by simp_all
  ultimately show ?thesis using e(1) by simp
qed

subsection \<open>Lists in the store\<close>

text \<open>
  \<open>dlist h l xs\<close>: the circular list with head \<open>l\<close> holds the nodes \<open>xs\<close>, front first. The
  \<open>node_prev\<close> pointers form the same cycle backwards.
\<close>

abbreviation nx :: "'a dl_heap \<Rightarrow> 'a \<Rightarrow> 'a option" where
  "nx h \<equiv> (\<lambda>a. node_next (h a))"

abbreviation pv :: "'a dl_heap \<Rightarrow> 'a \<Rightarrow> 'a option" where
  "pv h \<equiv> (\<lambda>a. node_prev (h a))"

definition dlist :: "'a dl_heap \<Rightarrow> 'a \<Rightarrow> 'a list \<Rightarrow> bool" where
  "dlist h l xs \<longleftrightarrow> distinct (l # xs) \<and> nchain (nx h) (l # xs @ [l]) \<and> nchain (pv h) (l # rev xs @ [l])"

lemma dlist_distinct: "dlist h l xs \<Longrightarrow> distinct (l # xs)"
  by (simp add: dlist_def)

lemma dlist_Nil: "dlist h l [] \<longleftrightarrow> node_next (h l) = Some l \<and> node_prev (h l) = Some l"
  by (simp add: dlist_def)

lemma nchain_last_hd: "nchain f (us @ vs) \<Longrightarrow> us \<noteq> [] \<Longrightarrow> vs \<noteq> [] \<Longrightarrow> f (last us) = Some (hd vs)"
proof -
  assume ch: "nchain f (us @ vs)" and ne: "us \<noteq> []" "vs \<noteq> []"
  obtain us0 a where us: "us = us0 @ [a]" using ne(1) by (metis rev_exhaust)
  obtain b vs0 where vs: "vs = b # vs0" using ne(2) by (cases vs) auto
  have "nchain f (us0 @ a # b # vs0)" using ch us vs by simp
  then have "f a = Some b" using nchain_append[of f us0 a "b # vs0"] by simp
  then show ?thesis using us vs by simp
qed

lemma dlist_nx: "dlist h l (us @ vs) \<Longrightarrow> node_next (h (last (l # us))) = Some (hd (vs @ [l]))"
  using nchain_last_hd[of "nx h" "l # us" "vs @ [l]"] by (simp add: dlist_def)

lemma dlist_pv: "dlist h l (us @ vs) \<Longrightarrow> node_prev (h (hd (vs @ [l]))) = Some (last (l # us))"
proof -
  assume "dlist h l (us @ vs)"
  then have "nchain (pv h) ((l # rev vs) @ (rev us @ [l]))" by (simp add: dlist_def)
  then have "pv h (last (l # rev vs)) = Some (hd (rev us @ [l]))" by (rule nchain_last_hd) auto
  moreover have "last (l # rev vs) = hd (vs @ [l])" by (cases vs) auto
  moreover have "hd (rev us @ [l]) = last (l # us)" by (cases us rule: rev_cases) auto
  ultimately show ?thesis by simp
qed

lemma dlist_cong:
  assumes "\<And>a. a \<in> set (l # xs) \<Longrightarrow> h' a = h a"
  shows "dlist h' l xs = dlist h l xs"
proof -
  have "nchain (nx h') (l # xs @ [l]) = nchain (nx h) (l # xs @ [l])"
    using assms by (intro nchain_cong) (auto simp: butlast_append)
  moreover have "nchain (pv h') (l # rev xs @ [l]) = nchain (pv h) (l # rev xs @ [l])"
    using assms by (intro nchain_cong) (auto simp: butlast_append)
  ultimately show ?thesis by (simp add: dlist_def)
qed

text \<open>The two surgeries every operation is made of.\<close>

lemma dlist_link:
  assumes d: "dlist h l (us @ vs)" and n: "n \<notin> set (l # us @ vs)"
    and nx': "nx h' = (nx h)(last (l # us) := Some n, n := Some (hd (vs @ [l])))"
    and pv': "pv h' = (pv h)(hd (vs @ [l]) := Some n, n := Some (last (l # us)))"
  shows "dlist h' l (us @ n # vs)"
proof -
  have b: "last (l # rev vs) = hd (vs @ [l])" by (cases vs) auto
  have a: "hd (rev us @ [l]) = last (l # us)" by (cases us rule: rev_cases) auto
  have "nchain (nx h') (l # us @ n # vs @ [l])"
    unfolding nx' using d n by (intro nchain_cycle_insert) (auto simp: dlist_def)
  moreover have "nchain (pv h') (l # rev vs @ n # rev us @ [l])"
    unfolding pv' a[symmetric] b[symmetric]
    using d n by (intro nchain_cycle_insert) (auto simp: dlist_def)
  ultimately show ?thesis using d n by (auto simp: dlist_def)
qed

lemma dlist_unlink:
  assumes d: "dlist h l (us @ n # vs)"
    and nx': "nx h' = (nx h)(last (l # us) := Some (hd (vs @ [l])), n := x)"
    and pv': "pv h' = (pv h)(hd (vs @ [l]) := Some (last (l # us)), n := y)"
  shows "dlist h' l (us @ vs)"
proof -
  have b: "last (l # rev vs) = hd (vs @ [l])" by (cases vs) auto
  have a: "hd (rev us @ [l]) = last (l # us)" by (cases us rule: rev_cases) auto
  have dd: "distinct (l # us @ n # vs)" using d by (simp add: dlist_def)
  have "nchain ((nx h)(last (l # us) := Some (hd (vs @ [l])))) (l # us @ vs @ [l])"
    using d by (intro nchain_cycle_delete[where n = n]) (auto simp: dlist_def)
  then have 1: "nchain (nx h') (l # us @ vs @ [l])"
    unfolding nx' using dd by (subst nchain_upd) (auto simp: butlast_append)
  have "nchain ((pv h)(last (l # rev vs) := Some (hd (rev us @ [l])))) (l # rev vs @ rev us @ [l])"
    using d by (intro nchain_cycle_delete[where n = n]) (auto simp: dlist_def)
  then have 2: "nchain (pv h') (l # rev vs @ rev us @ [l])"
    unfolding pv' a b using dd by (subst nchain_upd) (auto simp: butlast_append)
  from 1 2 dd show ?thesis by (auto simp: dlist_def)
qed


subsection \<open>The operations on one list\<close>

lemma InsertNodeAfter_effect:
  assumes "node_next (h a) = Some b" and "a \<noteq> n" and "b \<noteq> n"
  shows "\<exists>h'. DoubleLinkListInsertNodeAfter a n h = Some h' \<and> nx h' = (nx h)(a := Some n, n := Some b)
    \<and> pv h' = (pv h)(b := Some n, n := Some a) \<and> (\<forall>x. x \<notin> {a, b, n} \<longrightarrow> h' x = h x)"
  using assms by (simp add: DoubleLinkListInsertNodeAfter_def set_next_def set_prev_def) (auto simp: fun_eq_iff)

lemma InsertNodeBefore_effect:
  assumes "node_prev (h b) = Some a" and "a \<noteq> n" and "b \<noteq> n"
  shows "\<exists>h'. DoubleLinkListInsertNodeBefore b n h = Some h' \<and> nx h' = (nx h)(a := Some n, n := Some b)
    \<and> pv h' = (pv h)(b := Some n, n := Some a) \<and> (\<forall>x. x \<notin> {a, b, n} \<longrightarrow> h' x = h x)"
  using assms by (simp add: DoubleLinkListInsertNodeBefore_def set_next_def set_prev_def) (auto simp: fun_eq_iff)

lemma RmNode_effect:
  assumes "node_next (h n) = Some b" and "node_prev (h n) = Some a" and "a \<noteq> n" and "b \<noteq> n"
  shows "\<exists>h'. DoubleLinkListRmNode n h = Some h' \<and> nx h' = (nx h)(a := Some b, n := Some n)
    \<and> pv h' = (pv h)(b := Some a, n := Some n) \<and> (\<forall>x. x \<notin> {a, b, n} \<longrightarrow> h' x = h x)"
  using assms by (simp add: DoubleLinkListRmNode_def set_next_def set_prev_def) (auto simp: fun_eq_iff)

lemma dlist_ends_in: "last (l # us) \<in> set (l # us @ vs) \<and> hd (vs @ [l]) \<in> set (l # us @ vs)"
  by (cases us rule: rev_cases; cases vs; simp)

text \<open>
  Inserting after a node of the list, or before one, links the new node at that place; nothing
  outside the list and the new node is written.
\<close>

lemma InsertNodeAfter_dlist:
  assumes "dlist h l (us @ vs)" and "n \<notin> set (l # us @ vs)"
  obtains h' where "DoubleLinkListInsertNodeAfter (last (l # us)) n h = Some h'"
    and "dlist h' l (us @ n # vs)" and "\<And>x. x \<notin> set (n # l # us @ vs) \<Longrightarrow> h' x = h x"
proof -
  have ne: "last (l # us) \<noteq> n" "hd (vs @ [l]) \<noteq> n"
    using assms(2) dlist_ends_in[of l us vs] by auto
  obtain h' where h': "DoubleLinkListInsertNodeAfter (last (l # us)) n h = Some h'"
    and e: "nx h' = (nx h)(last (l # us) := Some n, n := Some (hd (vs @ [l])))"
      "pv h' = (pv h)(hd (vs @ [l]) := Some n, n := Some (last (l # us)))"
    and fr: "\<And>x. x \<notin> {last (l # us), hd (vs @ [l]), n} \<Longrightarrow> h' x = h x"
    using InsertNodeAfter_effect[where h = h, OF dlist_nx[OF assms(1)] ne] by metis
  have "h' x = h x" if "x \<notin> set (n # l # us @ vs)" for x
    using that dlist_ends_in[of l us vs] by (intro fr) auto
  with h' dlist_link[OF assms e] show thesis using that by blast
qed

lemma InsertNodeBefore_dlist:
  assumes "dlist h l (us @ vs)" and "n \<notin> set (l # us @ vs)"
  obtains h' where "DoubleLinkListInsertNodeBefore (hd (vs @ [l])) n h = Some h'"
    and "dlist h' l (us @ n # vs)" and "\<And>x. x \<notin> set (n # l # us @ vs) \<Longrightarrow> h' x = h x"
proof -
  have ne: "last (l # us) \<noteq> n" "hd (vs @ [l]) \<noteq> n"
    using assms(2) dlist_ends_in[of l us vs] by auto
  obtain h' where h': "DoubleLinkListInsertNodeBefore (hd (vs @ [l])) n h = Some h'"
    and e: "nx h' = (nx h)(last (l # us) := Some n, n := Some (hd (vs @ [l])))"
      "pv h' = (pv h)(hd (vs @ [l]) := Some n, n := Some (last (l # us)))"
    and fr: "\<And>x. x \<notin> {last (l # us), hd (vs @ [l]), n} \<Longrightarrow> h' x = h x"
    using InsertNodeBefore_effect[where h = h, OF dlist_pv[OF assms(1)] ne] by metis
  have "h' x = h x" if "x \<notin> set (n # l # us @ vs)" for x
    using that dlist_ends_in[of l us vs] by (intro fr) auto
  with h' dlist_link[OF assms e] show thesis using that by blast
qed

lemma RmNode_dlist:
  assumes d: "dlist h l (us @ n # vs)"
  obtains h' where "DoubleLinkListRmNode n h = Some h'" and "dlist h' l (us @ vs)" and "dlist h' n []"
    and "\<And>x. x \<notin> set (n # l # us @ vs) \<Longrightarrow> h' x = h x"
proof -
  let ?a = "last (l # us)" and ?b = "hd (vs @ [l])"
  have b: "node_next (h n) = Some ?b" using dlist_nx[of h l "us @ [n]" vs] d by simp
  have a: "node_prev (h n) = Some ?a" using dlist_pv[of h l us "n # vs"] d by simp
  have dd: "distinct (l # us @ n # vs)" using d by (rule dlist_distinct)
  have ne: "?a \<noteq> n" "?b \<noteq> n"
    using dd by (auto simp: hd_append last_in_set[of us] dest: hd_in_set last_in_set split: if_splits)
  obtain h' where h': "DoubleLinkListRmNode n h = Some h'"
    and e: "nx h' = (nx h)(?a := Some ?b, n := Some n)" "pv h' = (pv h)(?b := Some ?a, n := Some n)"
    and fr: "\<And>x. x \<notin> {?a, ?b, n} \<Longrightarrow> h' x = h x"
    using RmNode_effect[where h = h, OF b a ne] by metis
  have "h' x = h x" if "x \<notin> set (n # l # us @ vs)" for x
    using that dlist_ends_in[of l us vs] by (intro fr) auto
  moreover have "dlist h' n []" using fun_cong[OF e(1), of n] fun_cong[OF e(2), of n]
    by (simp add: dlist_Nil)
  ultimately show thesis using h' dlist_unlink[OF d e] that by blast
qed

text \<open>Removing a node that is on no list (it points to itself) changes nothing.\<close>

lemma RmNode_unlinked: "dlist h n [] \<Longrightarrow> DoubleLinkListRmNode n h = Some h"
  by (auto simp: dlist_Nil DoubleLinkListRmNode_def set_next_def set_prev_def fun_eq_iff)

lemma IsDoubleLinkListEmpty_dlist: "dlist h l xs \<Longrightarrow> IsDoubleLinkListEmpty l h \<longleftrightarrow> xs = []"
  using dlist_nx[of h l "[]" xs] dlist_distinct[of h l xs]
  by (cases xs) (auto simp: IsDoubleLinkListEmpty_def)

lemma DoubleLinkListGetHead_dlist:
  "dlist h l xs \<Longrightarrow> DoubleLinkListGetHead l h = (case xs of [] \<Rightarrow> None | x # _ \<Rightarrow> Some x)"
  using dlist_nx[of h l "[]" xs]
  by (auto simp: DoubleLinkListGetHead_def IsDoubleLinkListEmpty_dlist split: list.splits)

lemma DoubleLinkListGetNext_dlist:
  assumes "dlist h l (us @ n # vs)"
  shows "DoubleLinkListGetNext l n h = (case vs of [] \<Rightarrow> None | x # _ \<Rightarrow> Some x)"
  using dlist_nx[of h l "us @ [n]" vs] dlist_distinct[OF assms] assms
  by (auto simp: DoubleLinkListGetNext_def split: list.splits)

lemma DoubleLinkListLen_loop_dlist:
  assumes "dlist h l (us @ vs)"
  shows "DoubleLinkListLen_loop l h (last (l # us)) c = Some (c + of_nat (length vs))"
  using assms
proof (induction vs arbitrary: us c)
  case Nil
  then show ?case using dlist_nx[of h l us "[]"] by (simp add: DoubleLinkListLen_loop.simps)
next
  case (Cons v vs)
  have "node_next (h (last (l # us))) = Some v" using dlist_nx[OF Cons.prems] by simp
  moreover have "v \<noteq> l" using dlist_distinct[OF Cons.prems] by auto
  ultimately have "DoubleLinkListLen_loop l h (last (l # us)) c = DoubleLinkListLen_loop l h v (c + 1)"
    by (subst DoubleLinkListLen_loop.simps) simp
  then show ?case using Cons.IH[of "us @ [v]" "c + 1"] Cons.prems by simp
qed

lemma DoubleLinkListLenGet_dlist: "dlist h l xs \<Longrightarrow> DoubleLinkListLenGet l h = Some (of_nat (length xs))"
  using DoubleLinkListLen_loop_dlist[of h l "[]" xs 0] by (simp add: DoubleLinkListLenGet_def)

lemma FOR_EACH_loop_dlist:
  assumes "dlist h l (us @ vs)"
  shows "FOR_EACH_loop l P h (hd (vs @ [l])) = Some (hd (dropWhile (\<lambda>x. \<not> P x) vs @ [l]))"
  using assms
proof (induction vs arbitrary: us)
  case Nil
  show ?case by (simp add: FOR_EACH_loop.simps)
next
  case (Cons v vs)
  have nxt: "node_next (h v) = Some (hd (vs @ [l]))"
    using dlist_nx[of h l "us @ [v]" vs] Cons.prems by simp
  have "v \<noteq> l" using dlist_distinct[OF Cons.prems] by auto
  with nxt show ?case using Cons.IH[of "us @ [v]"] Cons.prems
    by (subst FOR_EACH_loop.simps) simp
qed

lemma DOUBLE_LINKLIST_FOR_EACH_dlist:
  assumes "dlist h l xs"
  shows "DOUBLE_LINKLIST_FOR_EACH l P h = Some (hd (dropWhile (\<lambda>x. \<not> P x) xs @ [l]))"
  using FOR_EACH_loop_dlist[of h l "[]" xs P] dlist_nx[of h l "[]" xs] assms
  by (simp add: DOUBLE_LINKLIST_FOR_EACH_def)


subsection \<open>A store of lists\<close>

text \<open>
  The kernel keeps many lists in one store: heads of type \<open>'l\<close> and nodes of type \<open>'n\<close>, every
  node on at most one list. The abstract view is a function from heads to HOL lists.
\<close>

type_synonym ('l, 'n) lstore = "'l \<Rightarrow> 'n list"

definition ls_rm :: "'n \<Rightarrow> ('l, 'n) lstore \<Rightarrow> ('l, 'n) lstore" where
  "ls_rm n L = (\<lambda>l. removeAll n (L l))"

definition ls_unlinked :: "'n \<Rightarrow> ('l, 'n) lstore \<Rightarrow> bool" where
  "ls_unlinked n L \<longleftrightarrow> (\<forall>l. n \<notin> set (L l))"

text \<open>Insertion before the first node that satisfies \<open>P\<close>, at the end when there is none.\<close>

definition insert_when :: "('n \<Rightarrow> bool) \<Rightarrow> 'n \<Rightarrow> 'n list \<Rightarrow> 'n list" where
  "insert_when P n xs = takeWhile (\<lambda>x. \<not> P x) xs @ n # dropWhile (\<lambda>x. \<not> P x) xs"

lemma mset_insert_when [simp]: "mset (insert_when P n xs) = add_mset n (mset xs)"
proof -
  have "mset (takeWhile (\<lambda>x. \<not> P x) xs) + mset (dropWhile (\<lambda>x. \<not> P x) xs) = mset xs"
    by (metis mset_append takeWhile_dropWhile_id)
  then show ?thesis by (simp add: insert_when_def)
qed

lemma set_insert_when [simp]: "set (insert_when P n xs) = insert n (set xs)"
  by (metis mset_insert_when set_mset_add_mset_insert set_mset_mset)

lemma distinct_insert_when [simp]: "distinct (insert_when P n xs) \<longleftrightarrow> n \<notin> set xs \<and> distinct xs"
proof -
  have "mset (insert_when P n xs) = mset (n # xs)" by simp
  then have "distinct (insert_when P n xs) = distinct (n # xs)" by (rule mset_eq_imp_distinct_iff)
  then show ?thesis by simp
qed

lemma insert_when_never [simp]: "(\<And>x. x \<in> set xs \<Longrightarrow> \<not> P x) \<Longrightarrow> insert_when P n xs = xs @ [n]"
  by (simp add: insert_when_def takeWhile_eq_all_conv[THEN iffD2] dropWhile_eq_Nil_conv[THEN iffD2])

lemma insert_when_cong:
  assumes "\<And>x. x \<in> set xs \<Longrightarrow> P x = Q x"
  shows "insert_when P n xs = insert_when Q n xs"
proof -
  have "takeWhile (\<lambda>x. \<not> P x) xs = takeWhile (\<lambda>x. \<not> Q x) xs"
    and "dropWhile (\<lambda>x. \<not> P x) xs = dropWhile (\<lambda>x. \<not> Q x) xs"
    using assms by (auto intro!: takeWhile_cong dropWhile_cong)
  then show ?thesis by (simp add: insert_when_def)
qed

definition store_rep :: "('l + 'n) dl_heap \<Rightarrow> ('l, 'n) lstore \<Rightarrow> bool" where
  "store_rep h L \<longleftrightarrow>
     (\<forall>l. dlist h (Inl l) (map Inr (L l))) \<and>
     (\<forall>l l'. l \<noteq> l' \<longrightarrow> set (L l) \<inter> set (L l') = {}) \<and>
     (\<forall>n. ls_unlinked n L \<longrightarrow> dlist h (Inr n) [])"

lemma store_rep_distinct: "store_rep h L \<Longrightarrow> distinct (L l)"
  unfolding store_rep_def dlist_def by (metis distinct.simps(2) distinct_map)

lemma ls_unlinked_rm [simp]: "ls_unlinked n (ls_rm n L)"
  by (simp add: ls_unlinked_def ls_rm_def)

text \<open>One list of the store changes: the rest of the store still represents the rest of the lists.\<close>

lemma store_rep_upd:
  assumes r: "store_rep h L" and d: "dlist h' (Inl l) (map Inr xs)"
    and fr: "\<And>x. x \<notin> Inl ` {l} \<union> Inr ` (set xs \<union> set (L l)) \<Longrightarrow> h' x = h x"
    and new: "\<And>n. n \<in> set xs \<Longrightarrow> n \<in> set (L l) \<or> ls_unlinked n L"
    and gone: "\<And>n. n \<in> set (L l) \<Longrightarrow> n \<notin> set xs \<Longrightarrow> dlist h' (Inr n) []"
  shows "store_rep h' (L(l := xs))"
proof -
  have dj: "set (L a) \<inter> set (L b) = {}" if "a \<noteq> b" for a b using r that by (auto simp: store_rep_def)
  have xs: "set xs \<inter> set (L a) = {}" if "a \<noteq> l" for a
    using new dj[of l a] that by (fastforce simp: ls_unlinked_def)
  have "dlist h' (Inl a) (map Inr ((L(l := xs)) a))" for a
  proof (cases "a = l")
    case False
    have "h' x = h x" if "x \<in> set (Inl a # map Inr (L a))" for x
      using that False xs[OF False] dj[of a l] by (intro fr) auto
    then have "dlist h' (Inl a) (map Inr (L a)) = dlist h (Inl a) (map Inr (L a))"
      by (rule dlist_cong)
    then show ?thesis using r False by (simp add: store_rep_def)
  qed (use d in simp)
  moreover have "set ((L(l := xs)) a) \<inter> set ((L(l := xs)) b) = {}" if "a \<noteq> b" for a b
    using that xs[of a] xs[of b] dj[of a b] by (auto split: if_splits)
  moreover have "dlist h' (Inr n) []" if u: "ls_unlinked n (L(l := xs))" for n
  proof (cases "n \<in> set (L l)")
    case True
    moreover have "n \<notin> set xs" using u unfolding ls_unlinked_def by (metis fun_upd_same)
    ultimately show ?thesis by (rule gone)
  next
    case False
    have nxs: "n \<notin> set xs" using u unfolding ls_unlinked_def by (metis fun_upd_same)
    have "ls_unlinked n L" unfolding ls_unlinked_def
    proof
      fix a show "n \<notin> set (L a)" using u False unfolding ls_unlinked_def by (metis fun_upd_other)
    qed
    then have "dlist h (Inr n) []" using r by (simp add: store_rep_def)
    moreover have "h' (Inr n) = h (Inr n)" using False nxs by (intro fr) auto
    ultimately show ?thesis by (simp add: dlist_Nil)
  qed
  ultimately show ?thesis by (simp add: store_rep_def)
qed


text \<open>The pointer operations on a store, in the vocabulary of heads and nodes.\<close>

definition insert_ordered :: "'l \<Rightarrow> ('n \<Rightarrow> bool) \<Rightarrow> 'n \<Rightarrow> ('l + 'n) dl_heap \<Rightarrow> ('l + 'n) dl_heap option" where
  "insert_ordered l P n h = do {
     item \<leftarrow> DOUBLE_LINKLIST_FOR_EACH (Inl l) (\<lambda>a. case a of Inl _ \<Rightarrow> False | Inr m \<Rightarrow> P m) h;
     DoubleLinkListInsertNodeBefore item (Inr n) h }"

lemma insert_front_refines:
  assumes "store_rep h L" and "ls_unlinked n L"
  shows "\<exists>h'. DoubleLinkListInsertNodeAfter (Inl l) (Inr n) h = Some h' \<and> store_rep h' (L(l := n # L l))"
proof -
  have d: "dlist h (Inl l) ([] @ map Inr (L l))" using assms(1) by (simp add: store_rep_def)
  have n: "Inr n \<notin> set (Inl l # [] @ map Inr (L l))" using assms(2) by (auto simp: ls_unlinked_def)
  obtain h' where h': "DoubleLinkListInsertNodeAfter (last [Inl l]) (Inr n) h = Some h'"
    "dlist h' (Inl l) ([] @ Inr n # map Inr (L l))"
    "\<And>x. x \<notin> set (Inr n # Inl l # [] @ map Inr (L l)) \<Longrightarrow> h' x = h x"
    using InsertNodeAfter_dlist[OF d n] by metis
  have "store_rep h' (L(l := n # L l))"
    by (rule store_rep_upd[OF assms(1)]) (use h' assms in auto)
  with h' show ?thesis by auto
qed

lemma insert_when_refines:
  assumes "store_rep h L" and "ls_unlinked n L"
    and pos: "item = hd (map Inr (dropWhile (\<lambda>x. \<not> P x) (L l)) @ [Inl l])"
  shows "\<exists>h'. DoubleLinkListInsertNodeBefore item (Inr n) h = Some h'
    \<and> store_rep h' (L(l := insert_when P n (L l)))"
proof -
  let ?us = "takeWhile (\<lambda>x. \<not> P x) (L l)" and ?vs = "dropWhile (\<lambda>x. \<not> P x) (L l)"
  have split: "L l = ?us @ ?vs" by simp
  have d: "dlist h (Inl l) (map Inr ?us @ map Inr ?vs)"
    using assms(1) split unfolding store_rep_def map_append[symmetric] by simp
  have n: "Inr n \<notin> set (Inl l # map Inr ?us @ map Inr ?vs)"
    unfolding map_append[symmetric] using assms(2) by (auto simp: ls_unlinked_def)
  obtain h' where h': "DoubleLinkListInsertNodeBefore item (Inr n) h = Some h'"
    "dlist h' (Inl l) (map Inr ?us @ Inr n # map Inr ?vs)"
    "\<And>x. x \<notin> set (Inr n # Inl l # map Inr ?us @ map Inr ?vs) \<Longrightarrow> h' x = h x"
    using InsertNodeBefore_dlist[OF d n] pos by metis
  have fr: "\<And>x. x \<notin> set (Inr n # Inl l # map Inr (L l)) \<Longrightarrow> h' x = h x"
    using h'(3) unfolding map_append[symmetric] by simp
  have "store_rep h' (L(l := insert_when P n (L l)))"
  proof (rule store_rep_upd[OF assms(1)])
    show "dlist h' (Inl l) (map Inr (insert_when P n (L l)))"
      using h'(2) by (simp add: insert_when_def)
  qed (use fr assms(2) in auto)
  with h'(1) show ?thesis by auto
qed

lemma insert_back_refines:
  assumes "store_rep h L" and "ls_unlinked n L"
  shows "\<exists>h'. DoubleLinkListInsertNodeBefore (Inl l) (Inr n) h = Some h' \<and> store_rep h' (L(l := L l @ [n]))"
  using insert_when_refines[OF assms, of "Inl l" "\<lambda>_. False" l] by simp

lemma insert_ordered_refines:
  assumes "store_rep h L" and "ls_unlinked n L"
  shows "\<exists>h'. insert_ordered l P n h = Some h' \<and> store_rep h' (L(l := insert_when P n (L l)))"
proof -
  let ?P = "\<lambda>a. case a of Inl _ \<Rightarrow> False | Inr m \<Rightarrow> P m"
  have "dlist h (Inl l) (map Inr (L l))" using assms(1) by (simp add: store_rep_def)
  then have "DOUBLE_LINKLIST_FOR_EACH (Inl l) ?P h
      = Some (hd (map Inr (dropWhile (\<lambda>x. \<not> P x) (L l)) @ [Inl l]))"
    by (simp add: DOUBLE_LINKLIST_FOR_EACH_dlist dropWhile_map comp_def)
  then show ?thesis using insert_when_refines[OF assms refl] by (simp add: insert_ordered_def)
qed

lemma rm_refines:
  assumes r: "store_rep h L"
  shows "\<exists>h'. DoubleLinkListRmNode (Inr n) h = Some h' \<and> store_rep h' (ls_rm n L)"
proof (cases "ls_unlinked n L")
  case True
  then have "ls_rm n L = L" by (auto simp: ls_rm_def ls_unlinked_def fun_eq_iff)
  moreover have "dlist h (Inr n) []" using r True by (simp add: store_rep_def)
  ultimately show ?thesis using r RmNode_unlinked by metis
next
  case False
  then obtain l where n: "n \<in> set (L l)" by (auto simp: ls_unlinked_def)
  then obtain us vs where L: "L l = us @ n # vs" by (metis split_list)
  have nin: "n \<notin> set us" "n \<notin> set vs" using store_rep_distinct[OF r, of l] L by auto
  have d: "dlist h (Inl l) (map Inr us @ Inr n # map Inr vs)" using r L by (metis store_rep_def map_append list.map(2))
  obtain h' where h': "DoubleLinkListRmNode (Inr n) h = Some h'"
    "dlist h' (Inl l) (map Inr us @ map Inr vs)" "dlist h' (Inr n) []"
    "\<And>x. x \<notin> set (Inr n # Inl l # map Inr us @ map Inr vs) \<Longrightarrow> h' x = h x"
    using RmNode_dlist[OF d] by metis
  have "store_rep h' (L(l := us @ vs))"
    by (rule store_rep_upd[OF r]) (use h' L in auto)
  moreover have "L(l := us @ vs) = ls_rm n L"
  proof
    fix a
    have "n \<notin> set (L a)" if "a \<noteq> l" using r n that by (auto simp: store_rep_def)
    then show "(L(l := us @ vs)) a = ls_rm n L a"
      using nin L by (cases "a = l") (simp_all add: ls_rm_def)
  qed
  ultimately show ?thesis using h'(1) by auto
qed

subsection \<open>The interface\<close>

text \<open>
  What the kernel relies on: heads, nodes, and operations that act on the represented lists as
  list operations do. The concrete heap type is a parameter.
\<close>

locale list_store =
  fixes rep :: "'h \<Rightarrow> ('l, 'n) lstore \<Rightarrow> bool"
    and push_front :: "'l \<Rightarrow> 'n \<Rightarrow> 'h \<Rightarrow> 'h option"
    and push_back :: "'l \<Rightarrow> 'n \<Rightarrow> 'h \<Rightarrow> 'h option"
    and push_when :: "'l \<Rightarrow> ('n \<Rightarrow> bool) \<Rightarrow> 'n \<Rightarrow> 'h \<Rightarrow> 'h option"
    and unlink :: "'n \<Rightarrow> 'h \<Rightarrow> 'h option"
    and is_empty :: "'l \<Rightarrow> 'h \<Rightarrow> bool"
    and front :: "'l \<Rightarrow> 'h \<Rightarrow> 'n option"
  assumes rep_disjoint: "rep h L \<Longrightarrow> l \<noteq> l' \<Longrightarrow> set (L l) \<inter> set (L l') = {}"
    and rep_distinct: "rep h L \<Longrightarrow> distinct (L l)"
    and rep_push_front: "rep h L \<Longrightarrow> ls_unlinked n L \<Longrightarrow>
      \<exists>h'. push_front l n h = Some h' \<and> rep h' (L(l := n # L l))"
    and rep_push_back: "rep h L \<Longrightarrow> ls_unlinked n L \<Longrightarrow>
      \<exists>h'. push_back l n h = Some h' \<and> rep h' (L(l := L l @ [n]))"
    and rep_push_when: "rep h L \<Longrightarrow> ls_unlinked n L \<Longrightarrow>
      \<exists>h'. push_when l P n h = Some h' \<and> rep h' (L(l := insert_when P n (L l)))"
    and rep_unlink: "rep h L \<Longrightarrow> \<exists>h'. unlink n h = Some h' \<and> rep h' (ls_rm n L)"
    and rep_is_empty: "rep h L \<Longrightarrow> is_empty l h \<longleftrightarrow> L l = []"
    and rep_front: "rep h L \<Longrightarrow> front l h = (case L l of [] \<Rightarrow> None | x # _ \<Rightarrow> Some x)"
begin

text \<open>Moving a node: whatever list it was on, it ends up at the back of the target and nowhere else.\<close>

lemma move_to_back:
  assumes "rep h L"
  shows "\<exists>h1 h2. unlink n h = Some h1 \<and> push_back l n h1 = Some h2
    \<and> rep h2 ((ls_rm n L)(l := removeAll n (L l) @ [n]))"
proof -
  obtain h1 where h1: "unlink n h = Some h1" "rep h1 (ls_rm n L)" using rep_unlink[OF assms] by blast
  obtain h2 where "push_back l n h1 = Some h2" "rep h2 ((ls_rm n L)(l := ls_rm n L l @ [n]))"
    using rep_push_back[OF h1(2) ls_unlinked_rm] by blast
  then show ?thesis using h1(1) by (auto simp: ls_rm_def)
qed

text \<open>
  Draining a list front first, as the wake-all loops do: take the front node, unlink it, repeat.
\<close>

fun drain :: "nat \<Rightarrow> 'l \<Rightarrow> 'h \<Rightarrow> ('n list \<times> 'h) option" where
  "drain 0 l h = (if is_empty l h then Some ([], h) else None)"
| "drain (Suc k) l h = (case front l h of None \<Rightarrow> Some ([], h)
     | Some n \<Rightarrow> do { h' \<leftarrow> unlink n h; (ns, h'') \<leftarrow> drain k l h'; Some (n # ns, h'') })"

lemma drain_all:
  assumes "rep h L" and "length (L l) \<le> k"
  shows "\<exists>h'. drain k l h = Some (L l, h') \<and> rep h' (L(l := []))"
  using assms
proof (induction k arbitrary: h L)
  case 0
  then have "L l = []" by simp
  moreover have "L(l := []) = L" using \<open>L l = []\<close> by auto
  ultimately show ?case using 0 rep_is_empty by auto
next
  case (Suc k)
  show ?case
  proof (cases "L l")
    case Nil
    then have "L(l := []) = L" by auto
    then show ?thesis using Nil Suc.prems(1) rep_front[OF Suc.prems(1), of l] by auto
  next
    case (Cons n ns)
    obtain h1 where h1: "unlink n h = Some h1" "rep h1 (ls_rm n L)"
      using rep_unlink[OF Suc.prems(1)] by blast
    have nin: "n \<notin> set ns" using rep_distinct[OF Suc.prems(1), of l] Cons by auto
    have rl: "ls_rm n L l = ns" using Cons nin by (simp add: ls_rm_def)
    have other: "ls_rm n L a = L a" if "a \<noteq> l" for a
      using rep_disjoint[OF Suc.prems(1) that] Cons by (auto simp: ls_rm_def)
    have eq: "(ls_rm n L)(l := []) = L(l := [])" using other by auto
    obtain h2 where h2: "drain k l h1 = Some (ls_rm n L l, h2)" "rep h2 ((ls_rm n L)(l := []))"
      using Suc.IH[OF h1(2)] rl Suc.prems(2) Cons by fastforce
    have "drain (Suc k) l h = Some (L l, h2)"
      using h1(1) h2(1) rep_front[OF Suc.prems(1), of l] Cons rl by simp
    then show ?thesis using h2(2) unfolding eq by blast
  qed
qed

end

text \<open>The pointer code implements the interface.\<close>

interpretation dl: list_store store_rep
  "\<lambda>l n. DoubleLinkListInsertNodeAfter (Inl l) (Inr n)"
  "\<lambda>l n. DoubleLinkListInsertNodeBefore (Inl l) (Inr n)"
  insert_ordered "\<lambda>n. DoubleLinkListRmNode (Inr n)"
  "\<lambda>l. IsDoubleLinkListEmpty (Inl l)"
  "\<lambda>l h. case DoubleLinkListGetHead (Inl l) h of Some (Inr n) \<Rightarrow> Some n | _ \<Rightarrow> None"
proof
  show "\<And>h L l l'. store_rep h L \<Longrightarrow> l \<noteq> l' \<Longrightarrow> set (L l) \<inter> set (L l') = {}"
    by (auto simp: store_rep_def)
  fix h :: "('l + 'n) dl_heap" and L :: "('l, 'n) lstore" and l
  assume "store_rep h L"
  then have d: "dlist h (Inl l) (map Inr (L l))" by (simp add: store_rep_def)
  show "IsDoubleLinkListEmpty (Inl l) h \<longleftrightarrow> L l = []"
    using IsDoubleLinkListEmpty_dlist[OF d] by simp
  show "(case DoubleLinkListGetHead (Inl l) h of Some (Inr n) \<Rightarrow> Some n | _ \<Rightarrow> None)
        = (case L l of [] \<Rightarrow> None | x # _ \<Rightarrow> Some x)"
    using DoubleLinkListGetHead_dlist[OF d] by (simp split: list.splits)
qed (simp_all only: store_rep_distinct insert_front_refines insert_back_refines insert_ordered_refines rm_refines)

subsection \<open>Properties\<close>

text \<open>C10: The pointer operations of double_link.c implement list operations on every list of the
  system at once: unlinking a node removes it from whichever list holds it, and afterwards it can
  be linked at the front, at the back, or before the first node that satisfies a test, without
  disturbing any other list; no operation dereferences NULL.\<close>

theorem double_link_store:
  fixes h :: "('l + 'n) dl_heap"
  assumes "store_rep h L"
  shows "\<exists>h1. DoubleLinkListRmNode (Inr n) h = Some h1 \<and> store_rep h1 (ls_rm n L) \<and>
    (\<exists>h2. DoubleLinkListInsertNodeBefore (Inl l) (Inr n) h1 = Some h2 \<and>
       store_rep h2 ((ls_rm n L)(l := removeAll n (L l) @ [n]))) \<and>
    (\<exists>h2. DoubleLinkListInsertNodeAfter (Inl l) (Inr n) h1 = Some h2 \<and>
       store_rep h2 ((ls_rm n L)(l := n # removeAll n (L l)))) \<and>
    (\<exists>h2. insert_ordered l P n h1 = Some h2 \<and>
       store_rep h2 ((ls_rm n L)(l := insert_when P n (removeAll n (L l)))))"
proof -
  obtain h1 where h1: "DoubleLinkListRmNode (Inr n) h = Some h1" "store_rep h1 (ls_rm n L)"
    using dl.rep_unlink[OF assms] by blast
  show ?thesis
    using h1 dl.rep_push_back[OF h1(2) ls_unlinked_rm, of l]
      dl.rep_push_front[OF h1(2) ls_unlinked_rm, of l] dl.rep_push_when[OF h1(2) ls_unlinked_rm, of l P]
    by (auto simp: ls_rm_def)
qed

theorem double_link_store_witness:
  "\<exists>(h :: (unit + nat) dl_heap) h1 h2.
     store_rep h (\<lambda>_. []) \<and> DoubleLinkListRmNode (Inr 7) h = Some h1 \<and>
     DoubleLinkListInsertNodeBefore (Inl ()) (Inr 7) h1 = Some h2 \<and> store_rep h2 (\<lambda>_. [7])"
proof -
  define h :: "(unit + nat) dl_heap" where "h = (\<lambda>x. \<lparr>node_next = Some x, node_prev = Some x\<rparr>)"
  have r: "store_rep h (\<lambda>_. [])"
    by (simp add: h_def store_rep_def dlist_def)
  have "(ls_rm 7 (\<lambda>_. []))(() := removeAll 7 [] @ [7 :: nat]) = (\<lambda>_. [7])" by auto
  then show ?thesis using double_link_store[OF r, of 7 "()" "\<lambda>_. True"] r by simp blast
qed

end
