(* ===== verification/IdManager.thy ===== *)
theory IdManager
  imports DoubleLink
begin

text \<open>
  The identifier manager of \<^verbatim>\<open>kernel/thread/id.c\<close>: a bitmap of identifiers in use and a hash
  table from identifiers to the objects that hold them. Objects are addresses of type \<open>'o\<close>;
  \<open>node_id\<close> is the \<^verbatim>\<open>id\<close> field of the \<^verbatim>\<open>IdNode\<close> embedded in each object. A bucket whose head
  has not been initialised yet (its \<^verbatim>\<open>node_prev\<close> is NULL) is \<open>None\<close>.
\<close>

record 'o id_manager =
  id_max :: nat
  hoffset :: nat
  id_map :: "uint8 list"
  htable :: "nat \<Rightarrow> 'o list option"
  node_id :: "'o \<Rightarrow> uint16"

definition DECLARE_ID_MANAGER :: "nat \<Rightarrow> nat \<Rightarrow> ('o \<Rightarrow> uint16) \<Rightarrow> 'o id_manager" where
  "DECLARE_ID_MANAGER idmax htable_size ids =
     \<lparr>id_max = idmax, hoffset = (if idmax < htable_size then idmax else htable_size),
      id_map = replicate ((idmax + 7) div 8) 0, htable = (\<lambda>_. None), node_id = ids\<rparr>"

text \<open>The two loops of \<^verbatim>\<open>AllocId\<close>: the first byte with a clear bit, then its lowest clear bit.\<close>

fun AllocId_byte :: "uint8 list \<Rightarrow> nat \<Rightarrow> nat option" where
  "AllocId_byte [] index = None"
| "AllocId_byte (b # bs) index = (if b \<noteq> 0xff then Some index else AllocId_byte bs (index + 1))"

lemma unat_drop_bit_1: "unat (drop_bit 1 (w :: uint8)) = unat w div 2"
proof -
  have "unat w < 2 ^ 8" using unsigned_less[of w, where 'a = nat] by simp
  then have "take_bit 8 (unat w) = unat w" by (simp only: take_bit_nat_eq_self_iff)
  then show ?thesis unfolding unsigned_drop_bit_eq by (simp add: drop_bit_Suc)
qed

lemma and_1_nz: "entry AND 1 \<noteq> 0 \<longleftrightarrow> odd (entry :: uint8)"
  by (simp add: and_one_eq odd_iff_mod_2_eq_one)

function AllocId_bit :: "uint8 \<Rightarrow> nat \<Rightarrow> nat" where
  "AllocId_bit entry ident = (if entry AND 1 \<noteq> 0 then AllocId_bit (drop_bit 1 entry) (ident + 1) else ident)"
  by pat_completeness auto

termination
proof (relation "measure (\<lambda>(entry, ident). unat entry)")
  fix entry :: uint8 and ident :: nat
  assume "entry AND 1 \<noteq> 0"
  then have "entry \<noteq> 0" by auto
  then have "0 < unat entry" by (metis gr0I unsigned_eq_0_iff)
  then have "unat entry div 2 < unat entry" by (rule div_less_dividend[rotated]) simp
  then show "((drop_bit 1 entry, ident + 1), entry, ident) \<in> measure (\<lambda>(entry, ident). unat entry)"
    by (simp add: unat_drop_bit_1 del: One_nat_def)
qed simp

declare AllocId_bit.simps [simp del]

definition AllocId :: "'o id_manager \<Rightarrow> (nat \<times> 'o id_manager) option" where
  "AllocId m = (case AllocId_byte (take ((id_max m + 7) div 8) (id_map m)) 0 of None \<Rightarrow> None
     | Some index \<Rightarrow>
        (let ident = AllocId_bit (id_map m ! index) (index * 8) in
         if ident \<ge> id_max m then None
         else Some (ident, m\<lparr>id_map := (id_map m)[index := id_map m ! index OR push_bit (ident mod 8) 1]\<rparr>)))"

definition FreeId :: "uint16 \<Rightarrow> 'o id_manager \<Rightarrow> 'o id_manager" where
  "FreeId ident m =
     (let index = unat ident div 8 in
      m\<lparr>id_map := (id_map m)[index := id_map m ! index AND NOT (push_bit (unat ident mod 8) 1)]\<rparr>)"

definition InsertObj :: "'o \<Rightarrow> 'o id_manager \<Rightarrow> 'o id_manager" where
  "InsertObj idnode m =
     (let b = unat (node_id m idnode) mod hoffset m;
          xs = (case htable m b of None \<Rightarrow> [] | Some xs \<Rightarrow> xs)
      in m\<lparr>htable := (htable m)(b := Some (idnode # xs))\<rparr>)"

definition GetObj :: "uint16 \<Rightarrow> 'o id_manager \<Rightarrow> 'o option \<times> 'o id_manager" where
  "GetObj ident m =
     (let b = unat ident mod hoffset m in
      case htable m b of None \<Rightarrow> (None, m\<lparr>htable := (htable m)(b := Some [])\<rparr>)
      | Some xs \<Rightarrow> (find (\<lambda>idnode. node_id m idnode = ident) xs, m))"

definition RemoveObj :: "'o \<Rightarrow> 'o id_manager \<Rightarrow> 'o id_manager" where
  "RemoveObj idnode m = m\<lparr>htable := (\<lambda>b. map_option (removeAll idnode) (htable m b))\<rparr>"

definition IdInsertObj :: "'o \<Rightarrow> 'o id_manager \<Rightarrow> (nat \<times> 'o id_manager) option" where
  "IdInsertObj idnode m = (case AllocId m of None \<Rightarrow> None
     | Some (ident, m) \<Rightarrow>
        (let m = m\<lparr>node_id := (node_id m)(idnode := word_of_nat ident)\<rparr>
         in Some (ident, InsertObj idnode m)))"

definition IdGetObj :: "uint16 \<Rightarrow> 'o id_manager \<Rightarrow> 'o option \<times> 'o id_manager" where
  "IdGetObj ident m = (if unat ident \<ge> id_max m then (None, m) else GetObj ident m)"

definition IdRemoveObj :: "uint16 \<Rightarrow> 'o id_manager \<Rightarrow> 'o id_manager" where
  "IdRemoveObj ident m = (case IdGetObj ident m of (None, m) \<Rightarrow> m
     | (Some idnode, m) \<Rightarrow>
        (let m = FreeId (node_id m idnode) m;
             m = RemoveObj idnode m
         in m\<lparr>node_id := (node_id m)(idnode := -1)\<rparr>))"

subsection \<open>The bitmap\<close>

definition id_used :: "'o id_manager \<Rightarrow> nat \<Rightarrow> bool" where
  "id_used m i \<longleftrightarrow> bit (id_map m ! (i div 8)) (i mod 8)"

lemma AllocId_bit_spec:
  assumes "n < 8" and "\<not> bit entry n" and "\<forall>i < n. bit (entry :: uint8) i"
  shows "AllocId_bit entry k = k + n"
  using assms
proof (induction n arbitrary: entry k)
  case 0
  then show ?case by (simp add: AllocId_bit.simps[of entry] and_1_nz bit_0)
next
  case (Suc n)
  have "odd entry" using Suc.prems(3) by (auto simp: bit_0[symmetric])
  moreover have "AllocId_bit (drop_bit 1 entry) (k + 1) = k + 1 + n"
    using Suc.prems by (intro Suc.IH) (auto simp: bit_drop_bit_eq)
  ultimately show ?case by (simp add: AllocId_bit.simps[of entry] and_1_nz)
qed

lemma byte_full: "(w :: uint8) = 0xff \<longleftrightarrow> (\<forall>i < 8. bit w i)"
proof -
  have "(0xff :: uint8) = mask 8" by (simp add: mask_eq_exp_minus_1)
  moreover have "bit w i \<Longrightarrow> i < 8" for i using bit_imp_le_length[of w i] by simp
  ultimately show ?thesis by (auto simp: bit_eq_iff bit_mask_iff)
qed

lemma byte_lowest_clear:
  assumes "(w :: uint8) \<noteq> 0xff"
  obtains n where "n < 8" and "\<not> bit w n" and "\<forall>i < n. bit w i"
proof -
  have ex: "\<exists>n. n < 8 \<and> \<not> bit w n" using assms byte_full by blast
  let ?n = "LEAST n. n < 8 \<and> \<not> bit w n"
  have "?n < 8 \<and> \<not> bit w ?n" using LeastI_ex[OF ex] .
  moreover have "bit w i" if "i < ?n" for i
    using not_less_Least[OF that] \<open>?n < 8 \<and> \<not> bit w ?n\<close> that by auto
  ultimately show thesis using that by blast
qed

lemma AllocId_byte_Some:
  "AllocId_byte bs k = Some j \<Longrightarrow>
    k \<le> j \<and> j - k < length bs \<and> bs ! (j - k) \<noteq> 0xff \<and> (\<forall>i < j - k. bs ! i = 0xff)"
proof (induction bs k rule: AllocId_byte.induct)
  case (2 b bs k)
  show ?case
  proof (cases "b = 0xff")
    case True
    with 2 have *: "Suc k \<le> j" "j - Suc k < length bs" "bs ! (j - Suc k) \<noteq> 0xff"
      "\<forall>i < j - Suc k. bs ! i = 0xff" by auto
    then have "j - k = Suc (j - Suc k)" by simp
    then show ?thesis using * True by (auto simp: less_Suc_eq_0_disj)
  qed (use 2 in auto)
qed simp

lemma AllocId_byte_None: "AllocId_byte bs k = None \<Longrightarrow> \<forall>i < length bs. bs ! i = 0xff"
  by (induction bs k rule: AllocId_byte.induct) (auto simp: less_Suc_eq_0_disj split: if_splits)

lemma AllocId_None:
  assumes "length (id_map m) = (id_max m + 7) div 8"
    and "AllocId m = None" and "i < id_max m"
  shows "id_used m i"
proof (cases "AllocId_byte (id_map m) 0")
  case None
  have "i div 8 < length (id_map m)" using assms by simp
  then show ?thesis using AllocId_byte_None[OF None] byte_full by (auto simp: id_used_def)
next
  case (Some j)
  note j = AllocId_byte_Some[OF Some]
  obtain n where n: "n < 8" "\<not> bit (id_map m ! j) n" "\<forall>i < n. bit (id_map m ! j) i"
    using byte_lowest_clear[of "id_map m ! j"] j by auto
  have "AllocId_bit (id_map m ! j) (j * 8) = j * 8 + n" by (rule AllocId_bit_spec[OF n])
  then have le: "id_max m \<le> j * 8 + n"
    using assms Some by (simp add: AllocId_def Let_def split: if_splits)
  show ?thesis
  proof (cases "i div 8 < j")
    case True
    then have "id_map m ! (i div 8) = 0xff" using j by auto
    then show ?thesis using byte_full by (simp add: id_used_def)
  next
    case False
    have "i < j * 8 + n" using le assms(3) by simp
    then have "i div 8 = j" and "i mod 8 < n"
      using False n(1) div_mult_mod_eq[of i 8] by linarith+
    then show ?thesis using n(3) by (auto simp: id_used_def)
  qed
qed

lemma AllocId_Some:
  assumes "length (id_map m) = (id_max m + 7) div 8" and "AllocId m = Some (i, m')"
  shows "i < id_max m \<and> \<not> id_used m i \<and> (\<forall>k < i. id_used m k) \<and>
    m' = m\<lparr>id_map := (id_map m)[i div 8 := id_map m ! (i div 8) OR push_bit (i mod 8) 1]\<rparr>"
proof -
  obtain j where j: "AllocId_byte (id_map m) 0 = Some j"
    using assms by (auto simp: AllocId_def split: option.splits)
  note js = AllocId_byte_Some[OF j]
  obtain n where n: "n < 8" "\<not> bit (id_map m ! j) n" "\<forall>i < n. bit (id_map m ! j) i"
    using byte_lowest_clear[of "id_map m ! j"] js by auto
  have e: "AllocId_bit (id_map m ! j) (j * 8) = j * 8 + n" by (rule AllocId_bit_spec[OF n])
  have i: "i = j * 8 + n" and lt: "i < id_max m"
    and m': "m' = m\<lparr>id_map := (id_map m)[j := id_map m ! j OR push_bit (i mod 8) 1]\<rparr>"
    using assms j unfolding AllocId_def Let_def by (auto simp: e split: if_splits)
  have d: "i div 8 = j" "i mod 8 = n" using i n(1) by auto
  have "id_used m k" if "k < i" for k
  proof (cases "k div 8 < j")
    case True
    then have "id_map m ! (k div 8) = 0xff" using js by auto
    then show ?thesis using byte_full by (simp add: id_used_def)
  next
    case False
    then have "k div 8 = j" and "k mod 8 < n"
      using that i n(1) div_mult_mod_eq[of k 8] mod_less_divisor[of 8 k] by linarith+
    then show ?thesis using n(3) by (auto simp: id_used_def)
  qed
  then show ?thesis using lt n(2) d m' by (auto simp: id_used_def)
qed

lemma bit_byte_exp: "n < 8 \<Longrightarrow> bit (2 ^ n :: uint8) k \<longleftrightarrow> k = n"
  by (auto simp: bit_exp_iff)

lemma id_used_set:
  assumes "i div 8 < length (id_map m)"
  shows "id_used (m\<lparr>id_map := (id_map m)[i div 8 := id_map m ! (i div 8) OR push_bit (i mod 8) 1]\<rparr>) k
    \<longleftrightarrow> k = i \<or> id_used m k"
proof (cases "k div 8 = i div 8")
  case True
  have eq: "k = i \<longleftrightarrow> k mod 8 = i mod 8"
    using True by (metis div_mult_mod_eq)
  have "k mod 8 < 8" "i mod 8 < 8" by simp_all
  then show ?thesis using True assms
    by (auto simp: id_used_def bit_or_iff bit_byte_exp eq)
qed (auto simp: id_used_def)

lemma id_used_clear:
  assumes "i div 8 < length (id_map m)"
  shows "id_used (m\<lparr>id_map := (id_map m)[i div 8 := id_map m ! (i div 8) AND NOT (push_bit (i mod 8) 1)]\<rparr>) k
    \<longleftrightarrow> k \<noteq> i \<and> id_used m k"
proof (cases "k div 8 = i div 8")
  case True
  have eq: "k = i \<longleftrightarrow> k mod 8 = i mod 8"
    using True by (metis div_mult_mod_eq)
  have "k mod 8 < 8" "i mod 8 < 8" by simp_all
  then show ?thesis using True assms
    by (auto simp: id_used_def bit_and_iff bit_not_iff bit_byte_exp eq)
qed (auto simp: id_used_def)

subsection \<open>The manager as a partial map\<close>

definition bucket :: "'o id_manager \<Rightarrow> nat \<Rightarrow> 'o list" where
  "bucket m b = (case htable m b of None \<Rightarrow> [] | Some xs \<Rightarrow> xs)"

definition id_objs :: "'o id_manager \<Rightarrow> 'o set" where
  "id_objs m = (\<Union>b. set (bucket m b))"

definition id_lookup :: "'o id_manager \<Rightarrow> nat \<Rightarrow> 'o option" where
  "id_lookup m i = find (\<lambda>ob. unat (node_id m ob) = i) (bucket m (i mod hoffset m))"

definition id_inv :: "'o id_manager \<Rightarrow> bool" where
  "id_inv m \<longleftrightarrow> 0 < hoffset m \<and> id_max m < 65536 \<and> length (id_map m) = (id_max m + 7) div 8 \<and>
     (\<forall>b ob. ob \<in> set (bucket m b) \<longrightarrow>
        unat (node_id m ob) mod hoffset m = b \<and> unat (node_id m ob) < id_max m) \<and>
     inj_on (node_id m) (id_objs m) \<and>
     (\<forall>i < id_max m. id_used m i \<longleftrightarrow> (\<exists>ob \<in> id_objs m. unat (node_id m ob) = i))"

lemma id_inv_D:
  assumes "id_inv m"
  shows "0 < hoffset m" "id_max m < 65536" "length (id_map m) = (id_max m + 7) div 8"
    "ob \<in> set (bucket m b) \<Longrightarrow> unat (node_id m ob) mod hoffset m = b"
    "ob \<in> id_objs m \<Longrightarrow> unat (node_id m ob) < id_max m"
    "inj_on (node_id m) (id_objs m)"
    "i < id_max m \<Longrightarrow> id_used m i \<longleftrightarrow> (\<exists>ob \<in> id_objs m. unat (node_id m ob) = i)"
  using assms by (auto simp: id_inv_def id_objs_def)

lemma find_SomeD: "find P xs = Some x \<Longrightarrow> x \<in> set xs \<and> P x"
  by (induction xs) (auto split: if_splits)

lemma id_lookup_iff:
  assumes "id_inv m"
  shows "id_lookup m i = Some ob \<longleftrightarrow> ob \<in> id_objs m \<and> unat (node_id m ob) = i"
proof
  assume "id_lookup m i = Some ob"
  then show "ob \<in> id_objs m \<and> unat (node_id m ob) = i"
    by (auto simp: id_lookup_def id_objs_def dest!: find_SomeD)
next
  assume a: "ob \<in> id_objs m \<and> unat (node_id m ob) = i"
  then have mem: "ob \<in> set (bucket m (i mod hoffset m))"
    using id_inv_D(4)[OF assms, of ob] by (auto simp: id_objs_def)
  then obtain ob' where ob': "id_lookup m i = Some ob'"
    using a by (cases "id_lookup m i") (auto simp: id_lookup_def find_None_iff)
  then have "ob' \<in> id_objs m" and "unat (node_id m ob') = i"
    by (auto simp: id_lookup_def id_objs_def dest!: find_SomeD)
  then have "ob' = ob"
    using a inj_onD[OF id_inv_D(6)[OF assms], of ob' ob] by (metis word_unat_eq_iff)
  then show "id_lookup m i = Some ob" using ob' by simp
qed

lemma id_used_lookup:
  assumes "id_inv m" and "i < id_max m"
  shows "id_used m i \<longleftrightarrow> id_lookup m i \<noteq> None"
  using id_inv_D(7)[OF assms] id_lookup_iff[OF assms(1)] by (metis not_Some_eq)

lemma id_lookup_eqI:
  assumes "id_inv m" and "id_inv m'"
    and "\<And>ob i. ob \<in> id_objs m' \<and> unat (node_id m' ob) = i \<longleftrightarrow> f i = Some ob"
  shows "id_lookup m' = f"
proof
  fix i show "id_lookup m' i = f i"
    using assms(3) id_lookup_iff[OF assms(2)] by (metis not_Some_eq)
qed

lemma DECLARE_ID_MANAGER_inv:
  assumes "0 < n" and "n < 65536" and "0 < htable_size"
  shows "id_inv (DECLARE_ID_MANAGER n htable_size ids) \<and>
    id_lookup (DECLARE_ID_MANAGER n htable_size ids) = (\<lambda>_. None)"
  using assms
  by (auto simp: id_inv_def DECLARE_ID_MANAGER_def id_objs_def bucket_def id_used_def id_lookup_def
      fun_eq_iff)

lemma id_max_updates [simp]:
  "id_objs (m\<lparr>id_map := x\<rparr>) = id_objs m" "bucket (m\<lparr>id_map := x\<rparr>) = bucket m"
  "bucket (m\<lparr>node_id := f\<rparr>) = bucket m" "id_objs (m\<lparr>node_id := f\<rparr>) = id_objs m"
  "id_used (m\<lparr>node_id := f\<rparr>) = id_used m" "id_used (m\<lparr>htable := h\<rparr>) = id_used m"
  by (auto simp: id_objs_def bucket_def id_used_def fun_eq_iff)

lemma InsertObj_simps [simp]:
  "bucket (InsertObj ob m) b = (if b = unat (node_id m ob) mod hoffset m then ob # bucket m b else bucket m b)"
  "id_objs (InsertObj ob m) = insert ob (id_objs m)"
  "id_used (InsertObj ob m) = id_used m" "hoffset (InsertObj ob m) = hoffset m"
  "id_max (InsertObj ob m) = id_max m" "id_map (InsertObj ob m) = id_map m"
  "node_id (InsertObj ob m) = node_id m"
proof -
  show b: "bucket (InsertObj ob m) b =
      (if b = unat (node_id m ob) mod hoffset m then ob # bucket m b else bucket m b)" for b
    by (simp add: InsertObj_def bucket_def Let_def)
  show "id_objs (InsertObj ob m) = insert ob (id_objs m)"
    by (auto simp: id_objs_def b split: if_splits)
qed (simp_all add: InsertObj_def Let_def)

lemma IdInsertObj_refines:
  assumes inv: "id_inv m" and fresh: "ob \<notin> id_objs m"
    and ins: "IdInsertObj ob m = Some (i, m')"
  shows "i < id_max m \<and> id_lookup m i = None \<and> (\<forall>k < i. id_lookup m k \<noteq> None) \<and>
    id_inv m' \<and> id_lookup m' = (id_lookup m)(i \<mapsto> ob) \<and> id_max m' = id_max m"
proof -
  obtain m1 where al: "AllocId m = Some (i, m1)"
    and m': "m' = InsertObj ob (m1\<lparr>node_id := (node_id m1)(ob := word_of_nat i)\<rparr>)"
    using ins by (auto simp: IdInsertObj_def Let_def split: option.splits)
  note inv' = id_inv_D[OF inv]
  have i: "i < id_max m" "\<not> id_used m i" "\<forall>k < i. id_used m k"
    and m1: "m1 = m\<lparr>id_map := (id_map m)[i div 8 := id_map m ! (i div 8) OR push_bit (i mod 8) 1]\<rparr>"
    using AllocId_Some[OF inv'(3) al] by auto
  have len: "i div 8 < length (id_map m)" using inv'(3) i(1) by simp
  have used: "id_used m1 k \<longleftrightarrow> k = i \<or> id_used m k" for k
    unfolding m1 by (rule id_used_set[OF len])
  have w: "unat (word_of_nat i :: uint16) = i"
    using i(1) inv'(2) by (simp add: unsigned_of_nat take_bit_nat_eq_self_iff)
  have node: "unat (node_id m x) \<noteq> i" if "x \<in> id_objs m" for x
    using inv'(7)[OF i(1)] i(2) that by blast
  have inv2: "id_inv m'"
    unfolding id_inv_def
  proof (intro conjI allI impI)
    have "word_of_nat i \<notin> node_id m ` id_objs m" using node w by auto
    moreover have "inj_on ((node_id m)(ob := word_of_nat i)) (id_objs m)"
      using inv'(6) fresh by (simp add: inj_on_def)
    moreover have "((node_id m)(ob := word_of_nat i)) ` (id_objs m) = node_id m ` id_objs m"
      using fresh by auto
    ultimately show "inj_on (node_id m') (id_objs m')"
      using fresh by (simp add: m' m1)
  next
    fix k assume "k < id_max m'"
    then show "id_used m' k \<longleftrightarrow> (\<exists>ob \<in> id_objs m'. unat (node_id m' ob) = k)"
      using inv'(7)[of k] used fresh w by (auto simp: m' m1)
  next
    fix b x assume x: "x \<in> set (bucket m' b)"
    show "unat (node_id m' x) mod hoffset m' = b" and "unat (node_id m' x) < id_max m'"
      using x fresh inv'(4)[of x b] inv'(5)[of x] i(1) w
      by (auto simp: m' m1 id_objs_def split: if_splits)
  qed (use inv' in \<open>auto simp: m' m1\<close>)
  have "id_lookup m' = (id_lookup m)(i \<mapsto> ob)"
    using fresh node w id_lookup_iff[OF inv]
    by (intro id_lookup_eqI[OF inv inv2]) (auto simp: m' m1)
  moreover have "\<forall>k < i. id_lookup m k \<noteq> None" and "id_lookup m i = None"
    using i id_used_lookup[OF inv] by auto
  ultimately show ?thesis using i(1) inv2 by (simp add: m' m1)
qed

lemma ran_id_lookup: "id_inv m \<Longrightarrow> ran (id_lookup m) = id_objs m"
  by (auto simp: ran_def id_lookup_iff)

lemma IdInsertObj_full:
  assumes "id_inv m"
  shows "IdInsertObj ob m = None \<longleftrightarrow> (\<forall>i < id_max m. id_lookup m i \<noteq> None)"
proof
  assume "IdInsertObj ob m = None"
  then have "AllocId m = None" by (auto simp: IdInsertObj_def Let_def split: option.splits)
  then show "\<forall>i < id_max m. id_lookup m i \<noteq> None"
    using AllocId_None[OF id_inv_D(3)[OF assms]] id_used_lookup[OF assms] by blast
next
  assume full: "\<forall>i < id_max m. id_lookup m i \<noteq> None"
  have "AllocId m = None"
  proof (cases "AllocId m")
    case (Some r)
    obtain i m' where "r = (i, m')" by (cases r)
    then show ?thesis
      using AllocId_Some[OF id_inv_D(3)[OF assms], of i m'] Some full id_used_lookup[OF assms, of i]
      by auto
  qed simp
  then show "IdInsertObj ob m = None" by (simp add: IdInsertObj_def)
qed

lemma bucket_init:
  "htable m b = None \<Longrightarrow> bucket (m\<lparr>htable := (htable m)(b := Some [])\<rparr>) = bucket m"
  by (auto simp: bucket_def fun_eq_iff)

lemma id_lookup_bound: "id_inv m \<Longrightarrow> id_max m \<le> i \<Longrightarrow> id_lookup m i = None"
  using id_lookup_iff[of m i] id_inv_D(5)[of m] by (metis leD not_Some_eq)

lemma IdGetObj_refines:
  assumes inv: "id_inv m" and get: "IdGetObj i m = (r, m')"
  shows "r = id_lookup m (unat i) \<and> id_inv m' \<and> id_lookup m' = id_lookup m \<and>
    id_max m' = id_max m \<and> node_id m' = node_id m \<and> id_objs m' = id_objs m"
proof (cases "id_max m \<le> unat i")
  case True
  then show ?thesis using inv get id_lookup_bound[OF inv True] by (simp add: IdGetObj_def)
next
  case False
  let ?b = "unat i mod hoffset m"
  show ?thesis
  proof (cases "htable m ?b")
    case None
    then have m': "m' = m\<lparr>htable := (htable m)(?b := Some [])\<rparr>" and r: "r = None"
      using get False by (auto simp: IdGetObj_def GetObj_def Let_def)
    have b: "bucket m' = bucket m" unfolding m' by (rule bucket_init[OF None])
    then have o': "id_objs m' = id_objs m" by (simp add: id_objs_def)
    have "id_lookup m' = id_lookup m" using b by (simp add: id_lookup_def fun_eq_iff m')
    moreover have "id_lookup m (unat i) = None" using None by (simp add: id_lookup_def bucket_def)
    moreover have "id_inv m'" using inv b o' by (simp add: id_inv_def) (simp add: m')
    ultimately show ?thesis using r o' by (simp add: m')
  next
    case (Some xs)
    then have m': "m' = m" and r: "r = find (\<lambda>ob. node_id m ob = i) xs"
      using get False by (auto simp: IdGetObj_def GetObj_def Let_def)
    have "r = id_lookup m (unat i)"
      using Some by (simp add: r id_lookup_def bucket_def word_unat_eq_iff)
    then show ?thesis using inv m' by simp
  qed
qed

lemma RemoveObj_simps [simp]:
  "bucket (RemoveObj ob m) b = removeAll ob (bucket m b)"
  "id_objs (RemoveObj ob m) = id_objs m - {ob}"
  "id_used (RemoveObj ob m) = id_used m" "hoffset (RemoveObj ob m) = hoffset m"
  "id_max (RemoveObj ob m) = id_max m" "id_map (RemoveObj ob m) = id_map m"
  "node_id (RemoveObj ob m) = node_id m"
proof -
  show b: "bucket (RemoveObj ob m) b = removeAll ob (bucket m b)" for b
    by (simp add: RemoveObj_def bucket_def split: option.splits)
  show "id_objs (RemoveObj ob m) = id_objs m - {ob}"
    by (auto simp: id_objs_def b)
qed (simp_all add: RemoveObj_def)

lemma FreeId_simps [simp]:
  "bucket (FreeId i m) = bucket m" "id_objs (FreeId i m) = id_objs m"
  "hoffset (FreeId i m) = hoffset m" "id_max (FreeId i m) = id_max m"
  "length (id_map (FreeId i m)) = length (id_map m)" "node_id (FreeId i m) = node_id m"
  by (simp_all add: FreeId_def Let_def)

lemma IdRemoveObj_present:
  assumes inv: "id_inv m" and ob: "ob \<in> id_objs m"
  defines "m' \<equiv> (RemoveObj ob (FreeId (node_id m ob) m))\<lparr>node_id := (node_id m)(ob := -1)\<rparr>"
  shows "id_inv m' \<and> id_lookup m' = (id_lookup m)(unat (node_id m ob) := None)"
proof -
  note inv' = id_inv_D[OF inv]
  let ?i = "unat (node_id m ob)"
  have len: "?i div 8 < length (id_map m)" using inv'(3) inv'(5)[OF ob] by simp
  have used: "id_used (FreeId (node_id m ob) m) k \<longleftrightarrow> k \<noteq> ?i \<and> id_used m k" for k
    unfolding FreeId_def Let_def by (rule id_used_clear[OF len])
  have inj: "unat (node_id m x) = ?i \<longleftrightarrow> x = ob" if "x \<in> id_objs m" for x
    using inj_on_eq_iff[OF inv'(6) that ob] by (simp add: word_unat_eq_iff)
  have inv2: "id_inv m'"
    unfolding id_inv_def
  proof (intro conjI allI impI)
    show "inj_on (node_id m') (id_objs m')"
      using inv'(6) by (simp add: m'_def inj_on_def)
  next
    fix k assume "k < id_max m'"
    then have "k < id_max m" by (simp add: m'_def)
    then show "id_used m' k \<longleftrightarrow> (\<exists>ob \<in> id_objs m'. unat (node_id m' ob) = k)"
      using inv'(7)[of k] used[of k] inj by (auto simp: m'_def)
  next
    fix b x assume x: "x \<in> set (bucket m' b)"
    then have x': "x \<in> set (bucket m b)" "x \<noteq> ob" by (auto simp: m'_def)
    then have "x \<in> id_objs m" by (auto simp: id_objs_def)
    then show "unat (node_id m' x) mod hoffset m' = b" and "unat (node_id m' x) < id_max m'"
      using x' inv'(4)[of x b] inv'(5)[of x] by (simp_all add: m'_def)
  qed (use inv' in \<open>simp_all add: m'_def\<close>)
  moreover have "id_lookup m' = (id_lookup m)(?i := None)"
    using id_lookup_iff[OF inv] inj
    by (intro id_lookup_eqI[OF inv inv2]) (auto simp: m'_def)
  ultimately show ?thesis ..
qed

lemma IdRemoveObj_refines:
  assumes inv: "id_inv m"
  shows "id_inv (IdRemoveObj i m) \<and> id_lookup (IdRemoveObj i m) = (id_lookup m)(unat i := None) \<and>
    id_max (IdRemoveObj i m) = id_max m"
proof -
  obtain r m1 where g: "IdGetObj i m = (r, m1)" by (cases "IdGetObj i m")
  note get = IdGetObj_refines[OF inv g]
  show ?thesis
  proof (cases r)
    case None
    then show ?thesis using get g by (auto simp: IdRemoveObj_def)
  next
    case (Some ob)
    then have ob: "ob \<in> id_objs m1" "unat (node_id m1 ob) = unat i"
      using get id_lookup_iff[OF inv] by auto
    have "IdRemoveObj i m =
        (RemoveObj ob (FreeId (node_id m1 ob) m1))\<lparr>node_id := (node_id m1)(ob := -1)\<rparr>"
      using g Some by (simp add: IdRemoveObj_def Let_def)
    then show ?thesis using IdRemoveObj_present[of m1 ob] get ob by simp
  qed
qed

subsection \<open>The contract the kernel objects rely on\<close>

text \<open>
  The rest of the kernel uses the manager as a partial map from identifiers to objects, in which
  a new object receives the lowest identifier not in use. \<open>id_alloc\<close> is that choice; the locale
  collects the laws, which the manager satisfies.
\<close>

definition id_alloc :: "nat \<Rightarrow> (nat \<rightharpoonup> 'a) \<Rightarrow> nat option" where
  "id_alloc cap f = find (\<lambda>i. f i = None) [0..<cap]"

lemma find_upt_Some:
  "find P [0..<n] = Some i \<longleftrightarrow> i < n \<and> P i \<and> (\<forall>k < i. \<not> P k)"
  by (auto simp: find_Some_iff)

lemma id_alloc_Some: "id_alloc cap f = Some i \<longleftrightarrow> i < cap \<and> f i = None \<and> (\<forall>k < i. f k \<noteq> None)"
  by (simp add: id_alloc_def find_upt_Some)

lemma id_alloc_None: "id_alloc cap f = None \<longleftrightarrow> (\<forall>i < cap. f i \<noteq> None)"
  by (auto simp: id_alloc_def find_None_iff)

text \<open>
  The callers pass an \<^verbatim>\<open>int32\<close> identifier, which the \<^verbatim>\<open>uint16\<close> parameter of \<^verbatim>\<open>IdGetObj\<close> and
  \<^verbatim>\<open>IdRemoveObj\<close> truncates. \<open>id_get\<close> and \<open>id_del\<close> are those calls on the partial map.
\<close>

definition id_trunc :: "int \<Rightarrow> nat" where
  "id_trunc i = nat (i mod 65536)"

definition id_get :: "(nat \<rightharpoonup> 'a) \<Rightarrow> int \<Rightarrow> 'a option" where
  "id_get f i = f (id_trunc i)"

definition id_del :: "(nat \<rightharpoonup> 'a) \<Rightarrow> int \<Rightarrow> (nat \<rightharpoonup> 'a)" where
  "id_del f i = f(id_trunc i := None)"

lemma id_trunc_word: "id_trunc i = unat (word_of_int i :: uint16)"
  by (simp add: id_trunc_def unsigned_of_int take_bit_eq_mod)

lemma id_trunc_nat [simp]: "n < 65536 \<Longrightarrow> id_trunc (int n) = n"
  by (simp add: id_trunc_def nat_mod_distrib)

locale id_registry =
  fixes inv :: "'m \<Rightarrow> bool" and view :: "'m \<Rightarrow> nat \<Rightarrow> 'o option" and cap :: "'m \<Rightarrow> nat"
    and ins :: "'o \<Rightarrow> 'm \<Rightarrow> (nat \<times> 'm) option"
    and get :: "uint16 \<Rightarrow> 'm \<Rightarrow> 'o option \<times> 'm"
    and del :: "uint16 \<Rightarrow> 'm \<Rightarrow> 'm"
  assumes ins_fails: "inv m \<Longrightarrow> ins x m = None \<longleftrightarrow> id_alloc (cap m) (view m) = None"
    and ins_view: "inv m \<Longrightarrow> x \<notin> ran (view m) \<Longrightarrow> ins x m = Some (i, m') \<Longrightarrow>
      id_alloc (cap m) (view m) = Some i \<and> inv m' \<and> view m' = (view m)(i \<mapsto> x) \<and> cap m' = cap m"
    and get_view: "inv m \<Longrightarrow> get j m = (r, m') \<Longrightarrow>
      r = view m (unat j) \<and> inv m' \<and> view m' = view m \<and> cap m' = cap m"
    and del_view: "inv m \<Longrightarrow>
      inv (del j m) \<and> view (del j m) = (view m)(unat j := None) \<and> cap (del j m) = cap m"
    and view_bound: "inv m \<Longrightarrow> cap m \<le> i \<Longrightarrow> view m i = None"
    and cap_bound: "inv m \<Longrightarrow> cap m < 65536"
begin

lemma ins_succeeds:
  assumes "inv m" and "card (dom (view m)) < cap m" and "x \<notin> ran (view m)"
  obtains i m' where "ins x m = Some (i, m')" and "i < cap m" and "view m i = None"
    and "inv m'" and "view m' = (view m)(i \<mapsto> x)" and "cap m' = cap m"
proof -
  have "ins x m \<noteq> None"
  proof
    assume "ins x m = None"
    then have "{0..<cap m} \<subseteq> dom (view m)"
      using ins_fails[OF assms(1)] by (auto simp: id_alloc_None)
    moreover have "dom (view m) \<subseteq> {0..<cap m}"
      using view_bound[OF assms(1)] by (force simp: dom_def not_less[symmetric])
    ultimately have "dom (view m) = {0..<cap m}" by (rule subset_antisym[rotated])
    then show False using assms(2) by simp
  qed
  then show thesis using that ins_view[OF assms(1,3)] by (auto simp: id_alloc_Some)
qed

lemma ins_get_del:
  assumes "inv m" and "x \<notin> ran (view m)" and "ins x m = Some (i, m')"
  shows "fst (get (word_of_nat i) m') = Some x"
    and "k \<noteq> i \<Longrightarrow> k < 65536 \<Longrightarrow> fst (get (word_of_nat k) m') = view m k"
    and "view (del (word_of_nat i) m') = view m"
    and "fst (get (word_of_nat i) (del (word_of_nat i) m')) = None"
proof -
  note v = ins_view[OF assms]
  then have i: "i < cap m" "view m i = None" by (auto simp: id_alloc_Some)
  have w: "unat (word_of_nat k :: uint16) = k" if "k < 65536" for k
    using that by (simp add: unsigned_of_nat take_bit_nat_eq_self_iff)
  have wi: "unat (word_of_nat i :: uint16) = i" using w i cap_bound[OF assms(1)] by auto
  have g: "fst (get j n) = view n (unat j)" if "inv n" for j n
    using get_view[OF that, of j] by (cases "get j n") auto
  show "fst (get (word_of_nat i) m') = Some x" using g v wi by simp
  show "fst (get (word_of_nat k) m') = view m k" if "k \<noteq> i" "k < 65536"
    using g v w[OF that(2)] that(1) by simp
  show "view (del (word_of_nat i) m') = view m"
    using del_view[of m' "word_of_nat i"] v wi i by auto
  show "fst (get (word_of_nat i) (del (word_of_nat i) m')) = None"
    using del_view[of m' "word_of_nat i"] v wi g by auto
qed

end

interpretation idm: id_registry id_inv id_lookup id_max IdInsertObj IdGetObj IdRemoveObj
proof
  fix m :: "'o id_manager" and x i m'
  assume "id_inv m"
  then show "(IdInsertObj x m = None) = (id_alloc (id_max m) (id_lookup m) = None)"
    by (simp add: IdInsertObj_full id_alloc_None)
  show "id_max m < 65536" using \<open>id_inv m\<close> by (rule id_inv_D)
  assume "x \<notin> ran (id_lookup m)" and "IdInsertObj x m = Some (i, m')"
  then show "id_alloc (id_max m) (id_lookup m) = Some i \<and> id_inv m' \<and>
      id_lookup m' = (id_lookup m)(i \<mapsto> x) \<and> id_max m' = id_max m"
    using IdInsertObj_refines[of m x i m'] \<open>id_inv m\<close> by (simp add: id_alloc_Some ran_id_lookup)
qed (use IdGetObj_refines IdRemoveObj_refines id_lookup_bound in \<open>blast+\<close>)

subsection \<open>Properties\<close>

text \<open>C28: Inserting an object that is not registered yet gives it the lowest identifier below
  id_max that no object holds, and fails exactly when there is none; afterwards the lookup of that
  identifier finds the object, every other lookup is unchanged, and removing the identifier gives
  back the original mapping.\<close>

theorem IdInsertObj_correct:
  assumes "id_inv m" and "ob \<notin> ran (id_lookup m)"
  shows "case IdInsertObj ob m of
      None \<Rightarrow> \<forall>i < id_max m. id_lookup m i \<noteq> None
    | Some (i, m') \<Rightarrow> i < id_max m \<and> id_lookup m i = None \<and> (\<forall>k < i. id_lookup m k \<noteq> None) \<and>
        id_inv m' \<and> fst (IdGetObj (word_of_nat i) m') = Some ob \<and>
        (\<forall>k. k \<noteq> i \<and> k < 65536 \<longrightarrow> fst (IdGetObj (word_of_nat k) m') = id_lookup m k) \<and>
        id_lookup (IdRemoveObj (word_of_nat i) m') = id_lookup m"
proof (cases "IdInsertObj ob m")
  case None
  then show ?thesis using idm.ins_fails[OF assms(1)] by (simp add: id_alloc_None)
next
  case (Some r)
  obtain i m' where r: "r = (i, m')" by (cases r)
  then show ?thesis
    using Some idm.ins_view[OF assms, of i m'] idm.ins_get_del[OF assms, of i m']
    by (simp add: id_alloc_Some)
qed

theorem IdInsertObj_correct_witness:
  "\<exists>m. IdInsertObj (5 :: nat) (DECLARE_ID_MANAGER 128 16 (\<lambda>_. 0)) = Some (0, m) \<and>
     fst (IdGetObj 0 m) = Some 5 \<and> id_inv m"
proof -
  let ?m = "DECLARE_ID_MANAGER 128 16 (\<lambda>_. 0) :: nat id_manager"
  have inv: "id_inv ?m" and v: "id_lookup ?m = (\<lambda>_. None)"
    using DECLARE_ID_MANAGER_inv[of 128 16 "\<lambda>_. 0"] by auto
  have mx: "id_max ?m = 128" by (simp add: DECLARE_ID_MANAGER_def)
  have "id_alloc 128 (\<lambda>_. None :: nat option) \<noteq> None" unfolding id_alloc_None by force
  then obtain i m' where i: "IdInsertObj 5 ?m = Some (i, m')"
    using idm.ins_fails[OF inv, of 5] v mx by fastforce
  then show ?thesis
    using IdInsertObj_correct[of ?m 5] inv v by (cases i) auto
qed

end
