(* ===== verification/Task.thy ===== *)
theory Task
  imports DoubleLink IdManager
begin

text \<open>
  Task descriptors and the kernel state (\<^verbatim>\<open>kernel/include/xs_ktask.h\<close>, \<^verbatim>\<open>xs_assign.h\<close>), the task
  states of \<^verbatim>\<open>ktask_stat.c\<close>, the critical area of \<^verbatim>\<open>CriticalArea.c\<close> and the list of each
  \<^verbatim>\<open>sched_link\<close> node.

  A task is named by the address of its descriptor. A field access through a pointer to a
  descriptor that does not exist, and a failing \<^verbatim>\<open>CHECK\<close> or \<^verbatim>\<open>NULL_PARAM_CHECK\<close> (which spins for
  ever), is the outcome \<open>None\<close>. The compile-time configuration is a field that no operation changes.
\<close>

type_synonym tid = nat

datatype sched_policy = SCHED_POLICY_FIFO | SCHED_POLICY_RR | SCHED_POLICY_RR_REMAINSLICE

record kconfig =
  KTASK_PRIORITY_MAX :: nat
  SCHED_POLICY :: sched_policy
  TICK_PER_SECOND :: uint32
  ID_NUM_MAX :: nat

datatype lhead =
    ReadyVector nat | KTaskZombie | SemPend nat | MutexPend nat | EventPend nat
  | MqSendPend nat | MqRecvPend nat | GmWait nat

record Delay =
  delay_ticks :: uint32
  delay_status :: bool

text \<open>
  \<open>sched_link\<close> records which list the \<^verbatim>\<open>sched_link\<close> node of the task is linked in, \<open>None\<close> when it
  points to itself; the order of the nodes is in \<open>lists\<close> below.
\<close>

record TaskDescriptor =
  stat :: uint8
  advance_cnt :: uint8
  cur_prio :: uint8
  origin_timeslice :: x_ubase
  rest_timeslice :: x_ubase
  sched_link :: "lhead option"
  bitmap_offset :: uint8
  bitmap_row :: uint8
  bitmap_column :: uint32
  delay :: "Delay option"
  task_name :: string
  func_entry :: nat
  func_param :: nat
  origin_prio :: uint8
  stack_depth :: uint32
  stack_start :: nat
  event_id_trigger :: uint32
  event_mode :: uint32
  exstatus :: x_err_t
  task_id :: nat

record OsAssignReadyVector =
  priority_ready_group :: uint32
  ready_vector :: "uint8 list"
  highest_prio :: nat

record kernel =
  cfg :: kconfig
  tasks :: "tid \<rightharpoonup> TaskDescriptor"
  lists :: "(lhead, tid) lstore"
  os_assign_read_vector :: OsAssignReadyVector
  os_running_task :: "tid option"
  current_priority :: uint8
  KTaskOsAssignLockNest :: nat
  isr_count :: nat
  isr_switch_trigger_flag :: bool
  heartbeat_ticks :: x_ticks_t
  xiaoshan_delay_head :: "tid list"
  xiaoshan_task_head :: "tid list"
  k_task_id_manager :: "nat \<rightharpoonup> tid"
  zombie_recycle :: int
  global_exstatus :: x_err_t

subsection \<open>Task states\<close>

definition KTASK_INIT :: uint8 where "KTASK_INIT = 0"
definition KTASK_READY :: uint8 where "KTASK_READY = 1"
definition KTASK_SUSPEND :: uint8 where "KTASK_SUSPEND = 2"
definition KTASK_RUNNING :: uint8 where "KTASK_RUNNING = 3"
definition KTASK_CLOSE :: uint8 where "KTASK_CLOSE = 4"
definition KTASK_STAT_MASK :: uint8 where "KTASK_STAT_MASK = 7"

lemmas stat_defs = KTASK_INIT_def KTASK_READY_def KTASK_SUSPEND_def KTASK_RUNNING_def KTASK_CLOSE_def
  KTASK_STAT_MASK_def

definition upd_task :: "tid \<Rightarrow> (TaskDescriptor \<Rightarrow> TaskDescriptor) \<Rightarrow> 'a kernel_scheme \<Rightarrow> 'a kernel_scheme option" where
  "upd_task t f s = (case tasks s t of None \<Rightarrow> None | Some d \<Rightarrow> Some (s\<lparr>tasks := (tasks s)(t \<mapsto> f d)\<rparr>))"

definition KTaskStateSet :: "tid \<Rightarrow> uint8 \<Rightarrow> 'a kernel_scheme \<Rightarrow> 'a kernel_scheme option" where
  "KTaskStateSet t st s = upd_task t (\<lambda>d. d\<lparr>stat := st OR (stat d AND NOT KTASK_STAT_MASK)\<rparr>) s"

definition KTaskStatSetAsInit :: "tid \<Rightarrow> 'a kernel_scheme \<Rightarrow> 'a kernel_scheme option" where
  "KTaskStatSetAsInit t = KTaskStateSet t KTASK_INIT"

definition KTaskStatSetAsReady :: "tid \<Rightarrow> 'a kernel_scheme \<Rightarrow> 'a kernel_scheme option" where
  "KTaskStatSetAsReady t = KTaskStateSet t KTASK_READY"

definition KTaskStatSetAsSuspend :: "tid \<Rightarrow> 'a kernel_scheme \<Rightarrow> 'a kernel_scheme option" where
  "KTaskStatSetAsSuspend t = KTaskStateSet t KTASK_SUSPEND"

definition KTaskStatSetAsRunning :: "tid \<Rightarrow> 'a kernel_scheme \<Rightarrow> 'a kernel_scheme option" where
  "KTaskStatSetAsRunning t = KTaskStateSet t KTASK_RUNNING"

definition KTaskStatSetAsClose :: "tid \<Rightarrow> 'a kernel_scheme \<Rightarrow> 'a kernel_scheme option" where
  "KTaskStatSetAsClose t = KTaskStateSet t KTASK_CLOSE"

definition KTaskStatGet :: "TaskDescriptor \<Rightarrow> uint8" where
  "KTaskStatGet d = stat d AND KTASK_STAT_MASK"

definition JudgeKTaskStatIsInit :: "TaskDescriptor \<Rightarrow> bool" where
  "JudgeKTaskStatIsInit d \<longleftrightarrow> stat d AND KTASK_STAT_MASK = KTASK_INIT"

definition JudgeKTaskStatIsReady :: "TaskDescriptor \<Rightarrow> bool" where
  "JudgeKTaskStatIsReady d \<longleftrightarrow> stat d AND KTASK_STAT_MASK = KTASK_READY"

definition JudgeKTaskStatIsSuspend :: "TaskDescriptor \<Rightarrow> bool" where
  "JudgeKTaskStatIsSuspend d \<longleftrightarrow> stat d AND KTASK_STAT_MASK = KTASK_SUSPEND"

definition JudgeKTaskStatIsRunning :: "TaskDescriptor \<Rightarrow> bool" where
  "JudgeKTaskStatIsRunning d \<longleftrightarrow> stat d AND KTASK_STAT_MASK = KTASK_RUNNING"

definition JudgeKTaskStatIsClose :: "TaskDescriptor \<Rightarrow> bool" where
  "JudgeKTaskStatIsClose d \<longleftrightarrow> stat d AND KTASK_STAT_MASK = KTASK_CLOSE"

subsection \<open>The critical area\<close>

definition GetOsAssignLockLevel :: "'a kernel_scheme \<Rightarrow> nat" where
  "GetOsAssignLockLevel s = KTaskOsAssignLockNest s"

definition ResetCriticalAreaLock :: "'a kernel_scheme \<Rightarrow> 'a kernel_scheme" where
  "ResetCriticalAreaLock s = s\<lparr>KTaskOsAssignLockNest := 0\<rparr>"

definition CriticalAreaLock :: "'a kernel_scheme \<Rightarrow> 'a kernel_scheme" where
  "CriticalAreaLock s = s\<lparr>KTaskOsAssignLockNest := KTaskOsAssignLockNest s + 1\<rparr>"

definition CriticalAreaUnLock :: "'a kernel_scheme \<Rightarrow> 'a kernel_scheme" where
  "CriticalAreaUnLock s =
     (if KTaskOsAssignLockNest s \<ge> 1 then s\<lparr>KTaskOsAssignLockNest := KTaskOsAssignLockNest s - 1\<rparr> else s)"

subsection \<open>The list of a task's sched_link node\<close>

text \<open>
  The list operations applied to \<^verbatim>\<open>task->sched_link\<close>. Linking a node that is still in a list would
  break that list, so it has no result here.
\<close>

definition sched_link_rm :: "tid \<Rightarrow> 'a kernel_scheme \<Rightarrow> 'a kernel_scheme option" where
  "sched_link_rm t s = do { d \<leftarrow> tasks s t;
     case sched_link d of None \<Rightarrow> Some s
     | Some l \<Rightarrow> Some (s\<lparr>lists := (lists s)(l := removeAll t (lists s l)),
                        tasks := (tasks s)(t \<mapsto> d\<lparr>sched_link := None\<rparr>)\<rparr>) }"

definition sched_link_insert :: "lhead \<Rightarrow> (tid list \<Rightarrow> tid list) \<Rightarrow> tid \<Rightarrow> 'a kernel_scheme \<Rightarrow> 'a kernel_scheme option" where
  "sched_link_insert l ins t s = do { d \<leftarrow> tasks s t;
     if sched_link d \<noteq> None then None
     else Some (s\<lparr>lists := (lists s)(l := ins (lists s l)),
                  tasks := (tasks s)(t \<mapsto> d\<lparr>sched_link := Some l\<rparr>)\<rparr>) }"

definition sched_link_front :: "lhead \<Rightarrow> tid \<Rightarrow> 'a kernel_scheme \<Rightarrow> 'a kernel_scheme option" where
  "sched_link_front l t = sched_link_insert l (\<lambda>xs. t # xs) t"

definition sched_link_back :: "lhead \<Rightarrow> tid \<Rightarrow> 'a kernel_scheme \<Rightarrow> 'a kernel_scheme option" where
  "sched_link_back l t = sched_link_insert l (\<lambda>xs. xs @ [t]) t"

definition sched_link_when :: "lhead \<Rightarrow> (TaskDescriptor \<Rightarrow> bool) \<Rightarrow> tid \<Rightarrow> 'a kernel_scheme \<Rightarrow> 'a kernel_scheme option" where
  "sched_link_when l P t s =
     sched_link_insert l (insert_when (\<lambda>x. case tasks s x of None \<Rightarrow> False | Some d \<Rightarrow> P d) t) t s"

definition GetKTaskDescriptor :: "'a kernel_scheme \<Rightarrow> tid option" where
  "GetKTaskDescriptor s = os_running_task s"

subsection \<open>Lists and nodes agree\<close>

definition links_inv :: "'a kernel_scheme \<Rightarrow> bool" where
  "links_inv s \<longleftrightarrow> (\<forall>l. distinct (lists s l) \<and>
     (\<forall>t. t \<in> set (lists s l) \<longleftrightarrow> (\<exists>d. tasks s t = Some d \<and> sched_link d = Some l)))"

lemma links_invD:
  assumes "links_inv s"
  shows "distinct (lists s l)" and "t \<in> set (lists s l) \<longleftrightarrow> (\<exists>d. tasks s t = Some d \<and> sched_link d = Some l)"
  using assms by (auto simp: links_inv_def)

lemma links_inv_cong:
  "lists s' = lists s \<Longrightarrow> tasks s' = tasks s \<Longrightarrow> links_inv s' = links_inv s"
  by (simp add: links_inv_def)

lemma links_inv_upd_task:
  assumes "links_inv s" and "upd_task t f s = Some s'" and "\<And>d. sched_link (f d) = sched_link d"
  shows "links_inv s'"
  using assms by (auto simp: links_inv_def upd_task_def split: option.splits if_splits)

lemma sched_link_rm_inv:
  assumes "links_inv s" and "sched_link_rm t s = Some s'"
  shows "links_inv s'"
proof -
  obtain d where d: "tasks s t = Some d"
    using assms(2) by (auto simp: sched_link_rm_def bind_eq_Some_conv)
  show ?thesis
  proof (cases "sched_link d")
    case None
    then show ?thesis using assms d by (simp add: sched_link_rm_def)
  next
    case (Some l)
    then have s': "s' = s\<lparr>lists := (lists s)(l := removeAll t (lists s l)),
        tasks := (tasks s)(t \<mapsto> d\<lparr>sched_link := None\<rparr>)\<rparr>"
      using assms d by (simp add: sched_link_rm_def)
    show ?thesis
      using links_invD[OF assms(1)] Some d by (auto simp: links_inv_def s' distinct_removeAll)
  qed
qed

lemma sched_link_rm_lists:
  assumes "links_inv s" and "sched_link_rm t s = Some s'"
  shows "lists s' = ls_rm t (lists s)"
proof -
  obtain d where d: "tasks s t = Some d"
    using assms(2) by (auto simp: sched_link_rm_def bind_eq_Some_conv)
  have n: "t \<notin> set (lists s l)" if "sched_link d \<noteq> Some l" for l
    using links_invD(2)[OF assms(1), of t l] d that by simp
  show ?thesis
    using assms(2) d n by (cases "sched_link d") (auto simp: sched_link_rm_def ls_rm_def fun_eq_iff)
qed

lemma sched_link_insert_inv:
  assumes "links_inv s" and "sched_link_insert l ins t s = Some s'"
    and "mset (ins (lists s l)) = add_mset t (mset (lists s l))"
  shows "links_inv s'"
proof -
  obtain d where d: "tasks s t = Some d" "sched_link d = None"
    and s': "s' = s\<lparr>lists := (lists s)(l := ins (lists s l)), tasks := (tasks s)(t \<mapsto> d\<lparr>sched_link := Some l\<rparr>)\<rparr>"
    using assms(2) by (auto simp: sched_link_insert_def bind_eq_Some_conv split: if_splits)
  have t: "t \<notin> set (lists s k)" for k using links_invD(2)[OF assms(1), of t k] d by simp
  have set: "set (ins (lists s l)) = insert t (set (lists s l))"
    using arg_cong[OF assms(3), of set_mset] by simp
  have "distinct (ins (lists s l)) = distinct (t # lists s l)"
    using mset_eq_imp_distinct_iff[of "ins (lists s l)" "t # lists s l"] assms(3) by simp
  then have dist: "distinct (ins (lists s l))" using t links_invD(1)[OF assms(1)] by simp
  show ?thesis using links_invD[OF assms(1)] t d dist set by (auto simp: links_inv_def s')
qed

lemma sched_link_unlinked:
  assumes "links_inv s" and "tasks s t = Some d"
  shows "sched_link d = None \<longleftrightarrow> ls_unlinked t (lists s)"
  using links_invD(2)[OF assms(1), of t] assms(2) by (cases "sched_link d") (auto simp: ls_unlinked_def)

subsection \<open>Changing the state of a task\<close>

definition set_stat :: "uint8 \<Rightarrow> TaskDescriptor \<Rightarrow> TaskDescriptor" where
  "set_stat st d = d\<lparr>stat := st OR (stat d AND NOT KTASK_STAT_MASK)\<rparr>"

lemma stat_merge: "(st OR (x AND NOT m)) AND m = st AND (m :: uint8)"
  by (rule bit_word_eqI) (auto simp: bit_and_iff bit_or_iff bit_not_iff)

lemma KTaskStatGet_set_stat: "KTaskStatGet (set_stat st d) = st AND KTASK_STAT_MASK"
  by (simp add: KTaskStatGet_def set_stat_def stat_merge)

lemma Judge_StatGet:
  "JudgeKTaskStatIsInit d \<longleftrightarrow> KTaskStatGet d = KTASK_INIT"
  "JudgeKTaskStatIsReady d \<longleftrightarrow> KTaskStatGet d = KTASK_READY"
  "JudgeKTaskStatIsSuspend d \<longleftrightarrow> KTaskStatGet d = KTASK_SUSPEND"
  "JudgeKTaskStatIsRunning d \<longleftrightarrow> KTaskStatGet d = KTASK_RUNNING"
  "JudgeKTaskStatIsClose d \<longleftrightarrow> KTaskStatGet d = KTASK_CLOSE"
  by (simp_all add: KTaskStatGet_def JudgeKTaskStatIsInit_def JudgeKTaskStatIsReady_def
      JudgeKTaskStatIsSuspend_def JudgeKTaskStatIsRunning_def JudgeKTaskStatIsClose_def)

lemma stat_consts [simp]:
  "KTASK_INIT AND KTASK_STAT_MASK = KTASK_INIT" "KTASK_READY AND KTASK_STAT_MASK = KTASK_READY"
  "KTASK_SUSPEND AND KTASK_STAT_MASK = KTASK_SUSPEND" "KTASK_RUNNING AND KTASK_STAT_MASK = KTASK_RUNNING"
  "KTASK_CLOSE AND KTASK_STAT_MASK = KTASK_CLOSE"
  by (simp_all add: stat_defs)

lemma stat_distinct [simp]:
  "KTASK_INIT \<noteq> KTASK_READY" "KTASK_INIT \<noteq> KTASK_SUSPEND" "KTASK_INIT \<noteq> KTASK_RUNNING" "KTASK_INIT \<noteq> KTASK_CLOSE"
  "KTASK_READY \<noteq> KTASK_INIT" "KTASK_READY \<noteq> KTASK_SUSPEND" "KTASK_READY \<noteq> KTASK_RUNNING" "KTASK_READY \<noteq> KTASK_CLOSE"
  "KTASK_SUSPEND \<noteq> KTASK_INIT" "KTASK_SUSPEND \<noteq> KTASK_READY" "KTASK_SUSPEND \<noteq> KTASK_RUNNING" "KTASK_SUSPEND \<noteq> KTASK_CLOSE"
  "KTASK_RUNNING \<noteq> KTASK_INIT" "KTASK_RUNNING \<noteq> KTASK_READY" "KTASK_RUNNING \<noteq> KTASK_SUSPEND" "KTASK_RUNNING \<noteq> KTASK_CLOSE"
  "KTASK_CLOSE \<noteq> KTASK_INIT" "KTASK_CLOSE \<noteq> KTASK_READY" "KTASK_CLOSE \<noteq> KTASK_SUSPEND" "KTASK_CLOSE \<noteq> KTASK_RUNNING"
  by (simp_all add: stat_defs)

lemma set_stat_fields [simp]:
  "cur_prio (set_stat st d) = cur_prio d" "sched_link (set_stat st d) = sched_link d"
  "bitmap_offset (set_stat st d) = bitmap_offset d" "bitmap_row (set_stat st d) = bitmap_row d"
  "bitmap_column (set_stat st d) = bitmap_column d" "delay (set_stat st d) = delay d"
  "exstatus (set_stat st d) = exstatus d" "advance_cnt (set_stat st d) = advance_cnt d"
  "rest_timeslice (set_stat st d) = rest_timeslice d" "task_id (set_stat st d) = task_id d"
  "origin_prio (set_stat st d) = origin_prio d" "task_name (set_stat st d) = task_name d"
  "event_id_trigger (set_stat st d) = event_id_trigger d" "event_mode (set_stat st d) = event_mode d"
  by (simp_all add: set_stat_def)

lemma KTaskStatGet_fields [simp]:
  "KTaskStatGet (d\<lparr>sched_link := x\<rparr>) = KTaskStatGet d"
  "KTaskStatGet (d\<lparr>cur_prio := y\<rparr>) = KTaskStatGet d"
  "KTaskStatGet (d\<lparr>delay := z\<rparr>) = KTaskStatGet d"
  "KTaskStatGet (d\<lparr>exstatus := e\<rparr>) = KTaskStatGet d"
  "KTaskStatGet (d\<lparr>bitmap_offset := bo\<rparr>) = KTaskStatGet d"
  "KTaskStatGet (d\<lparr>bitmap_row := br\<rparr>) = KTaskStatGet d"
  "KTaskStatGet (d\<lparr>bitmap_column := bc\<rparr>) = KTaskStatGet d"
  "KTaskStatGet (d\<lparr>rest_timeslice := rt\<rparr>) = KTaskStatGet d"
  "KTaskStatGet (d\<lparr>advance_cnt := ac\<rparr>) = KTaskStatGet d"
  "KTaskStatGet (d\<lparr>event_id_trigger := et\<rparr>) = KTaskStatGet d"
  "KTaskStatGet (d\<lparr>event_mode := em\<rparr>) = KTaskStatGet d"
  by (simp_all add: KTaskStatGet_def)

lemma KTaskStateSet_eq:
  "tasks s t = Some d \<Longrightarrow> KTaskStateSet t st s = Some (s\<lparr>tasks := (tasks s)(t \<mapsto> set_stat st d)\<rparr>)"
  by (simp add: KTaskStateSet_def upd_task_def set_stat_def)

lemma CriticalArea_simps [simp]:
  "CriticalAreaUnLock (CriticalAreaLock s) = s"
  "GetOsAssignLockLevel (CriticalAreaLock s) = Suc (GetOsAssignLockLevel s)"
  by (simp_all add: CriticalAreaUnLock_def CriticalAreaLock_def GetOsAssignLockLevel_def)

end
