(* ===== verification/Bitmap.thy ===== *)
theory Bitmap
  imports Prelude
begin

text \<open>
  The priority bitmap of \<^verbatim>\<open>kernel/thread/bitmap.c\<close>: a table of leading zero counts of a byte
  and the routine that finds the highest set bit of a 32-bit word with it.
\<close>

definition LeaderZeroCount :: "nat list" where
  "LeaderZeroCount = [8, 7] @ replicate 2 6 @ replicate 4 5 @ replicate 8 4 @ replicate 16 3
     @ replicate 32 2 @ replicate 64 1 @ replicate 128 0"

definition PrioCaculate :: "uint32 \<Rightarrow> nat" where
  "PrioCaculate bitmap =
     (if bitmap AND 0xff000000 \<noteq> 0 then 31 - LeaderZeroCount ! unat (drop_bit 24 (bitmap AND 0xff000000))
      else if bitmap AND 0xff0000 \<noteq> 0 then 23 - LeaderZeroCount ! unat (drop_bit 16 (bitmap AND 0xff0000))
      else if bitmap AND 0xff00 \<noteq> 0 then 15 - LeaderZeroCount ! unat (drop_bit 8 (bitmap AND 0xff00))
      else if bitmap AND 0xff \<noteq> 0 then 7 - LeaderZeroCount ! unat (bitmap AND 0xff)
      else 0)"

definition lzc :: "nat \<Rightarrow> nat" where
  "lzc v = (if v < 1 then 8 else if v < 2 then 7 else if v < 4 then 6 else if v < 8 then 5
      else if v < 16 then 4 else if v < 32 then 3 else if v < 64 then 2 else if v < 128 then 1 else 0)"

lemma LeaderZeroCount_table: "LeaderZeroCount = map lzc [0..<256]"
  by code_simp

lemma LeaderZeroCount_nth: "v < 256 \<Longrightarrow> LeaderZeroCount ! v = lzc v"
  unfolding LeaderZeroCount_table by (subst nth_map) simp_all

lemma LeaderZeroCount_bounds:
  assumes "0 < v" and "v < 256"
  shows "LeaderZeroCount ! v \<le> 7" and "2 ^ (7 - LeaderZeroCount ! v) \<le> v"
    and "v < 2 ^ Suc (7 - LeaderZeroCount ! v)"
  using assms by (auto simp: LeaderZeroCount_nth lzc_def)

text \<open>A word between two neighbouring powers of two has its highest bit there.\<close>

definition highest_bit :: "uint32 \<Rightarrow> nat \<Rightarrow> bool" where
  "highest_bit b p \<longleftrightarrow> bit b p \<and> (\<forall>i > p. \<not> bit b i)"

lemma bit_unat: "bit (w :: uint32) i \<longleftrightarrow> odd (unat w div 2 ^ i)"
  by (metis bit_iff_odd bit_unsigned_iff possible_bit_nat)

lemma highest_bit_unat:
  assumes "2 ^ p \<le> unat b" and "unat b < 2 ^ Suc p"
  shows "highest_bit b p"
proof -
  have "unat b div 2 ^ p = 1" using assms by (simp add: div_nat_eqI)
  then have "bit b p" by (simp add: bit_unat)
  moreover have "\<not> bit b i" if "p < i" for i
  proof -
    have "(2 :: nat) ^ Suc p \<le> 2 ^ i" using that by (intro power_increasing) auto
    then show ?thesis using assms(2) by (simp add: bit_unat)
  qed
  ultimately show ?thesis by (simp add: highest_bit_def)
qed

lemma byte_mask:
  assumes "k + 8 \<le> 32"
  shows "drop_bit k (b AND push_bit k (mask 8)) = take_bit 8 (drop_bit k (b :: uint32))"
    and "b AND push_bit k (mask 8) = 0 \<longleftrightarrow> take_bit 8 (drop_bit k b) = 0"
proof -
  show 1: "drop_bit k (b AND push_bit k (mask 8)) = take_bit 8 (drop_bit k b)"
    using assms by (intro bit_eqI) (auto simp: bit_simps)
  have "b AND push_bit k (mask 8) = push_bit k (take_bit 8 (drop_bit k b))"
    using assms by (intro bit_eqI) (auto simp: bit_simps)
  then show "b AND push_bit k (mask 8) = 0 \<longleftrightarrow> take_bit 8 (drop_bit k b) = 0"
    using 1 by (metis drop_bit_of_0 push_bit_of_0)
qed

lemma unat_byte: "unat (take_bit 8 (drop_bit k (b :: uint32))) = unat b div 2 ^ k mod 256"
proof -
  have "unat b < 2 ^ 32" using unsigned_less[of b, where 'a = nat] by simp
  then have "drop_bit k (take_bit 32 (unat b)) = unat b div 2 ^ k"
    by (simp add: drop_bit_eq_div take_bit_eq_mod)
  then have "unat (drop_bit k b) = unat b div 2 ^ k" by (simp add: unsigned_drop_bit_eq)
  then show ?thesis unfolding unsigned_take_bit_eq by (simp add: take_bit_eq_mod)
qed

lemma byte_highest:
  assumes v: "v = unat b div 2 ^ k mod 256" and "v \<noteq> 0" and small: "unat (b :: uint32) < 2 ^ (k + 8)"
  shows "highest_bit b (k + 7 - LeaderZeroCount ! v)"
proof -
  have "unat b div 2 ^ k < 256"
    using small by (simp add: less_mult_imp_div_less power_add mult.commute)
  then have v': "v = unat b div 2 ^ k" using v by simp
  have "v < 256" using v by simp
  with \<open>v \<noteq> 0\<close> have z: "LeaderZeroCount ! v \<le> 7" "2 ^ (7 - LeaderZeroCount ! v) \<le> v"
    "v < 2 ^ Suc (7 - LeaderZeroCount ! v)"
    using LeaderZeroCount_bounds[of v] by auto
  have e: "k + 7 - LeaderZeroCount ! v = k + (7 - LeaderZeroCount ! v)" using z(1) by simp
  have "2 ^ (7 - LeaderZeroCount ! v) * 2 ^ k \<le> unat b"
    using order_trans[OF mult_le_mono1[OF z(2), of "2 ^ k"]] v' div_times_less_eq_dividend by blast
  moreover have "unat b < 2 ^ Suc (7 - LeaderZeroCount ! v) * 2 ^ k"
    using z(3) unfolding v' by (subst (asm) div_less_iff_less_mult) simp_all
  ultimately show ?thesis unfolding e by (intro highest_bit_unat) (auto simp: power_add mult.commute)
qed

lemma PrioCaculate_byte:
  "PrioCaculate b = (let v = (\<lambda>k. unat b div 2 ^ k mod 256) in
     if v 24 \<noteq> 0 then 31 - LeaderZeroCount ! v 24 else if v 16 \<noteq> 0 then 23 - LeaderZeroCount ! v 16
     else if v 8 \<noteq> 0 then 15 - LeaderZeroCount ! v 8 else if v 0 \<noteq> 0 then 7 - LeaderZeroCount ! v 0 else 0)"
proof -
  have m: "(0xff000000 :: uint32) = push_bit 24 (mask 8)" "(0xff0000 :: uint32) = push_bit 16 (mask 8)"
    "(0xff00 :: uint32) = push_bit 8 (mask 8)" "(0xff :: uint32) = push_bit 0 (mask 8)"
    by (simp_all add: mask_eq_exp_minus_1)
  have z: "take_bit 8 (drop_bit k b) = 0 \<longleftrightarrow> unat b div 2 ^ k mod 256 = 0" for k
    unfolding unat_byte[symmetric] by (simp only: unsigned_eq_0_iff)
  have e: "drop_bit 24 (b AND 0xff000000) = take_bit 8 (drop_bit 24 b)"
    "drop_bit 16 (b AND 0xff0000) = take_bit 8 (drop_bit 16 b)"
    "drop_bit 8 (b AND 0xff00) = take_bit 8 (drop_bit 8 b)" "b AND 0xff = take_bit 8 (drop_bit 0 b)"
    using byte_mask(1)[of 24 b] byte_mask(1)[of 16 b] byte_mask(1)[of 8 b] byte_mask(1)[of 0 b]
    unfolding m by simp_all
  have c: "b AND 0xff000000 = 0 \<longleftrightarrow> take_bit 8 (drop_bit 24 b) = 0"
    "b AND 0xff0000 = 0 \<longleftrightarrow> take_bit 8 (drop_bit 16 b) = 0"
    "b AND 0xff00 = 0 \<longleftrightarrow> take_bit 8 (drop_bit 8 b) = 0"
    unfolding m by (rule byte_mask; simp)+
  show ?thesis unfolding PrioCaculate_def Let_def e c unat_byte z ..
qed


lemma PrioCaculate_highest:
  assumes "b \<noteq> 0"
  shows "highest_bit b (PrioCaculate b)"
proof -
  let ?v = "\<lambda>k. unat b div 2 ^ k mod 256"
  have lt: "unat b < 2 ^ 32" using unsigned_less[of b, where 'a = nat] by simp
  have 0: "unat b \<noteq> 0" using assms by (simp add: unsigned_eq_0_iff)
  have s24: "unat b < 2 ^ 24" if "?v 24 = 0" using that lt by (simp add: div_eq_0_iff)
  have s16: "unat b < 2 ^ 16" if "?v 24 = 0" "?v 16 = 0"
    using that(2) s24[OF that(1)] by (simp add: div_eq_0_iff)
  have s8: "unat b < 2 ^ 8" if "?v 24 = 0" "?v 16 = 0" "?v 8 = 0"
    using that(3) s16[OF that(1,2)] by (simp add: div_eq_0_iff)
  consider "?v 24 \<noteq> 0" | "?v 24 = 0" "?v 16 \<noteq> 0" | "?v 24 = 0" "?v 16 = 0" "?v 8 \<noteq> 0"
    | "?v 24 = 0" "?v 16 = 0" "?v 8 = 0" by blast
  then show ?thesis
  proof cases
    case 1
    then show ?thesis using byte_highest[OF refl, of b 24] lt by (simp add: PrioCaculate_byte Let_def)
  next
    case 2
    then show ?thesis using byte_highest[OF refl, of b 16] s24 by (simp add: PrioCaculate_byte Let_def)
  next
    case 3
    then show ?thesis using byte_highest[OF refl, of b 8] s16 by (simp add: PrioCaculate_byte Let_def)
  next
    case 4
    then have "?v 0 = unat b" using s8 by simp
    then show ?thesis using byte_highest[OF refl, of b 0] s8 4 0 by (simp add: PrioCaculate_byte Let_def)
  qed
qed

lemma PrioCaculate_zero: "PrioCaculate 0 = 0"
  by (simp add: PrioCaculate_def)

lemma highest_bit_unique: "highest_bit b p \<Longrightarrow> highest_bit b q \<Longrightarrow> p = q"
  unfolding highest_bit_def by (meson linorder_neqE_nat)

lemma PrioCaculate_eq: "highest_bit b p \<Longrightarrow> PrioCaculate b = p"
  by (metis PrioCaculate_highest highest_bit_def highest_bit_unique bit_0_eq bot_apply bot_bool_def)

lemma PrioCaculate_bound: "PrioCaculate b < 32"
proof (cases "b = 0")
  case False
  then have "bit b (PrioCaculate b)" using PrioCaculate_highest by (simp add: highest_bit_def)
  then show ?thesis using bit_imp_le_length[of b "PrioCaculate b"] by simp
qed (simp add: PrioCaculate_zero)

subsection \<open>Properties\<close>

text \<open>C29: The table-driven search of bitmap.c returns the position of the highest set bit of every
  non-zero 32-bit word.\<close>

theorem PrioCaculate_correct:
  assumes "b \<noteq> 0"
  shows "PrioCaculate b = p \<longleftrightarrow> bit b p \<and> (\<forall>i > p. \<not> bit b i)"
  unfolding highest_bit_def[symmetric]
  using PrioCaculate_highest[OF assms] PrioCaculate_eq[of b p] by blast

theorem PrioCaculate_correct_witness:
  "(0x00010300 :: uint32) \<noteq> 0 \<and> PrioCaculate 0x00010300 = 16"
proof -
  have "highest_bit 0x00010300 16" by (rule highest_bit_unat) (simp_all add: unat_numeral)
  then have "PrioCaculate 0x00010300 = 16"
    using PrioCaculate_correct[of "0x00010300" 16, folded highest_bit_def] by simp
  then show ?thesis by simp
qed

end
