(* ===== verification/Ready.thy ===== *)
theory Ready
  imports Task Bitmap
begin

text \<open>
  The ready vector: the bitmap of priorities with a ready task (one word for up to 32 priorities,
  a group word over 32 bytes for more), the scheduling policies \<^verbatim>\<open>assign_fifo.c\<close>,
  \<^verbatim>\<open>assign_roundrobin.c\<close> and \<^verbatim>\<open>assign_roundrobinremain.c\<close>, \<^verbatim>\<open>assignstat.c\<close>, and the insertion and
  removal of \<^verbatim>\<open>assign.c\<close>.
\<close>

subsection \<open>The bitmap of ready priorities\<close>

text \<open>
  The bitmap position of a priority as \<^verbatim>\<open>__BitmapSiteMask\<close> computes it, and the flag updates of
  \<^verbatim>\<open>KTaskInsertToReadyVector\<close> and \<^verbatim>\<open>KTaskOsAssignRemoveKTask\<close>. A shift of 32 or more is undefined in C.
\<close>

definition BitmapSiteMask :: "tid \<Rightarrow> 'a kernel_scheme \<Rightarrow> 'a kernel_scheme option" where
  "BitmapSiteMask t s = do { d \<leftarrow> tasks s t;
     let p = unat (cur_prio d);
     if KTASK_PRIORITY_MAX (cfg s) > 32 then
       upd_task t (\<lambda>d. d\<lparr>bitmap_offset := word_of_nat (p div 8), bitmap_column := push_bit (p div 8) 1,
                         bitmap_row := push_bit (unat (cur_prio d AND 7)) 1\<rparr>) s
     else if p \<ge> 32 then None
     else upd_task t (\<lambda>d. d\<lparr>bitmap_column := push_bit p 1\<rparr>) s }"

definition MERGE_READY :: "kconfig \<Rightarrow> TaskDescriptor \<Rightarrow> OsAssignReadyVector \<Rightarrow> OsAssignReadyVector" where
  "MERGE_READY c d rv =
     (let rv = (if KTASK_PRIORITY_MAX c > 32
                then (let k = unat (bitmap_offset d) in
                      rv\<lparr>ready_vector := (ready_vector rv)[k := ready_vector rv ! k OR bitmap_row d]\<rparr>)
                else rv)
      in rv\<lparr>priority_ready_group := priority_ready_group rv OR bitmap_column d\<rparr>)"

definition CLEAR_READY :: "kconfig \<Rightarrow> TaskDescriptor \<Rightarrow> OsAssignReadyVector \<Rightarrow> OsAssignReadyVector" where
  "CLEAR_READY c d rv =
     (if KTASK_PRIORITY_MAX c > 32
      then (let k = unat (bitmap_offset d);
                rv = rv\<lparr>ready_vector := (ready_vector rv)[k := ready_vector rv ! k AND NOT (bitmap_row d)]\<rparr>
            in if ready_vector rv ! k = 0
               then rv\<lparr>priority_ready_group := priority_ready_group rv AND NOT (bitmap_column d)\<rparr>
               else rv)
      else rv\<lparr>priority_ready_group := priority_ready_group rv AND NOT (bitmap_column d)\<rparr>)"

definition HIGHEST_READY :: "kconfig \<Rightarrow> OsAssignReadyVector \<Rightarrow> nat" where
  "HIGHEST_READY c rv =
     (if KTASK_PRIORITY_MAX c > 32
      then (let number = PrioCaculate (priority_ready_group rv)
            in number * 8 + PrioCaculate (ucast (ready_vector rv ! number)))
      else PrioCaculate (priority_ready_group rv))"

subsection \<open>Insertion and removal\<close>

definition JudgeAssignReadyBitmapIsEmpty :: "OsAssignReadyVector \<Rightarrow> bool" where
  "JudgeAssignReadyBitmapIsEmpty rv \<longleftrightarrow> priority_ready_group rv = 0"

text \<open>
  \<^verbatim>\<open>ChooseTaskWithHighestPrio\<close> takes the first node of the list of the highest priority; on an empty
  list it would interpret the list head as a task.
\<close>

definition ChooseTaskWithHighestPrio :: "'a kernel_scheme \<Rightarrow> tid option" where
  "ChooseTaskWithHighestPrio s =
     (case lists s (ReadyVector (highest_prio (os_assign_read_vector s))) of [] \<Rightarrow> None | t # _ \<Rightarrow> Some t)"

definition OsAssignReadyVectorInit :: "'a kernel_scheme \<Rightarrow> 'a kernel_scheme" where
  "OsAssignReadyVectorInit s =
     s\<lparr>lists := (\<lambda>l. case l of
         ReadyVector p \<Rightarrow> if p < KTASK_PRIORITY_MAX (cfg s) then [] else lists s l | _ \<Rightarrow> lists s l),
       os_assign_read_vector := \<lparr>priority_ready_group = 0,
         ready_vector = (if KTASK_PRIORITY_MAX (cfg s) > 32 then replicate 32 0
                         else ready_vector (os_assign_read_vector s)),
         highest_prio = 0\<rparr>\<rparr>"

definition KTASK_MAX_ADVANCE_PROCESS_TIME :: uint8 where "KTASK_MAX_ADVANCE_PROCESS_TIME = 1"

definition FifoTaskTimesliceInit :: "TaskDescriptor \<Rightarrow> TaskDescriptor" where
  "FifoTaskTimesliceInit d = d\<lparr>origin_timeslice := 0, rest_timeslice := 0\<rparr>"

definition FifoReadyVectorInsert :: "tid \<Rightarrow> 'a kernel_scheme \<Rightarrow> 'a kernel_scheme option" where
  "FifoReadyVectorInsert t s = do { d \<leftarrow> tasks s t;
     sched_link_back (ReadyVector (unat (cur_prio d))) t s }"

definition RoundRobinTaskTimesliceInit :: "TaskDescriptor \<Rightarrow> TaskDescriptor" where
  "RoundRobinTaskTimesliceInit d = d\<lparr>origin_timeslice := 10, rest_timeslice := 10\<rparr>"

definition RoundRobinReadyVectorInsert :: "tid \<Rightarrow> 'a kernel_scheme \<Rightarrow> 'a kernel_scheme option" where
  "RoundRobinReadyVectorInsert t s = do { d \<leftarrow> tasks s t;
     sched_link_back (ReadyVector (unat (cur_prio d))) t s }"

definition RoundRobinRemainTaskTimesliceInit :: "TaskDescriptor \<Rightarrow> TaskDescriptor" where
  "RoundRobinRemainTaskTimesliceInit d = d\<lparr>origin_timeslice := 10, rest_timeslice := 10\<rparr>"

definition RoundRobinRemainReadyVectorInsert :: "tid \<Rightarrow> 'a kernel_scheme \<Rightarrow> 'a kernel_scheme option" where
  "RoundRobinRemainReadyVectorInsert t s = do { d \<leftarrow> tasks s t;
     let l = ReadyVector (unat (cur_prio d));
     if advance_cnt d < KTASK_MAX_ADVANCE_PROCESS_TIME
     then sched_link_when l (\<lambda>tmp. rest_timeslice d < rest_timeslice tmp) t s
     else sched_link_back l t s }"

text \<open>The priority indexes an array of \<^verbatim>\<open>KTASK_PRIORITY_MAX\<close> list heads.\<close>

definition AssignPolicyInsert :: "tid \<Rightarrow> 'a kernel_scheme \<Rightarrow> 'a kernel_scheme option" where
  "AssignPolicyInsert t s = do { d \<leftarrow> tasks s t;
     let p = unat (cur_prio d);
     if p \<ge> KTASK_PRIORITY_MAX (cfg s) then None else
     do { s \<leftarrow> (case SCHED_POLICY (cfg s) of
                 SCHED_POLICY_FIFO \<Rightarrow> FifoReadyVectorInsert t s
               | SCHED_POLICY_RR \<Rightarrow> RoundRobinReadyVectorInsert t s
               | SCHED_POLICY_RR_REMAINSLICE \<Rightarrow> RoundRobinRemainReadyVectorInsert t s);
          let rv = os_assign_read_vector s;
          Some (if p > highest_prio rv then s\<lparr>os_assign_read_vector := rv\<lparr>highest_prio := p\<rparr>\<rparr> else s) } }"

definition KTaskInsertToReadyVector :: "tid \<Rightarrow> 'a kernel_scheme \<Rightarrow> 'a kernel_scheme option" where
  "KTaskInsertToReadyVector t s = do {
     s \<leftarrow> KTaskStatSetAsReady t s;
     s \<leftarrow> AssignPolicyInsert t s;
     d \<leftarrow> tasks s t;
     Some (s\<lparr>os_assign_read_vector := MERGE_READY (cfg s) d (os_assign_read_vector s)\<rparr>) }"

definition KTaskOsAssignRemoveKTask :: "tid \<Rightarrow> 'a kernel_scheme \<Rightarrow> 'a kernel_scheme option" where
  "KTaskOsAssignRemoveKTask t s = do {
     s \<leftarrow> sched_link_rm t s;
     d \<leftarrow> tasks s t;
     let p = unat (cur_prio d);
     if p \<ge> KTASK_PRIORITY_MAX (cfg s) then None else
     if lists s (ReadyVector p) = [] then
       (let rv = CLEAR_READY (cfg s) d (os_assign_read_vector s)
        in Some (s\<lparr>os_assign_read_vector := rv\<lparr>highest_prio := HIGHEST_READY (cfg s) rv\<rparr>\<rparr>))
     else Some s }"

subsection \<open>The bitmap as a set of priorities\<close>

locale prio_set =
  fixes pmax :: nat and ok :: "'r \<Rightarrow> bool" and mem :: "'r \<Rightarrow> nat \<Rightarrow> bool"
    and site :: "nat \<Rightarrow> 'd \<Rightarrow> bool"
    and add :: "'d \<Rightarrow> 'r \<Rightarrow> 'r" and del :: "'d \<Rightarrow> 'r \<Rightarrow> 'r" and top :: "'r \<Rightarrow> nat"
  assumes add_mem: "ok r \<Longrightarrow> p < pmax \<Longrightarrow> site p d \<Longrightarrow> ok (add d r) \<and> (mem (add d r) q \<longleftrightarrow> q = p \<or> mem r q)"
    and del_mem: "ok r \<Longrightarrow> p < pmax \<Longrightarrow> site p d \<Longrightarrow> ok (del d r) \<and> (mem (del d r) q \<longleftrightarrow> q \<noteq> p \<and> mem r q)"
    and top_mem: "ok r \<Longrightarrow> mem r p \<Longrightarrow> mem r (top r) \<and> p \<le> top r"
    and top_none: "ok r \<Longrightarrow> (\<And>p. \<not> mem r p) \<Longrightarrow> top r = 0"
begin

lemma top_eqI: "ok r \<Longrightarrow> mem r h \<Longrightarrow> (\<And>q. mem r q \<Longrightarrow> q \<le> h) \<Longrightarrow> top r = h"
  using top_mem by (meson le_antisym)

lemma top_add:
  assumes "ok r" and "p < pmax" and "site p d"
  shows "top (add d r) = max p (top r)"
proof (rule top_eqI)
  show "ok (add d r)" using add_mem[OF assms] by blast
  show "mem (add d r) (max p (top r))"
  proof (cases "\<exists>q. mem r q")
    case True
    then show ?thesis using top_mem[OF assms(1)] add_mem[OF assms] by (auto simp: max_def)
  next
    case False
    then show ?thesis using top_none[OF assms(1)] add_mem[OF assms] by auto
  qed
  show "q \<le> max p (top r)" if "mem (add d r) q" for q
    using that add_mem[OF assms] top_mem[OF assms(1)] by (auto simp: le_max_iff_disj)
qed

end

definition rv_mem :: "kconfig \<Rightarrow> OsAssignReadyVector \<Rightarrow> nat \<Rightarrow> bool" where
  "rv_mem c rv p \<longleftrightarrow> (if KTASK_PRIORITY_MAX c > 32
     then p < 256 \<and> bit (ready_vector rv ! (p div 8)) (p mod 8)
     else bit (priority_ready_group rv) p)"

definition rv_ok :: "kconfig \<Rightarrow> OsAssignReadyVector \<Rightarrow> bool" where
  "rv_ok c rv \<longleftrightarrow> 0 < KTASK_PRIORITY_MAX c \<and> KTASK_PRIORITY_MAX c \<le> 256 \<and>
     (\<forall>p. rv_mem c rv p \<longrightarrow> p < KTASK_PRIORITY_MAX c) \<and>
     (KTASK_PRIORITY_MAX c > 32 \<longrightarrow> length (ready_vector rv) = 32 \<and>
        (\<forall>k < 32. bit (priority_ready_group rv) k \<longleftrightarrow> ready_vector rv ! k \<noteq> 0))"

text \<open>The bitmap fields of a descriptor are those of priority \<open>p\<close>.\<close>

definition bitmap_site :: "kconfig \<Rightarrow> nat \<Rightarrow> TaskDescriptor \<Rightarrow> bool" where
  "bitmap_site c p d \<longleftrightarrow> (if KTASK_PRIORITY_MAX c > 32
     then unat (bitmap_offset d) = p div 8 \<and> bitmap_column d = push_bit (p div 8) 1 \<and>
          bitmap_row d = push_bit (p mod 8) 1
     else bitmap_column d = push_bit p 1)"

lemma bit_shift1: "n < 32 \<Longrightarrow> bit (push_bit n (1 :: uint32)) k \<longleftrightarrow> k = n"
  by (auto simp: bit_exp_iff)

lemma bit_shift1_byte: "n < 8 \<Longrightarrow> bit (push_bit n (1 :: uint8)) k \<longleftrightarrow> k = n"
  by (auto simp: bit_exp_iff)

lemma bit_nz: "bit (w :: 'a :: len word) i \<Longrightarrow> w \<noteq> 0"
  by auto

lemma word_zero_bits: "(w :: 'a :: len word) = 0 \<longleftrightarrow> (\<forall>i. \<not> bit w i)"
  by (metis bit_0_eq bit_eq_iff bot_apply bot_bool_def)

lemma byte_nz: "(w :: uint8) \<noteq> 0 \<longleftrightarrow> (\<exists>i < 8. bit w i)"
proof -
  have "bit w i \<Longrightarrow> i < 8" for i using bit_imp_le_length[of w i] by simp
  then show ?thesis by (metis bit_0_eq bit_eq_iff bot_apply bot_bool_def)
qed

lemma div_mod_8: "(q :: nat) = p \<longleftrightarrow> q div 8 = p div 8 \<and> q mod 8 = p mod 8"
  by (metis div_mult_mod_eq)

lemma rv_bound_256: "rv_ok c rv \<Longrightarrow> p < KTASK_PRIORITY_MAX c \<Longrightarrow> p < 256"
  by (simp add: rv_ok_def)

lemma rv_nonzero:
  assumes "rv_ok c rv" and "KTASK_PRIORITY_MAX c > 32" and "k < 32"
  shows "bit (priority_ready_group rv) k \<longleftrightarrow> (\<exists>i < 8. rv_mem c rv (k * 8 + i))"
proof -
  have "bit (priority_ready_group rv) k \<longleftrightarrow> (\<exists>i < 8. bit (ready_vector rv ! k) i)"
    using assms by (simp add: rv_ok_def byte_nz)
  also have "\<dots> \<longleftrightarrow> (\<exists>i < 8. rv_mem c rv (k * 8 + i))"
    using assms by (intro ex_cong) (auto simp: rv_mem_def)
  finally show ?thesis .
qed

lemma MERGE_READY_mem:
  assumes ok: "rv_ok c rv" and p: "p < KTASK_PRIORITY_MAX c" and site: "bitmap_site c p d"
  shows "rv_mem c (MERGE_READY c d rv) q \<longleftrightarrow> q = p \<or> rv_mem c rv q"
proof (cases "KTASK_PRIORITY_MAX c > 32")
  case True
  have "p < 256" by (rule rv_bound_256[OF ok p])
  then have k: "p div 8 < 32" by (simp add: less_mult_imp_div_less)
  have len: "length (ready_vector rv) = 32" using ok True by (simp add: rv_ok_def)
  show ?thesis
  proof (cases "q div 8 = p div 8")
    case eq: True
    have q: "q < 256"
      using eq k div_mult_mod_eq[of q 8] mod_less_divisor[of 8 q] by linarith
    have m: "q = p \<longleftrightarrow> q mod 8 = p mod 8" using div_mod_8[of q p] eq by simp
    have rv': "ready_vector (MERGE_READY c d rv) ! (q div 8) =
        ready_vector rv ! (q div 8) OR push_bit (p mod 8) 1"
      using True site k len eq by (simp add: MERGE_READY_def Let_def bitmap_site_def)
    show ?thesis
      using True q unfolding rv_mem_def rv' m
      by (simp add: bit_or_iff bit_shift1_byte disj_commute del: push_bit_of_1)
  next
    case False
    then have "q \<noteq> p" by auto
    then show ?thesis
      using True site False by (simp add: rv_mem_def MERGE_READY_def Let_def bitmap_site_def)
  qed
next
  case False
  then show ?thesis using site p
    by (auto simp: rv_mem_def MERGE_READY_def bitmap_site_def bit_or_iff bit_shift1 simp del: push_bit_of_1)
qed

lemma MERGE_READY_ok:
  assumes ok: "rv_ok c rv" and p: "p < KTASK_PRIORITY_MAX c" and site: "bitmap_site c p d"
  shows "rv_ok c (MERGE_READY c d rv)"
proof -
  have mem: "rv_mem c (MERGE_READY c d rv) q \<longrightarrow> q < KTASK_PRIORITY_MAX c" for q
    using MERGE_READY_mem[OF assms] ok p by (auto simp: rv_ok_def)
  show ?thesis
  proof (cases "KTASK_PRIORITY_MAX c > 32")
    case True
    have "p < 256" by (rule rv_bound_256[OF ok p])
    then have k: "p div 8 < 32" by (simp add: less_mult_imp_div_less)
    have len: "length (ready_vector rv) = 32"
      and g: "\<And>j. j < 32 \<Longrightarrow> bit (priority_ready_group rv) j \<longleftrightarrow> ready_vector rv ! j \<noteq> 0"
      using ok True by (auto simp: rv_ok_def)
    have "bit (ready_vector rv ! (p div 8) OR push_bit (p mod 8) 1) (p mod 8)"
      by (simp add: bit_or_iff bit_shift1_byte del: push_bit_of_1)
    then have row: "ready_vector rv ! (p div 8) OR push_bit (p mod 8) 1 \<noteq> 0" by (rule bit_nz)
    have "bit (priority_ready_group (MERGE_READY c d rv)) j \<longleftrightarrow> ready_vector (MERGE_READY c d rv) ! j \<noteq> 0"
      if "j < 32" for j
    proof (cases "j = p div 8")
      case eq: True
      then show ?thesis using True site k len row
        by (auto simp: MERGE_READY_def Let_def bitmap_site_def bit_or_iff bit_shift1 simp del: push_bit_of_1)
    next
      case False
      then show ?thesis using True site k len g[OF that]
        by (auto simp: MERGE_READY_def Let_def bitmap_site_def bit_or_iff bit_shift1 simp del: push_bit_of_1)
    qed
    moreover have "length (ready_vector (MERGE_READY c d rv)) = 32"
      using len by (simp add: MERGE_READY_def Let_def)
    ultimately show ?thesis using mem ok unfolding rv_ok_def by blast
  next
    case False
    then show ?thesis using mem ok unfolding rv_ok_def by blast
  qed
qed

lemma CLEAR_READY_mem:
  assumes ok: "rv_ok c rv" and p: "p < KTASK_PRIORITY_MAX c" and site: "bitmap_site c p d"
  shows "rv_mem c (CLEAR_READY c d rv) q \<longleftrightarrow> q \<noteq> p \<and> rv_mem c rv q"
proof (cases "KTASK_PRIORITY_MAX c > 32")
  case True
  have "p < 256" by (rule rv_bound_256[OF ok p])
  then have k: "p div 8 < 32" by (simp add: less_mult_imp_div_less)
  have len: "length (ready_vector rv) = 32" using ok True by (simp add: rv_ok_def)
  have rv': "ready_vector (CLEAR_READY c d rv) =
      (ready_vector rv)[p div 8 := ready_vector rv ! (p div 8) AND NOT (push_bit (p mod 8) 1)]"
    using True site by (simp add: CLEAR_READY_def Let_def bitmap_site_def)
  show ?thesis
  proof (cases "q div 8 = p div 8")
    case eq: True
    have m: "q = p \<longleftrightarrow> q mod 8 = p mod 8" using div_mod_8[of q p] eq by simp
    have w: "ready_vector (CLEAR_READY c d rv) ! (q div 8) =
        ready_vector rv ! (q div 8) AND NOT (push_bit (p mod 8) 1)"
      using k len eq by (simp add: rv')
    have "q mod 8 < 8" by simp
    then show ?thesis
      using True unfolding rv_mem_def w m
      by (auto simp: bit_and_iff bit_not_iff bit_shift1_byte simp del: push_bit_of_1)
  next
    case False
    then have "q \<noteq> p" by auto
    then show ?thesis using True False by (simp add: rv_mem_def rv')
  qed
next
  case False
  then show ?thesis using site p bit_imp_le_length[of "priority_ready_group rv" q]
    by (auto simp: rv_mem_def CLEAR_READY_def bitmap_site_def bit_and_iff bit_not_iff bit_shift1
        simp del: push_bit_of_1)
qed

lemma CLEAR_READY_ok:
  assumes ok: "rv_ok c rv" and p: "p < KTASK_PRIORITY_MAX c" and site: "bitmap_site c p d"
  shows "rv_ok c (CLEAR_READY c d rv)"
proof -
  have mem: "rv_mem c (CLEAR_READY c d rv) q \<longrightarrow> q < KTASK_PRIORITY_MAX c" for q
    using CLEAR_READY_mem[OF assms] ok by (auto simp: rv_ok_def)
  show ?thesis
  proof (cases "KTASK_PRIORITY_MAX c > 32")
    case True
    have "p < 256" by (rule rv_bound_256[OF ok p])
    then have k: "p div 8 < 32" by (simp add: less_mult_imp_div_less)
    have len: "length (ready_vector rv) = 32"
      and g: "\<And>j. j < 32 \<Longrightarrow> bit (priority_ready_group rv) j \<longleftrightarrow> ready_vector rv ! j \<noteq> 0"
      using ok True by (auto simp: rv_ok_def)
    let ?w = "ready_vector rv ! (p div 8) AND NOT (push_bit (p mod 8) 1)"
    have rv': "ready_vector (CLEAR_READY c d rv) = (ready_vector rv)[p div 8 := ?w]"
      and gr': "priority_ready_group (CLEAR_READY c d rv) =
        (if ?w = 0 then priority_ready_group rv AND NOT (push_bit (p div 8) 1) else priority_ready_group rv)"
      using True site k len by (simp_all add: CLEAR_READY_def Let_def bitmap_site_def)
    have nz: "ready_vector rv ! (p div 8) \<noteq> 0" if "?w \<noteq> 0" using that by auto
    have "bit (priority_ready_group (CLEAR_READY c d rv)) j \<longleftrightarrow> ready_vector (CLEAR_READY c d rv) ! j \<noteq> 0"
      if j: "j < 32" for j
    proof (cases "j = p div 8")
      case eq: True
      show ?thesis using k len nz g[OF j] eq unfolding rv' gr'
        by (auto simp: bit_and_iff bit_not_iff bit_shift1 simp del: push_bit_of_1)
    next
      case False
      then show ?thesis using k g[OF j] j unfolding rv' gr'
        by (auto simp: bit_and_iff bit_not_iff bit_shift1 simp del: push_bit_of_1)
    qed
    moreover have "length (ready_vector (CLEAR_READY c d rv)) = 32"
      using len by (simp add: rv')
    ultimately show ?thesis using mem ok unfolding rv_ok_def by blast
  next
    case False
    then show ?thesis using mem ok unfolding rv_ok_def by blast
  qed
qed

lemma ucast_byte_bit: "bit (ucast (w :: uint8) :: uint32) i \<longleftrightarrow> bit w i"
proof -
  have "bit w i \<Longrightarrow> i < 8" using bit_imp_le_length[of w i] by simp
  then show ?thesis by (auto simp: bit_ucast_iff)
qed

lemma HIGHEST_READY_mem:
  assumes ok: "rv_ok c rv" and q: "rv_mem c rv q"
  shows "rv_mem c rv (HIGHEST_READY c rv) \<and> q \<le> HIGHEST_READY c rv"
proof (cases "KTASK_PRIORITY_MAX c > 32")
  case True
  let ?g = "priority_ready_group rv" and ?n = "PrioCaculate (priority_ready_group rv)"
  have q256: "q < 256" using q True by (simp add: rv_mem_def)
  have bq: "bit (ready_vector rv ! (q div 8)) (q mod 8)" using q True by (simp add: rv_mem_def)
  then have "ready_vector rv ! (q div 8) \<noteq> 0" by (rule bit_nz)
  moreover have "q div 8 < 32" using q256 by (simp add: less_mult_imp_div_less)
  ultimately have gq: "bit ?g (q div 8)" using ok True by (simp add: rv_ok_def)
  then have "?g \<noteq> 0" by (rule bit_nz)
  then have hn: "highest_bit ?g ?n" by (rule PrioCaculate_highest)
  have n32: "?n < 32" by (rule PrioCaculate_bound)
  let ?w = "ready_vector rv ! ?n"
  have "bit ?g ?n" using hn by (simp add: highest_bit_def)
  then have "?w \<noteq> 0" using ok True n32 by (simp add: rv_ok_def)
  then have "(ucast ?w :: uint32) \<noteq> 0" by (metis ucast_byte_bit byte_nz bit_0_eq bot_apply bot_bool_def)
  then have hw: "highest_bit (ucast ?w) (PrioCaculate (ucast ?w))" by (rule PrioCaculate_highest)
  then have bw: "bit ?w (PrioCaculate (ucast ?w))" by (simp add: highest_bit_def ucast_byte_bit)
  then have w8: "PrioCaculate (ucast ?w) < 8" using bit_imp_le_length[of ?w] by fastforce
  have H: "HIGHEST_READY c rv = ?n * 8 + PrioCaculate (ucast ?w)"
    using True by (simp add: HIGHEST_READY_def Let_def)
  have "rv_mem c rv (HIGHEST_READY c rv)"
    using True bw w8 n32 by (simp add: H rv_mem_def)
  moreover have "q \<le> HIGHEST_READY c rv"
  proof (cases "q div 8 = ?n")
    case eq: True
    then have "bit (ucast ?w :: uint32) (q mod 8)" using bq by (simp add: ucast_byte_bit)
    then have "q mod 8 \<le> PrioCaculate (ucast ?w)" using hw by (meson highest_bit_def not_le)
    then show ?thesis using eq H div_mult_mod_eq[of q 8] by linarith
  next
    case False
    then have "q div 8 < ?n" using gq hn by (meson highest_bit_def linorder_neqE_nat)
    then show ?thesis using H div_mult_mod_eq[of q 8] mod_less_divisor[of 8 q] by linarith
  qed
  ultimately show ?thesis ..
next
  case False
  then have b: "bit (priority_ready_group rv) q" using q by (simp add: rv_mem_def)
  then have "priority_ready_group rv \<noteq> 0" by (rule bit_nz)
  then have "highest_bit (priority_ready_group rv) (PrioCaculate (priority_ready_group rv))"
    by (rule PrioCaculate_highest)
  then show ?thesis using b False
    by (auto simp: HIGHEST_READY_def rv_mem_def highest_bit_def not_less[symmetric])
qed

lemma rv_empty_group:
  assumes ok: "rv_ok c rv"
  shows "priority_ready_group rv = 0 \<longleftrightarrow> (\<forall>p. \<not> rv_mem c rv p)"
proof (cases "KTASK_PRIORITY_MAX c > 32")
  case True
  have "priority_ready_group rv = 0 \<longleftrightarrow> (\<forall>k < 32. \<not> bit (priority_ready_group rv) k)"
  proof -
    have "bit (priority_ready_group rv) k \<Longrightarrow> k < 32" for k
      using bit_imp_le_length[of "priority_ready_group rv" k] by simp
    then show ?thesis by (metis bit_0_eq bit_eq_iff bot_apply bot_bool_def)
  qed
  also have "\<dots> \<longleftrightarrow> (\<forall>k < 32. \<forall>i < 8. \<not> rv_mem c rv (k * 8 + i))"
    by (simp add: rv_nonzero[OF ok True])
  also have "\<dots> \<longleftrightarrow> (\<forall>p. \<not> rv_mem c rv p)"
  proof
    assume a: "\<forall>k < 32. \<forall>i < 8. \<not> rv_mem c rv (k * 8 + i)"
    show "\<forall>p. \<not> rv_mem c rv p"
    proof (intro allI notI)
      fix p assume m: "rv_mem c rv p"
      then have "p < 256" using True by (simp add: rv_mem_def)
      then have "p div 8 < 32" by (simp add: less_mult_imp_div_less)
      then have "\<not> rv_mem c rv (p div 8 * 8 + p mod 8)" by (rule a[rule_format]) simp
      then show False using m by (simp only: div_mult_mod_eq not_True_eq_False)
    qed
  qed blast
  finally show ?thesis .
next
  case False
  then show ?thesis by (simp add: rv_mem_def word_zero_bits)
qed

lemma HIGHEST_READY_none:
  assumes ok: "rv_ok c rv" and none: "\<And>p. \<not> rv_mem c rv p"
  shows "HIGHEST_READY c rv = 0"
proof -
  have g: "priority_ready_group rv = 0" using rv_empty_group[OF ok] none by blast
  then have "ready_vector rv ! 0 = 0" if "KTASK_PRIORITY_MAX c > 32"
    using ok that by (auto simp: rv_ok_def)
  then show ?thesis using g by (simp add: HIGHEST_READY_def Let_def PrioCaculate_zero)
qed

interpretation rb: prio_set "KTASK_PRIORITY_MAX c" "rv_ok c" "rv_mem c" "bitmap_site c"
    "MERGE_READY c" "CLEAR_READY c" "HIGHEST_READY c" for c
proof
qed (simp_all add: MERGE_READY_mem MERGE_READY_ok CLEAR_READY_mem CLEAR_READY_ok
    HIGHEST_READY_mem HIGHEST_READY_none)

end
