(* ===== verification/Assign.thy ===== *)
theory Assign
  imports Ready
begin

text \<open>
  The scheduler of \<^verbatim>\<open>kernel/thread/assign.c\<close>: choosing and switching to the highest-priority ready
  task, from a task and from an interrupt, with the invariant that ties the ready bitmap, the ready
  lists and the task states together. \<^verbatim>\<open>SwitchKtaskContext\<close> stores and loads registers in assembly
  and calls \<^verbatim>\<open>RestoreCpusLockStatus\<close>, whose assignment to \<^verbatim>\<open>os_running_task\<close> is its effect here.
\<close>

definition isInIsr :: "'a kernel_scheme \<Rightarrow> bool" where
  "isInIsr s \<longleftrightarrow> isr_count s \<noteq> 0"

definition RestoreCpusLockStatus :: "tid \<Rightarrow> 'a kernel_scheme \<Rightarrow> 'a kernel_scheme" where
  "RestoreCpusLockStatus t s = s\<lparr>os_running_task := Some t\<rparr>"

text \<open>The part that \<^verbatim>\<open>KTaskOsAssign\<close> and \<^verbatim>\<open>KTaskOsAssignDoIrqSwitch\<close> share, from the test of the bitmap on.\<close>

definition KTaskOsAssign_switch :: "bool \<Rightarrow> tid \<Rightarrow> 'a kernel_scheme \<Rightarrow> 'a kernel_scheme option" where
  "KTaskOsAssign_switch need_insert_from_task new_task s = do {
     run \<leftarrow> os_running_task s;
     if new_task \<noteq> run then do {
       let s = s\<lparr>current_priority := word_of_nat (highest_prio (os_assign_read_vector s))\<rparr>;
       s \<leftarrow> (if need_insert_from_task then KTaskInsertToReadyVector run s else Some s);
       s \<leftarrow> KTaskOsAssignRemoveKTask new_task s;
       s \<leftarrow> KTaskStatSetAsRunning new_task s;
       Some (RestoreCpusLockStatus new_task s) }
     else do {
       s \<leftarrow> KTaskOsAssignRemoveKTask run s;
       KTaskStatSetAsRunning run s } }"

definition KTaskOsAssign_select :: "'a kernel_scheme \<Rightarrow> 'a kernel_scheme option" where
  "KTaskOsAssign_select s =
     (if JudgeAssignReadyBitmapIsEmpty (os_assign_read_vector s) then Some s
      else do {
        let hp = highest_prio (os_assign_read_vector s);
        new_task \<leftarrow> ChooseTaskWithHighestPrio s;
        run \<leftarrow> os_running_task s;
        d \<leftarrow> tasks s run;
        if \<not> JudgeKTaskStatIsRunning d then KTaskOsAssign_switch False new_task s
        else if hp < unat (cur_prio d) then Some s
        else KTaskOsAssign_switch True new_task s })"

definition KTaskOsAssign :: "'a kernel_scheme \<Rightarrow> 'a kernel_scheme option" where
  "KTaskOsAssign s =
     (if GetOsAssignLockLevel s \<ge> 1 then Some s
      else if isInIsr s then Some (s\<lparr>isr_switch_trigger_flag := True\<rparr>)
      else KTaskOsAssign_select s)"

definition KTaskOsAssignDoIrqSwitch :: "'a kernel_scheme \<Rightarrow> 'a kernel_scheme option" where
  "KTaskOsAssignDoIrqSwitch s =
     (if GetOsAssignLockLevel s \<ge> 1 then Some s
      else if \<not> isr_switch_trigger_flag s then Some s
      else KTaskOsAssign_select (s\<lparr>isr_switch_trigger_flag := False\<rparr>))"

definition KTaskOsAssignAfterIrq :: "'a kernel_scheme \<Rightarrow> 'a kernel_scheme option" where
  "KTaskOsAssignAfterIrq s = KTaskOsAssignDoIrqSwitch s"

text \<open>\<^verbatim>\<open>DO_KTASK_ASSIGN\<close> checks that the caller has left every critical area.\<close>

definition DO_KTASK_ASSIGN :: "'a kernel_scheme \<Rightarrow> 'a kernel_scheme option" where
  "DO_KTASK_ASSIGN s = (if GetOsAssignLockLevel s \<noteq> 0 then None else KTaskOsAssign s)"

definition YieldOsAssign :: "'a kernel_scheme \<Rightarrow> (x_err_t \<times> 'a kernel_scheme) option" where
  "YieldOsAssign s =
     (if GetOsAssignLockLevel s \<ge> 1 then Some (EOK, s)
      else if isInIsr s then Some (EOK, s)
      else if JudgeAssignReadyBitmapIsEmpty (os_assign_read_vector s) then Some (- ERROR, s)
      else do {
        let hp = highest_prio (os_assign_read_vector s);
        new_task \<leftarrow> ChooseTaskWithHighestPrio s;
        from_task \<leftarrow> os_running_task s;
        d \<leftarrow> tasks s from_task;
        s \<leftarrow> (if \<not> JudgeKTaskStatIsRunning d then Some s else KTaskInsertToReadyVector from_task s);
        if new_task \<noteq> from_task then do {
          let s = s\<lparr>current_priority := word_of_nat hp\<rparr>;
          s \<leftarrow> KTaskOsAssignRemoveKTask new_task s;
          s \<leftarrow> KTaskStatSetAsRunning new_task s;
          Some (EOK, RestoreCpusLockStatus new_task s) }
        else do {
          s \<leftarrow> KTaskOsAssignRemoveKTask from_task s;
          s \<leftarrow> KTaskStatSetAsRunning from_task s;
          Some (EOK, s) } })"

definition SwitchToFirstRunningTask :: "tid \<Rightarrow> 'a kernel_scheme \<Rightarrow> 'a kernel_scheme option" where
  "SwitchToFirstRunningTask t s = do {
     s \<leftarrow> KTaskOsAssignRemoveKTask t s;
     s \<leftarrow> KTaskStatSetAsRunning t s;
     Some (RestoreCpusLockStatus t s) }"

definition SetSystemRunningTask :: "tid \<Rightarrow> 'a kernel_scheme \<Rightarrow> 'a kernel_scheme" where
  "SetSystemRunningTask t s = s\<lparr>os_running_task := Some t\<rparr>"

definition StartupOsAssign :: "'a kernel_scheme \<Rightarrow> 'a kernel_scheme option" where
  "StartupOsAssign s = do {
     FirstRunningTask \<leftarrow> ChooseTaskWithHighestPrio s;
     let s = SetSystemRunningTask FirstRunningTask s;
     SwitchToFirstRunningTask FirstRunningTask s }"

definition SysInitOsAssign :: "'a kernel_scheme \<Rightarrow> 'a kernel_scheme" where
  "SysInitOsAssign s = ResetCriticalAreaLock (OsAssignReadyVectorInit s)"

subsection \<open>The invariant of the ready vector\<close>

definition bitmap_zero :: "TaskDescriptor \<Rightarrow> bool" where
  "bitmap_zero d \<longleftrightarrow> bitmap_offset d = 0 \<and> bitmap_row d = 0 \<and> bitmap_column d = 0"

definition task_ok :: "kconfig \<Rightarrow> TaskDescriptor \<Rightarrow> bool" where
  "task_ok c d \<longleftrightarrow> unat (cur_prio d) < KTASK_PRIORITY_MAX c \<and>
     (bitmap_site c (unat (cur_prio d)) d \<or>
      (JudgeKTaskStatIsInit d \<or> JudgeKTaskStatIsClose d) \<and> bitmap_zero d)"

definition rv_inv :: "'a kernel_scheme \<Rightarrow> bool" where
  "rv_inv s \<longleftrightarrow> (let c = cfg s; rv = os_assign_read_vector s in
     rv_ok c rv \<and> highest_prio rv = HIGHEST_READY c rv \<and>
     (\<forall>p. rv_mem c rv p \<longleftrightarrow> lists s (ReadyVector p) \<noteq> []))"

definition task_inv :: "kconfig \<Rightarrow> TaskDescriptor \<Rightarrow> bool" where
  "task_inv c d \<longleftrightarrow> task_ok c d \<and>
     (\<forall>p. sched_link d = Some (ReadyVector p) \<longrightarrow>
        p = unat (cur_prio d) \<and> JudgeKTaskStatIsReady d \<and> bitmap_site c p d)"

definition ready_inv :: "'a kernel_scheme \<Rightarrow> bool" where
  "ready_inv s \<longleftrightarrow> links_inv s \<and> rv_inv s \<and> (\<forall>t d. tasks s t = Some d \<longrightarrow> task_inv (cfg s) d)"

definition sched_inv :: "'a kernel_scheme \<Rightarrow> bool" where
  "sched_inv s \<longleftrightarrow> ready_inv s \<and>
     (\<forall>t d. tasks s t = Some d \<longrightarrow>
        (JudgeKTaskStatIsReady d \<longrightarrow> (\<exists>p. sched_link d = Some (ReadyVector p))) \<and>
        (JudgeKTaskStatIsRunning d \<longrightarrow> os_running_task s = Some t \<and> sched_link d = None)) \<and>
     (\<forall>t. os_running_task s = Some t \<longrightarrow> tasks s t \<noteq> None)"

subsection \<open>What insertion does\<close>

lemma rv_highest_upd [simp]:
  "rv_mem c (rv\<lparr>highest_prio := x\<rparr>) = rv_mem c rv" "rv_ok c (rv\<lparr>highest_prio := x\<rparr>) = rv_ok c rv"
  "HIGHEST_READY c (rv\<lparr>highest_prio := x\<rparr>) = HIGHEST_READY c rv"
  "MERGE_READY c d (rv\<lparr>highest_prio := x\<rparr>) = (MERGE_READY c d rv)\<lparr>highest_prio := x\<rparr>"
  by (auto simp: rv_mem_def rv_ok_def HIGHEST_READY_def MERGE_READY_def Let_def fun_eq_iff)

lemma site_upd [simp]:
  "bitmap_site c p (set_stat st d) = bitmap_site c p d"
  "bitmap_site c p (d\<lparr>sched_link := l\<rparr>) = bitmap_site c p d"
  "MERGE_READY c (set_stat st d) = MERGE_READY c d"
  "MERGE_READY c (d\<lparr>sched_link := l\<rparr>) = MERGE_READY c d"
  "CLEAR_READY c (d\<lparr>sched_link := l\<rparr>) = CLEAR_READY c d"
  by (auto simp: bitmap_site_def MERGE_READY_def CLEAR_READY_def Let_def fun_eq_iff)

definition policy_order :: "'a kernel_scheme \<Rightarrow> tid \<Rightarrow> TaskDescriptor \<Rightarrow> tid list \<Rightarrow> tid list" where
  "policy_order s t d xs = (case SCHED_POLICY (cfg s) of
      SCHED_POLICY_RR_REMAINSLICE \<Rightarrow>
        if advance_cnt d < KTASK_MAX_ADVANCE_PROCESS_TIME
        then insert_when (\<lambda>x. case tasks s x of None \<Rightarrow> False | Some e \<Rightarrow> rest_timeslice d < rest_timeslice e) t xs
        else xs @ [t]
    | _ \<Rightarrow> xs @ [t])"

lemma mset_policy_order: "mset (policy_order s t d xs) = add_mset t (mset xs)"
  by (simp add: policy_order_def split: sched_policy.splits)

lemma policy_order_nonempty [simp]: "policy_order s t d xs \<noteq> []"
  using mset_policy_order[of s t d xs] by (metis mset_zero_iff add_mset_not_empty)

lemma AssignPolicyInsert_effect:
  assumes "tasks s t = Some d" and "sched_link d = None"
    and "unat (cur_prio d) < KTASK_PRIORITY_MAX (cfg s)"
  shows "AssignPolicyInsert t s = Some (s\<lparr>
     lists := (lists s)(ReadyVector (unat (cur_prio d)) :=
       policy_order s t d (lists s (ReadyVector (unat (cur_prio d))))),
     tasks := (tasks s)(t \<mapsto> d\<lparr>sched_link := Some (ReadyVector (unat (cur_prio d)))\<rparr>),
     os_assign_read_vector := (os_assign_read_vector s)\<lparr>highest_prio :=
       max (unat (cur_prio d)) (highest_prio (os_assign_read_vector s))\<rparr>\<rparr>)"
  using assms
  by (auto simp: AssignPolicyInsert_def FifoReadyVectorInsert_def RoundRobinReadyVectorInsert_def
      RoundRobinRemainReadyVectorInsert_def sched_link_back_def sched_link_when_def
      sched_link_insert_def policy_order_def max_def Let_def split: sched_policy.splits)

lemma KTaskInsertToReadyVector_effect:
  assumes "tasks s t = Some d" and "sched_link d = None"
    and "unat (cur_prio d) < KTASK_PRIORITY_MAX (cfg s)"
  defines "p \<equiv> unat (cur_prio d)"
  shows "\<exists>xs. mset xs = add_mset t (mset (lists s (ReadyVector p))) \<and>
    KTaskInsertToReadyVector t s = Some (s\<lparr>
     lists := (lists s)(ReadyVector p := xs),
     tasks := (tasks s)(t \<mapsto> (set_stat KTASK_READY d)\<lparr>sched_link := Some (ReadyVector p)\<rparr>),
     os_assign_read_vector := (MERGE_READY (cfg s) d (os_assign_read_vector s))\<lparr>highest_prio :=
       max p (highest_prio (os_assign_read_vector s))\<rparr>\<rparr>)"
proof -
  let ?s = "s\<lparr>tasks := (tasks s)(t \<mapsto> set_stat KTASK_READY d)\<rparr>"
  have "KTaskStatSetAsReady t s = Some ?s"
    using assms(1) by (simp add: KTaskStatSetAsReady_def KTaskStateSet_eq)
  moreover note AssignPolicyInsert_effect[of ?s t "set_stat KTASK_READY d"]
  ultimately show ?thesis
    using assms by (intro exI[of _ "policy_order ?s t (set_stat KTASK_READY d) (lists s (ReadyVector p))"])
      (simp add: KTaskInsertToReadyVector_def mset_policy_order)
qed

lemma ready_invD:
  assumes "ready_inv s"
  shows "links_inv s" "rv_ok (cfg s) (os_assign_read_vector s)"
    "highest_prio (os_assign_read_vector s) = HIGHEST_READY (cfg s) (os_assign_read_vector s)"
    "rv_mem (cfg s) (os_assign_read_vector s) p \<longleftrightarrow> lists s (ReadyVector p) \<noteq> []"
    "tasks s t = Some d \<Longrightarrow> task_inv (cfg s) d"
  using assms by (auto simp: ready_inv_def rv_inv_def Let_def)

lemma KTaskInsertToReadyVector_inv:
  assumes inv: "ready_inv s" and t: "tasks s t = Some d" "sched_link d = None"
    and site: "bitmap_site (cfg s) (unat (cur_prio d)) d"
    and ins: "KTaskInsertToReadyVector t s = Some s'"
  shows "ready_inv s'"
proof -
  let ?p = "unat (cur_prio d)" and ?c = "cfg s" and ?rv = "os_assign_read_vector s"
  note i = ready_invD[OF inv]
  have p: "?p < KTASK_PRIORITY_MAX ?c" using i(5)[OF t(1)] by (simp add: task_inv_def task_ok_def)
  obtain xs where xs: "mset xs = add_mset t (mset (lists s (ReadyVector ?p)))"
    and s': "s' = s\<lparr>lists := (lists s)(ReadyVector ?p := xs),
      tasks := (tasks s)(t \<mapsto> (set_stat KTASK_READY d)\<lparr>sched_link := Some (ReadyVector ?p)\<rparr>),
      os_assign_read_vector := (MERGE_READY ?c d ?rv)\<lparr>highest_prio := max ?p (highest_prio ?rv)\<rparr>\<rparr>"
    using KTaskInsertToReadyVector_effect[OF t p] ins by auto
  have "xs \<noteq> []" using xs by auto
  then have rv: "rv_inv s'"
    using rb.add_mem[OF i(2) p site] rb.top_add[OF i(2) p site] i(3,4)
    by (auto simp: rv_inv_def Let_def s')
  have "links_inv (s'\<lparr>os_assign_read_vector := ?rv\<rparr>)"
  proof (rule sched_link_insert_inv)
    let ?s = "s\<lparr>tasks := (tasks s)(t \<mapsto> set_stat KTASK_READY d)\<rparr>"
    show "links_inv ?s"
      using links_inv_upd_task[OF i(1), of t "set_stat KTASK_READY"] t(1) by (simp add: upd_task_def)
    show "sched_link_insert (ReadyVector ?p) (\<lambda>_. xs) t ?s =
        Some (s'\<lparr>os_assign_read_vector := ?rv\<rparr>)"
      using t by (simp add: sched_link_insert_def s')
    show "mset xs = add_mset t (mset (lists ?s (ReadyVector ?p)))" using xs by simp
  qed
  then have "links_inv s'" by (simp add: links_inv_def)
  moreover have "\<forall>u e. tasks s' u = Some e \<longrightarrow> task_inv (cfg s') e"
    using i(5) p site by (auto simp: s' task_inv_def task_ok_def Judge_StatGet KTaskStatGet_set_stat)
  ultimately show ?thesis using rv by (simp add: ready_inv_def)
qed

subsection \<open>What removal does\<close>

definition unlinked_lists :: "'a kernel_scheme \<Rightarrow> tid \<Rightarrow> TaskDescriptor \<Rightarrow> (lhead, tid) lstore" where
  "unlinked_lists s t d = (case sched_link d of None \<Rightarrow> lists s
     | Some l \<Rightarrow> (lists s)(l := removeAll t (lists s l)))"

definition cleared_rv :: "'a kernel_scheme \<Rightarrow> tid \<Rightarrow> TaskDescriptor \<Rightarrow> OsAssignReadyVector" where
  "cleared_rv s t d =
     (if unlinked_lists s t d (ReadyVector (unat (cur_prio d))) = []
      then (let rv = CLEAR_READY (cfg s) d (os_assign_read_vector s)
            in rv\<lparr>highest_prio := HIGHEST_READY (cfg s) rv\<rparr>)
      else os_assign_read_vector s)"

lemma sched_link_rm_effect:
  assumes "tasks s t = Some d"
  shows "sched_link_rm t s =
    Some (s\<lparr>lists := unlinked_lists s t d, tasks := (tasks s)(t \<mapsto> d\<lparr>sched_link := None\<rparr>)\<rparr>)"
proof (cases "sched_link d")
  case None
  then have "d\<lparr>sched_link := None\<rparr> = d" by simp
  then show ?thesis using assms None
    by (simp add: sched_link_rm_def unlinked_lists_def fun_upd_idem)
qed (use assms in \<open>simp add: sched_link_rm_def unlinked_lists_def\<close>)

lemma KTaskOsAssignRemoveKTask_effect:
  assumes "tasks s t = Some d" and "unat (cur_prio d) < KTASK_PRIORITY_MAX (cfg s)"
  shows "KTaskOsAssignRemoveKTask t s = Some (s\<lparr>
     lists := unlinked_lists s t d,
     tasks := (tasks s)(t \<mapsto> d\<lparr>sched_link := None\<rparr>),
     os_assign_read_vector := cleared_rv s t d\<rparr>)"
  using assms
  by (simp add: KTaskOsAssignRemoveKTask_def sched_link_rm_effect[OF assms(1)] cleared_rv_def Let_def)

lemma CLEAR_READY_zero:
  assumes "bitmap_zero d"
  shows "CLEAR_READY c d rv = rv"
proof -
  have "ready_vector rv ! 0 AND NOT 0 = ready_vector rv ! 0" by simp
  then show ?thesis using assms by (simp add: CLEAR_READY_def bitmap_zero_def Let_def list_update_id)
qed

lemma KTaskOsAssignRemoveKTask_inv:
  assumes inv: "ready_inv s" and t: "tasks s t = Some d"
    and rm: "KTaskOsAssignRemoveKTask t s = Some s'"
  shows "ready_inv s'"
proof -
  let ?p = "unat (cur_prio d)" and ?c = "cfg s" and ?rv = "os_assign_read_vector s"
  note i = ready_invD[OF inv]
  have ti: "task_inv ?c d" using i(5)[OF t] .
  then have p: "?p < KTASK_PRIORITY_MAX ?c" by (simp add: task_inv_def task_ok_def)
  have s': "s' = s\<lparr>lists := unlinked_lists s t d, tasks := (tasks s)(t \<mapsto> d\<lparr>sched_link := None\<rparr>),
      os_assign_read_vector := cleared_rv s t d\<rparr>"
    using KTaskOsAssignRemoveKTask_effect[OF t p] rm by simp
  have "links_inv (s\<lparr>lists := unlinked_lists s t d, tasks := (tasks s)(t \<mapsto> d\<lparr>sched_link := None\<rparr>)\<rparr>)"
    by (rule sched_link_rm_inv[OF i(1) sched_link_rm_effect[OF t]])
  then have "links_inv s'" by (simp add: links_inv_def s')
  moreover have "\<forall>u e. tasks s' u = Some e \<longrightarrow> task_inv (cfg s') e"
    using i(5) ti by (auto simp: s' task_inv_def task_ok_def Judge_StatGet bitmap_zero_def)
  moreover have "rv_inv s'"
  proof -
    have other: "unlinked_lists s t d (ReadyVector q) = lists s (ReadyVector q)" if "q \<noteq> ?p" for q
      using ti that by (auto simp: unlinked_lists_def task_inv_def split: option.splits)
    have sub: "lists s (ReadyVector ?p) \<noteq> []" if "unlinked_lists s t d (ReadyVector ?p) \<noteq> []"
      using that by (auto simp: unlinked_lists_def split: option.splits if_splits)
    show ?thesis
    proof (cases "unlinked_lists s t d (ReadyVector ?p) = []")
      case False
      then have "lists s (ReadyVector q) \<noteq> [] \<longleftrightarrow> unlinked_lists s t d (ReadyVector q) \<noteq> []" for q
        using sub other by (cases "q = ?p") auto
      then show ?thesis using i(2,3,4) False by (simp add: rv_inv_def s' cleared_rv_def)
    next
      case True
      show ?thesis
      proof (cases "bitmap_site ?c ?p d")
        case site: True
        have "rv_mem ?c (CLEAR_READY ?c d ?rv) q \<longleftrightarrow> unlinked_lists s t d (ReadyVector q) \<noteq> []" for q
          using rb.del_mem[OF i(2) p site] i(4) True other by (cases "q = ?p") auto
        then show ?thesis
          using rb.del_mem[OF i(2) p site] True by (simp add: rv_inv_def s' cleared_rv_def Let_def)
      next
        case False
        then have z: "bitmap_zero d" and "\<not> JudgeKTaskStatIsReady d"
          using ti by (auto simp: task_inv_def task_ok_def Judge_StatGet)
        then have "sched_link d \<noteq> Some (ReadyVector q)" for q using ti by (auto simp: task_inv_def)
        then have "unlinked_lists s t d (ReadyVector q) = lists s (ReadyVector q)" for q
          by (auto simp: unlinked_lists_def split: option.splits)
        then show ?thesis
          using i(2,3,4) True by (simp add: rv_inv_def s' cleared_rv_def CLEAR_READY_zero[OF z] Let_def)
      qed
    qed
  qed
  ultimately show ?thesis by (simp add: ready_inv_def)
qed

subsection \<open>Switching\<close>

lemma ready_inv_frame [simp]:
  "ready_inv (s\<lparr>os_running_task := r\<rparr>) = ready_inv s" "ready_inv (s\<lparr>current_priority := cp\<rparr>) = ready_inv s"
  "ready_inv (s\<lparr>isr_switch_trigger_flag := b\<rparr>) = ready_inv s" "ready_inv (s\<lparr>KTaskOsAssignLockNest := n\<rparr>) = ready_inv s"
  "ready_inv (s\<lparr>isr_count := m\<rparr>) = ready_inv s" "ready_inv (s\<lparr>heartbeat_ticks := tk\<rparr>) = ready_inv s"
  "ready_inv (s\<lparr>xiaoshan_delay_head := dl\<rparr>) = ready_inv s" "ready_inv (s\<lparr>xiaoshan_task_head := th\<rparr>) = ready_inv s"
  "ready_inv (s\<lparr>k_task_id_manager := im\<rparr>) = ready_inv s" "ready_inv (s\<lparr>global_exstatus := ge\<rparr>) = ready_inv s"
  by (simp_all add: ready_inv_def rv_inv_def links_inv_def)

lemma ready_inv_task_upd:
  assumes "ready_inv s" and "tasks s t = Some d" and "sched_link d' = sched_link d" and "task_inv (cfg s) d'"
  shows "ready_inv (s\<lparr>tasks := (tasks s)(t \<mapsto> d')\<rparr>)"
proof -
  have "links_inv (s\<lparr>tasks := (tasks s)(t \<mapsto> d')\<rparr>)"
    using ready_invD(1)[OF assms(1)] assms(2,3) by (auto simp: links_inv_def split: if_splits)
  then show ?thesis using assms(1,4) by (auto simp: ready_inv_def rv_inv_def)
qed

definition ready_linked :: "'a kernel_scheme \<Rightarrow> bool" where
  "ready_linked s \<longleftrightarrow> (\<forall>t d. tasks s t = Some d \<and> JudgeKTaskStatIsReady d \<longrightarrow>
     (\<exists>p. sched_link d = Some (ReadyVector p)))"

lemma sched_invD:
  assumes "sched_inv s"
  shows "ready_inv s" "ready_linked s"
    "tasks s t = Some d \<Longrightarrow> JudgeKTaskStatIsRunning d \<Longrightarrow> os_running_task s = Some t \<and> sched_link d = None"
    "os_running_task s = Some r \<Longrightarrow> \<exists>d. tasks s r = Some d"
  using assms by (auto simp: sched_inv_def ready_linked_def)

lemma ready_nonempty:
  assumes "ready_inv s" and "tasks s t = Some d" and "sched_link d = Some (ReadyVector p)"
  shows "lists s (ReadyVector p) \<noteq> [] \<and> p = unat (cur_prio d) \<and> p \<le> highest_prio (os_assign_read_vector s)"
proof -
  note i = ready_invD[OF assms(1)]
  have "t \<in> set (lists s (ReadyVector p))" using links_invD(2)[OF i(1)] assms(2,3) by blast
  then have ne: "lists s (ReadyVector p) \<noteq> []" by auto
  then have "p \<le> HIGHEST_READY (cfg s) (os_assign_read_vector s)"
    using rb.top_mem[OF i(2), of p] i(4) by blast
  then show ?thesis using ne i(3) i(5)[OF assms(2)] assms(3) by (simp add: task_inv_def)
qed

lemma bitmap_empty_iff:
  assumes "ready_inv s"
  shows "JudgeAssignReadyBitmapIsEmpty (os_assign_read_vector s) \<longleftrightarrow> (\<forall>p. lists s (ReadyVector p) = [])"
  using rv_empty_group[OF ready_invD(2)[OF assms]] ready_invD(4)[OF assms]
  by (simp add: JudgeAssignReadyBitmapIsEmpty_def)

lemma choose_ready:
  assumes inv: "ready_inv s" and ne: "\<not> JudgeAssignReadyBitmapIsEmpty (os_assign_read_vector s)"
  defines "h \<equiv> highest_prio (os_assign_read_vector s)"
  obtains t d where "ChooseTaskWithHighestPrio s = Some t" and "tasks s t = Some d"
    and "sched_link d = Some (ReadyVector h)" and "unat (cur_prio d) = h" and "JudgeKTaskStatIsReady d"
    and "bitmap_site (cfg s) h d"
proof -
  note i = ready_invD[OF inv]
  obtain q where "lists s (ReadyVector q) \<noteq> []" using bitmap_empty_iff[OF inv] ne by blast
  then have "lists s (ReadyVector h) \<noteq> []"
    using rb.top_mem[OF i(2), of q] i(3,4) by (simp add: h_def)
  then obtain t ts where t: "lists s (ReadyVector h) = t # ts" by (cases "lists s (ReadyVector h)") auto
  then have "t \<in> set (lists s (ReadyVector h))" by simp
  then obtain d where d: "tasks s t = Some d" "sched_link d = Some (ReadyVector h)"
    using links_invD(2)[OF i(1)] by blast
  have "ChooseTaskWithHighestPrio s = Some t" using t by (simp add: ChooseTaskWithHighestPrio_def h_def)
  moreover have "unat (cur_prio d) = h" "JudgeKTaskStatIsReady d" "bitmap_site (cfg s) h d"
    using i(5)[OF d(1)] d(2) by (auto simp: task_inv_def)
  ultimately show thesis using that d by blast
qed

definition switch_to :: "tid \<Rightarrow> 'a kernel_scheme \<Rightarrow> 'a kernel_scheme option" where
  "switch_to t s = do { s \<leftarrow> KTaskOsAssignRemoveKTask t s; s \<leftarrow> KTaskStatSetAsRunning t s;
     Some (RestoreCpusLockStatus t s) }"

lemma switch_to_effect:
  assumes "tasks s t = Some d" and "unat (cur_prio d) < KTASK_PRIORITY_MAX (cfg s)"
  shows "switch_to t s = Some (s\<lparr>lists := unlinked_lists s t d,
     tasks := (tasks s)(t \<mapsto> set_stat KTASK_RUNNING (d\<lparr>sched_link := None\<rparr>)),
     os_assign_read_vector := cleared_rv s t d, os_running_task := Some t\<rparr>)"
  using assms
  by (simp add: switch_to_def KTaskOsAssignRemoveKTask_effect KTaskStatSetAsRunning_def
      KTaskStateSet_def upd_task_def RestoreCpusLockStatus_def set_stat_def)

definition only_running :: "tid \<Rightarrow> 'a kernel_scheme \<Rightarrow> bool" where
  "only_running t s \<longleftrightarrow> (\<forall>u e. tasks s u = Some e \<and> JudgeKTaskStatIsRunning e \<longrightarrow> u = t)"

lemma switch_to_inv:
  assumes inv: "ready_inv s" and rl: "ready_linked s" and t: "tasks s t = Some d"
    and site: "bitmap_site (cfg s) (unat (cur_prio d)) d"
    and nr: "only_running t s"
  obtains s' where "switch_to t s = Some s'" and "sched_inv s'" and "os_running_task s' = Some t"
    and "tasks s' = (tasks s)(t \<mapsto> set_stat KTASK_RUNNING (d\<lparr>sched_link := None\<rparr>))"
    and "KTaskOsAssignLockNest s' = KTaskOsAssignLockNest s" and "isr_count s' = isr_count s"
    and "cfg s' = cfg s"
proof -
  note i = ready_invD[OF inv]
  have p: "unat (cur_prio d) < KTASK_PRIORITY_MAX (cfg s)" using i(5)[OF t] by (simp add: task_inv_def task_ok_def)
  let ?s = "s\<lparr>lists := unlinked_lists s t d, tasks := (tasks s)(t \<mapsto> d\<lparr>sched_link := None\<rparr>),
     os_assign_read_vector := cleared_rv s t d\<rparr>"
  have "ready_inv ?s"
    by (rule KTaskOsAssignRemoveKTask_inv[OF inv t KTaskOsAssignRemoveKTask_effect[OF t p]])
  moreover have "task_inv (cfg ?s) (set_stat KTASK_RUNNING (d\<lparr>sched_link := None\<rparr>))"
    using p site by (simp add: task_inv_def task_ok_def)
  ultimately have r: "ready_inv (?s\<lparr>tasks := (tasks ?s)(t \<mapsto> set_stat KTASK_RUNNING (d\<lparr>sched_link := None\<rparr>))\<rparr>)"
    by (intro ready_inv_task_upd[where d = "d\<lparr>sched_link := None\<rparr>"]) simp_all
  define s' where "s' = ?s\<lparr>tasks := (tasks ?s)(t \<mapsto> set_stat KTASK_RUNNING (d\<lparr>sched_link := None\<rparr>)),
    os_running_task := Some t\<rparr>"
  have "ready_inv s'" using r by (simp add: s'_def)
  then have "sched_inv s'"
    using rl nr
    by (auto simp: sched_inv_def s'_def ready_linked_def only_running_def Judge_StatGet KTaskStatGet_set_stat)
  then show thesis
    using switch_to_effect[OF t p] by (intro that[of s']) (simp_all add: s'_def)
qed

subsection \<open>The scheduler runs the highest priority\<close>

text \<open>The running task is in the running state and no ready task has a higher priority.\<close>

definition runs_highest :: "'a kernel_scheme \<Rightarrow> bool" where
  "runs_highest s \<longleftrightarrow> (\<exists>r d. os_running_task s = Some r \<and> tasks s r = Some d \<and> JudgeKTaskStatIsRunning d \<and>
     (\<forall>t e. tasks s t = Some e \<and> JudgeKTaskStatIsReady e \<longrightarrow> unat (cur_prio e) \<le> unat (cur_prio d)))"

lemma ready_le_highest:
  assumes "ready_inv s" and "ready_linked s" and "tasks s t = Some e" and "JudgeKTaskStatIsReady e"
  shows "unat (cur_prio e) \<le> highest_prio (os_assign_read_vector s)"
  using assms ready_nonempty[OF assms(1,3)] by (auto simp: ready_linked_def)

lemma KTaskOsAssign_switch_eq:
  assumes "os_running_task s = Some r"
  shows "KTaskOsAssign_switch b t s = (if t \<noteq> r
     then do { s \<leftarrow> (if b then KTaskInsertToReadyVector r else Some)
                    (s\<lparr>current_priority := word_of_nat (highest_prio (os_assign_read_vector s))\<rparr>);
               switch_to t s }
     else switch_to t s)"
proof -
  have "s\<lparr>lists := l, tasks := ts, os_assign_read_vector := rv, os_running_task := Some r\<rparr> =
      s\<lparr>lists := l, tasks := ts, os_assign_read_vector := rv\<rparr>" for l ts rv
    using assms by simp
  then have "do { s \<leftarrow> KTaskOsAssignRemoveKTask r s; KTaskStatSetAsRunning r s } = switch_to r s"
    using assms
    by (auto simp: switch_to_def KTaskOsAssignRemoveKTask_def sched_link_rm_def KTaskStatSetAsRunning_def
        KTaskStateSet_def upd_task_def RestoreCpusLockStatus_def Let_def
        split: Option.bind_splits option.splits)
  then show ?thesis using assms by (simp add: KTaskOsAssign_switch_def switch_to_def)
qed

lemma switch_preempt:
  assumes inv: "sched_inv s" and r: "os_running_task s = Some r"
    and d: "tasks s r = Some d" and run: "JudgeKTaskStatIsRunning d"
    and t: "tasks s t = Some e" "sched_link e = Some (ReadyVector (highest_prio (os_assign_read_vector s)))"
      "unat (cur_prio e) = highest_prio (os_assign_read_vector s)" "JudgeKTaskStatIsReady e"
      "bitmap_site (cfg s) (highest_prio (os_assign_read_vector s)) e"
  obtains s' where "KTaskOsAssign_switch True t s = Some s'" and "sched_inv s'"
    and "unat (cur_prio d) \<le> highest_prio (os_assign_read_vector s) \<Longrightarrow> runs_highest s'"
    and "os_running_task s' = Some t" and "tasks s' r =
      Some ((set_stat KTASK_READY d)\<lparr>sched_link := Some (ReadyVector (unat (cur_prio d)))\<rparr>)"
    and "KTaskOsAssignLockNest s' = KTaskOsAssignLockNest s" and "isr_count s' = isr_count s"
proof -
  note v = sched_invD[OF inv]
  let ?s1 = "s\<lparr>current_priority := word_of_nat (highest_prio (os_assign_read_vector s))\<rparr>"
  have unl: "sched_link d = None" using v(3)[OF d run] by simp
  then have tr: "t \<noteq> r" using t(1,2) d by auto
  have ti: "task_inv (cfg s) d" using ready_invD(5)[OF v(1) d] .
  then have site: "bitmap_site (cfg s) (unat (cur_prio d)) d"
    and p: "unat (cur_prio d) < KTASK_PRIORITY_MAX (cfg s)"
    using run by (auto simp: task_inv_def task_ok_def Judge_StatGet)
  obtain s2 where s2: "KTaskInsertToReadyVector r ?s1 = Some s2"
    and ts: "tasks s2 = (tasks s)(r \<mapsto> (set_stat KTASK_READY d)\<lparr>sched_link := Some (ReadyVector (unat (cur_prio d)))\<rparr>)"
    and fr: "cfg s2 = cfg s" "KTaskOsAssignLockNest s2 = KTaskOsAssignLockNest s" "isr_count s2 = isr_count s"
    using KTaskInsertToReadyVector_effect[of ?s1 r d] d unl p by auto
  have i2: "ready_inv s2"
    by (rule KTaskInsertToReadyVector_inv[OF _ _ unl _ s2]) (use v(1) d site in simp_all)
  have l2: "ready_linked s2" using v(2) by (auto simp: ready_linked_def ts)
  have t2: "tasks s2 t = Some e" using ts tr t(1) by simp
  have site2: "bitmap_site (cfg s2) (unat (cur_prio e)) e" using t(3,5) fr(1) by simp
  have nr: "only_running t s2"
    using v(3) r ts by (auto simp: only_running_def Judge_StatGet KTaskStatGet_set_stat)
  obtain s' where s': "switch_to t s2 = Some s'" "sched_inv s'" "os_running_task s' = Some t"
    "tasks s' = (tasks s2)(t \<mapsto> set_stat KTASK_RUNNING (e\<lparr>sched_link := None\<rparr>))"
    "KTaskOsAssignLockNest s' = KTaskOsAssignLockNest s2" "isr_count s' = isr_count s2"
    using switch_to_inv[OF i2 l2 t2 site2 nr] by blast
  have "runs_highest s'" if "unat (cur_prio d) \<le> highest_prio (os_assign_read_vector s)"
    using s'(3,4) ts that t(3) ready_le_highest[OF v(1,2)]
    by (auto simp: runs_highest_def Judge_StatGet KTaskStatGet_set_stat)
  moreover have "KTaskOsAssign_switch True t s = Some s'"
    using tr s2 s'(1) by (simp add: KTaskOsAssign_switch_eq[OF r])
  ultimately show thesis using that[of s'] s' fr ts tr by simp
qed

lemma KTaskOsAssign_select_correct:
  assumes inv: "sched_inv s" and r: "os_running_task s = Some r"
  obtains s' where "KTaskOsAssign_select s = Some s'" and "sched_inv s'"
    and "KTaskOsAssignLockNest s' = KTaskOsAssignLockNest s" and "isr_count s' = isr_count s"
    and "\<not> JudgeAssignReadyBitmapIsEmpty (os_assign_read_vector s) \<or>
      (\<exists>d. tasks s r = Some d \<and> JudgeKTaskStatIsRunning d) \<Longrightarrow> runs_highest s'"
proof -
  note v = sched_invD[OF inv]
  obtain d where d: "tasks s r = Some d" using v(4)[OF r] by blast
  show thesis
  proof (cases "JudgeAssignReadyBitmapIsEmpty (os_assign_read_vector s)")
    case True
    have "runs_highest s" if "JudgeKTaskStatIsRunning d"
    proof -
      have "\<not> JudgeKTaskStatIsReady e" if "tasks s t = Some e" for t e
      proof -
        have "sched_link e \<noteq> Some (ReadyVector p)" for p
          using ready_nonempty[OF v(1) that] bitmap_empty_iff[OF v(1)] True by blast
        then show ?thesis using v(2) that unfolding ready_linked_def by blast
      qed
      then show ?thesis using r d that by (auto simp: runs_highest_def)
    qed
    then show thesis using True that[of s] inv d by (simp add: KTaskOsAssign_select_def)
  next
    case ne: False
    let ?h = "highest_prio (os_assign_read_vector s)"
    obtain t e where ch: "ChooseTaskWithHighestPrio s = Some t" and t: "tasks s t = Some e"
      "sched_link e = Some (ReadyVector ?h)" "unat (cur_prio e) = ?h" "JudgeKTaskStatIsReady e"
      "bitmap_site (cfg s) ?h e"
      using choose_ready[OF v(1) ne] .
    note le = ready_le_highest[OF v(1,2)]
    show thesis
    proof (cases "JudgeKTaskStatIsRunning d")
      case run: False
      define s1 where "s1 = (if t \<noteq> r then s\<lparr>current_priority := word_of_nat ?h\<rparr> else s)"
      have ts: "tasks s1 = tasks s" "cfg s1 = cfg s" "KTaskOsAssignLockNest s1 = KTaskOsAssignLockNest s"
        "isr_count s1 = isr_count s" by (simp_all add: s1_def)
      have "ready_inv s1" "ready_linked s1" using v(1,2) by (auto simp: s1_def ready_linked_def)
      moreover have "only_running t s1" using v(3) r d run by (auto simp: only_running_def ts)
      moreover have "tasks s1 t = Some e" "bitmap_site (cfg s1) (unat (cur_prio e)) e"
        using t ts by simp_all
      ultimately obtain s' where s': "switch_to t s1 = Some s'" "sched_inv s'" "os_running_task s' = Some t"
        "tasks s' = (tasks s1)(t \<mapsto> set_stat KTASK_RUNNING (e\<lparr>sched_link := None\<rparr>))"
        "KTaskOsAssignLockNest s' = KTaskOsAssignLockNest s1" "isr_count s' = isr_count s1"
        using switch_to_inv by blast
      have "runs_highest s'"
        using s'(3,4) le t ts by (auto simp: runs_highest_def Judge_StatGet KTaskStatGet_set_stat)
      moreover have "KTaskOsAssign_select s = Some s'"
        using ne ch r d run s'(1)
        by (auto simp: KTaskOsAssign_select_def KTaskOsAssign_switch_eq[OF r] Let_def s1_def split: if_splits)
      ultimately show thesis using that[of s'] s' ts by simp
    next
      case run: True
      show thesis
      proof (cases "?h < unat (cur_prio d)")
        case True
        have "runs_highest s" using r d run le True by (fastforce simp: runs_highest_def)
        moreover have "KTaskOsAssign_select s = Some s"
          using ne ch r d run True by (simp add: KTaskOsAssign_select_def Let_def)
        ultimately show thesis using that[of s] inv by blast
      next
        case False
        then obtain s' where "KTaskOsAssign_switch True t s = Some s'" "sched_inv s'" "runs_highest s'"
          "KTaskOsAssignLockNest s' = KTaskOsAssignLockNest s" "isr_count s' = isr_count s"
          using switch_preempt[OF inv r d run t] by auto
        then show thesis using that[of s'] ne ch r d run False
          by (simp add: KTaskOsAssign_select_def Let_def)
      qed
    qed
  qed
qed

lemma YieldOsAssign_eq:
  assumes ne: "\<not> JudgeAssignReadyBitmapIsEmpty (os_assign_read_vector s)"
    and ch: "ChooseTaskWithHighestPrio s = Some t" "t \<noteq> r"
    and r: "os_running_task s = Some r" and d: "tasks s r = Some d" "sched_link d = None"
      "unat (cur_prio d) < KTASK_PRIORITY_MAX (cfg s)"
    and run: "JudgeKTaskStatIsRunning d" and lock: "GetOsAssignLockLevel s = 0" "\<not> isInIsr s"
  shows "YieldOsAssign s = map_option (Pair EOK) (KTaskOsAssign_switch True t s)"
proof -
  let ?cp = "word_of_nat (highest_prio (os_assign_read_vector s)) :: uint8"
  have "policy_order (s'\<lparr>current_priority := ?cp\<rparr>) u e xs = policy_order s' u e xs" for s' u e xs
    by (simp add: policy_order_def split: sched_policy.splits)
  then have "KTaskInsertToReadyVector r (s\<lparr>current_priority := ?cp\<rparr>) =
      map_option (current_priority_update (\<lambda>_. ?cp)) (KTaskInsertToReadyVector r s)"
    using d by (simp add: KTaskInsertToReadyVector_def KTaskStatSetAsReady_def KTaskStateSet_eq
        AssignPolicyInsert_effect policy_order_def split: sched_policy.splits)
  then show ?thesis using assms
    by (cases "KTaskInsertToReadyVector r s")
      (simp_all add: YieldOsAssign_def KTaskOsAssign_switch_eq[OF r] switch_to_def Let_def
        option.map_comp comp_def map_option_case split: Option.bind_splits)
qed

subsection \<open>Changes that do not concern scheduling\<close>

lemma sched_inv_frame [simp]:
  "sched_inv (s\<lparr>current_priority := cp\<rparr>) = sched_inv s"
  "sched_inv (s\<lparr>isr_switch_trigger_flag := b\<rparr>) = sched_inv s" "sched_inv (s\<lparr>KTaskOsAssignLockNest := n\<rparr>) = sched_inv s"
  "sched_inv (s\<lparr>isr_count := m\<rparr>) = sched_inv s" "sched_inv (s\<lparr>heartbeat_ticks := tk\<rparr>) = sched_inv s"
  "sched_inv (s\<lparr>xiaoshan_delay_head := dl\<rparr>) = sched_inv s" "sched_inv (s\<lparr>xiaoshan_task_head := th\<rparr>) = sched_inv s"
  "sched_inv (s\<lparr>k_task_id_manager := im\<rparr>) = sched_inv s" "sched_inv (s\<lparr>global_exstatus := ge\<rparr>) = sched_inv s"
  by (simp_all add: sched_inv_def)

definition sched_part :: "TaskDescriptor \<Rightarrow> uint8 \<times> uint8 \<times> lhead option \<times> uint8 \<times> uint8 \<times> uint32" where
  "sched_part d = (stat d, cur_prio d, sched_link d, bitmap_offset d, bitmap_row d, bitmap_column d)"

lemma sched_part_eqD:
  assumes "sched_part d' = sched_part d"
  shows "KTaskStatGet d' = KTaskStatGet d" "sched_link d' = sched_link d" "cur_prio d' = cur_prio d"
    "bitmap_site c p d' = bitmap_site c p d" "bitmap_zero d' = bitmap_zero d" "task_inv c d' = task_inv c d"
  using assms by (auto simp: sched_part_def KTaskStatGet_def bitmap_site_def bitmap_zero_def task_inv_def
      task_ok_def Judge_StatGet)

lemma ready_inv_same:
  assumes "ready_inv s" and "tasks s t = Some d" and "sched_part d' = sched_part d"
  shows "ready_inv (s\<lparr>tasks := (tasks s)(t \<mapsto> d')\<rparr>)"
  using ready_inv_task_upd[OF assms(1,2), of d'] ready_invD(5)[OF assms(1,2)] sched_part_eqD[OF assms(3)]
  by simp

lemma sched_inv_same:
  assumes "sched_inv s" and "tasks s t = Some d" and "sched_part d' = sched_part d"
  shows "sched_inv (s\<lparr>tasks := (tasks s)(t \<mapsto> d')\<rparr>)"
  using ready_inv_same[OF sched_invD(1)[OF assms(1)] assms(2,3)] sched_part_eqD[OF assms(3)] assms(1,2)
  unfolding sched_inv_def by (auto simp: Judge_StatGet)

subsection \<open>What scheduling leaves alone\<close>

text \<open>
  The scheduler changes lists, ready vector, current priority, running task and switch request, and
  of a task only its state and its link. \<open>sched_step\<close> states this for a whole operation.
\<close>

definition nsched :: "TaskDescriptor \<Rightarrow> TaskDescriptor" where
  "nsched d = d\<lparr>stat := 0, sched_link := None\<rparr>"

definition sched_step :: "'a kernel_scheme \<Rightarrow> 'a kernel_scheme \<Rightarrow> bool" where
  "sched_step s s' \<longleftrightarrow> cfg s' = cfg s \<and> KTaskOsAssignLockNest s' = KTaskOsAssignLockNest s \<and>
     isr_count s' = isr_count s \<and> heartbeat_ticks s' = heartbeat_ticks s \<and>
     xiaoshan_delay_head s' = xiaoshan_delay_head s \<and> xiaoshan_task_head s' = xiaoshan_task_head s \<and>
     k_task_id_manager s' = k_task_id_manager s \<and> zombie_recycle s' = zombie_recycle s \<and>
     global_exstatus s' = global_exstatus s \<and> kernel.more s' = kernel.more s \<and>
     (\<forall>t. map_option nsched (tasks s' t) = map_option nsched (tasks s t))"

lemma sched_step_refl [simp]: "sched_step s s"
  by (simp add: sched_step_def)

lemma sched_step_trans [trans]: "sched_step s s' \<Longrightarrow> sched_step s' s'' \<Longrightarrow> sched_step s s''"
  by (simp add: sched_step_def)

lemma nsched_upd [simp]:
  "nsched (set_stat st d) = nsched d" "nsched (d\<lparr>sched_link := l\<rparr>) = nsched d" "nsched (d\<lparr>stat := x\<rparr>) = nsched d"
  by (simp_all add: nsched_def set_stat_def)

lemma sched_step_fields:
  assumes "sched_step s s'"
  shows "cfg s' = cfg s" "KTaskOsAssignLockNest s' = KTaskOsAssignLockNest s" "isr_count s' = isr_count s"
    "heartbeat_ticks s' = heartbeat_ticks s" "xiaoshan_delay_head s' = xiaoshan_delay_head s"
    "xiaoshan_task_head s' = xiaoshan_task_head s" "k_task_id_manager s' = k_task_id_manager s"
    "zombie_recycle s' = zombie_recycle s" "global_exstatus s' = global_exstatus s" "kernel.more s' = kernel.more s"
    "map_option nsched (tasks s' t) = map_option nsched (tasks s t)"
  using assms by (auto simp: sched_step_def)

lemma sched_step_tasks:
  assumes "s' = s\<lparr>tasks := (tasks s)(t \<mapsto> d')\<rparr>" and "tasks s t = Some d" and "nsched d' = nsched d"
  shows "sched_step s s'"
  using assms by (auto simp: sched_step_def)

lemma sched_step_other [simp]:
  "sched_step s (s\<lparr>os_assign_read_vector := rv\<rparr>)" "sched_step s (s\<lparr>current_priority := cp\<rparr>)"
  "sched_step s (s\<lparr>os_running_task := r\<rparr>)" "sched_step s (s\<lparr>isr_switch_trigger_flag := f\<rparr>)"
  "sched_step s (s\<lparr>lists := L\<rparr>)"
  by (simp_all add: sched_step_def)

lemma KTaskStateSet_step: "KTaskStateSet t st s = Some s' \<Longrightarrow> sched_step s s'"
  by (auto simp: KTaskStateSet_def upd_task_def split: option.splits intro: sched_step_tasks)

lemma sched_link_rm_step:
  assumes "sched_link_rm t s = Some s'"
  shows "sched_step s s'"
proof -
  obtain d where d: "tasks s t = Some d" using assms by (auto simp: sched_link_rm_def bind_eq_Some_conv)
  show ?thesis using sched_link_rm_effect[OF d] assms d by (auto simp: sched_step_def)
qed

lemma sched_link_insert_step:
  assumes "sched_link_insert l ins t s = Some s'"
  shows "sched_step s s'"
proof -
  obtain d where d: "tasks s t = Some d"
    and s': "s' = s\<lparr>lists := (lists s)(l := ins (lists s l)), tasks := (tasks s)(t \<mapsto> d\<lparr>sched_link := Some l\<rparr>)\<rparr>"
    using assms by (auto simp: sched_link_insert_def bind_eq_Some_conv split: if_splits)
  show ?thesis using d s' by (auto simp: sched_step_def)
qed

lemma AssignPolicyInsert_step:
  assumes "AssignPolicyInsert t s = Some s'"
  shows "sched_step s s'"
proof -
  obtain d s1 where d: "tasks s t = Some d"
    and ins: "sched_step s s1"
    and s': "s' = s1 \<or> (\<exists>rv. s' = s1\<lparr>os_assign_read_vector := rv\<rparr>)"
    using assms
    by (auto simp: AssignPolicyInsert_def FifoReadyVectorInsert_def RoundRobinReadyVectorInsert_def
        RoundRobinRemainReadyVectorInsert_def sched_link_back_def sched_link_when_def Let_def
        bind_eq_Some_conv split: if_splits sched_policy.splits dest!: sched_link_insert_step)
  then show ?thesis using sched_step_other(1) sched_step_trans by blast
qed

lemma KTaskInsertToReadyVector_step:
  assumes "KTaskInsertToReadyVector t s = Some s'"
  shows "sched_step s s'"
proof -
  obtain s1 s2 rv where "KTaskStateSet t KTASK_READY s = Some s1" "AssignPolicyInsert t s1 = Some s2"
    "s' = s2\<lparr>os_assign_read_vector := rv\<rparr>"
    using assms by (auto simp: KTaskInsertToReadyVector_def KTaskStatSetAsReady_def bind_eq_Some_conv)
  then show ?thesis
    using KTaskStateSet_step AssignPolicyInsert_step sched_step_other(1) sched_step_trans by metis
qed

lemma KTaskOsAssignRemoveKTask_step:
  assumes "KTaskOsAssignRemoveKTask t s = Some s'"
  shows "sched_step s s'"
proof -
  obtain s1 where "sched_link_rm t s = Some s1" "s' = s1 \<or> (\<exists>rv. s' = s1\<lparr>os_assign_read_vector := rv\<rparr>)"
    using assms by (auto simp: KTaskOsAssignRemoveKTask_def Let_def bind_eq_Some_conv split: if_splits)
  then show ?thesis using sched_link_rm_step sched_step_other(1) sched_step_trans by blast
qed

lemma switch_to_step:
  assumes "switch_to t s = Some s'"
  shows "sched_step s s'"
proof -
  obtain s1 s2 where "KTaskOsAssignRemoveKTask t s = Some s1" "KTaskStateSet t KTASK_RUNNING s1 = Some s2"
    and s': "s' = s2\<lparr>os_running_task := Some t\<rparr>"
    using assms by (auto simp: switch_to_def KTaskStatSetAsRunning_def RestoreCpusLockStatus_def bind_eq_Some_conv)
  then have "sched_step s s1" "sched_step s1 s2"
    using KTaskOsAssignRemoveKTask_step KTaskStateSet_step by blast+
  then show ?thesis unfolding s' using sched_step_trans sched_step_other(3) by blast
qed

lemma KTaskOsAssign_select_step:
  assumes "KTaskOsAssign_select s = Some s'"
  shows "sched_step s s'"
proof (cases "JudgeAssignReadyBitmapIsEmpty (os_assign_read_vector s)")
  case True
  then show ?thesis using assms by (simp add: KTaskOsAssign_select_def)
next
  case False
  then obtain b t r where r: "os_running_task s = Some r" and sw: "KTaskOsAssign_switch b t s = Some s' \<or> s' = s"
    using assms by (auto simp: KTaskOsAssign_select_def Let_def bind_eq_Some_conv split: if_splits)
  let ?s = "s\<lparr>current_priority := word_of_nat (highest_prio (os_assign_read_vector s))\<rparr>"
  consider "s' = s" | "switch_to t s = Some s'" | "switch_to t ?s = Some s'"
    | s1 where "KTaskInsertToReadyVector r ?s = Some s1" "switch_to t s1 = Some s'"
    using sw by (auto simp: KTaskOsAssign_switch_eq[OF r] bind_eq_Some_conv split: if_splits)
  then show ?thesis
  proof cases
    case 3
    then show ?thesis using switch_to_step sched_step_trans[OF sched_step_other(2)] by blast
  next
    case 4
    then have "sched_step ?s s1" "sched_step s1 s'"
      using KTaskInsertToReadyVector_step switch_to_step by blast+
    then show ?thesis using sched_step_trans sched_step_other(2) by blast
  qed (use switch_to_step in auto)
qed

lemma DO_KTASK_ASSIGN_step: "DO_KTASK_ASSIGN s = Some s' \<Longrightarrow> sched_step s s'"
  by (auto simp: DO_KTASK_ASSIGN_def KTaskOsAssign_def split: if_splits dest: KTaskOsAssign_select_step)

subsection \<open>A concrete kernel\<close>

text \<open>An idle task running at priority 0 and a ready task of priority 5, to instantiate the properties.\<close>

definition demo_task :: "uint8 \<Rightarrow> uint8 \<Rightarrow> lhead option \<Rightarrow> nat \<Rightarrow> TaskDescriptor" where
  "demo_task prio st l i = \<lparr>stat = st, advance_cnt = 0, cur_prio = prio, origin_timeslice = 10, rest_timeslice = 10,
     sched_link = l, bitmap_offset = 0, bitmap_row = 0, bitmap_column = push_bit (unat prio) 1, delay = None,
     task_name = ''task'', func_entry = 0, func_param = 0, origin_prio = prio, stack_depth = 256, stack_start = 4096,
     event_id_trigger = 0, event_mode = 0, exstatus = 0, task_id = i\<rparr>"

definition demo_kernel :: "'a \<Rightarrow> 'a kernel_scheme" where
  "demo_kernel m = \<lparr>cfg = \<lparr>KTASK_PRIORITY_MAX = 32, SCHED_POLICY = SCHED_POLICY_RR_REMAINSLICE,
       TICK_PER_SECOND = 100, ID_NUM_MAX = 128\<rparr>,
     tasks = [10 \<mapsto> demo_task 0 KTASK_RUNNING None 0, 20 \<mapsto> demo_task 5 KTASK_READY (Some (ReadyVector 5)) 3],
     lists = (\<lambda>_. [])(ReadyVector 5 := [20]),
     os_assign_read_vector = \<lparr>priority_ready_group = push_bit 5 1, ready_vector = replicate 32 0, highest_prio = 5\<rparr>,
     os_running_task = Some 10, current_priority = 0, KTaskOsAssignLockNest = 0, isr_count = 0,
     isr_switch_trigger_flag = False, heartbeat_ticks = 0, xiaoshan_delay_head = [],
     xiaoshan_task_head = [20, 10], k_task_id_manager = [0 \<mapsto> 10, 3 \<mapsto> 20], zombie_recycle = 3,
     global_exstatus = 0, \<dots> = m\<rparr>"

lemma demo_stat [simp]:
  "KTaskStatGet (demo_task p KTASK_RUNNING l i) = KTASK_RUNNING"
  "KTaskStatGet (demo_task p KTASK_READY l i) = KTASK_READY"
  by (simp_all add: KTaskStatGet_def demo_task_def)

lemma demo_sched_inv: "sched_inv (demo_kernel m)"
proof -
  let ?g = "push_bit 5 1 :: uint32"
  have bits: "bit ?g p \<longleftrightarrow> p = 5" for p by (rule bit_shift1) simp
  then have "PrioCaculate ?g = 5" by (intro PrioCaculate_eq) (simp add: highest_bit_def del: push_bit_of_1)
  then have "rv_inv (demo_kernel m)"
    by (simp add: rv_inv_def demo_kernel_def rv_ok_def rv_mem_def HIGHEST_READY_def bits del: push_bit_of_1)
  moreover have "links_inv (demo_kernel m)"
    by (auto simp: links_inv_def demo_kernel_def demo_task_def split: if_splits)
  ultimately show ?thesis
    by (auto simp: sched_inv_def ready_inv_def demo_kernel_def task_inv_def task_ok_def Judge_StatGet
        bitmap_site_def split: if_splits) (auto simp: demo_task_def)
qed

lemma demo_simps:
  "os_running_task (demo_kernel m) = Some 10" "GetOsAssignLockLevel (demo_kernel m) = 0" "\<not> isInIsr (demo_kernel m)"
  "tasks (demo_kernel m) 10 = Some (demo_task 0 KTASK_RUNNING None 0)"
  "tasks (demo_kernel m) 20 = Some (demo_task 5 KTASK_READY (Some (ReadyVector 5)) 3)"
  "lists (demo_kernel m) (ReadyVector 5) = [20]"
  "\<not> JudgeAssignReadyBitmapIsEmpty (os_assign_read_vector (demo_kernel m))"
  by (simp_all add: demo_kernel_def GetOsAssignLockLevel_def isInIsr_def JudgeAssignReadyBitmapIsEmpty_def
      demo_task_def)

subsection \<open>Properties\<close>

text \<open>C1: A scheduling point outside every critical area succeeds and keeps the invariant of ready
  lists, bitmap and task states. Inside an interrupt it only requests a switch. Otherwise, as soon
  as some task is ready or running, the running task afterwards is in the running state and no ready
  task has a higher priority.\<close>

theorem KTaskOsAssign_correct:
  assumes "sched_inv s" and "os_running_task s = Some r" and "GetOsAssignLockLevel s = 0"
  shows "\<exists>s'. DO_KTASK_ASSIGN s = Some s' \<and> sched_inv s' \<and>
    (if isInIsr s then s' = s\<lparr>isr_switch_trigger_flag := True\<rparr>
     else (\<exists>t d. tasks s t = Some d \<and> (JudgeKTaskStatIsReady d \<or> JudgeKTaskStatIsRunning d)) \<longrightarrow>
            runs_highest s')"
proof (cases "isInIsr s")
  case True
  then show ?thesis using assms by (auto simp: DO_KTASK_ASSIGN_def KTaskOsAssign_def sched_inv_def)
next
  case False
  note v = sched_invD[OF assms(1)]
  obtain s' where s': "KTaskOsAssign_select s = Some s'" "sched_inv s'"
    and h: "\<not> JudgeAssignReadyBitmapIsEmpty (os_assign_read_vector s) \<or>
      (\<exists>d. tasks s r = Some d \<and> JudgeKTaskStatIsRunning d) \<Longrightarrow> runs_highest s'"
    using KTaskOsAssign_select_correct[OF assms(1,2)] by blast
  have "runs_highest s'" if t: "tasks s t = Some d" "JudgeKTaskStatIsReady d \<or> JudgeKTaskStatIsRunning d" for t d
  proof (cases "JudgeKTaskStatIsReady d")
    case True
    then obtain p where "sched_link d = Some (ReadyVector p)" using v(2) t by (auto simp: ready_linked_def)
    then have "\<not> JudgeAssignReadyBitmapIsEmpty (os_assign_read_vector s)"
      using ready_nonempty[OF v(1) t(1)] bitmap_empty_iff[OF v(1)] by blast
    then show ?thesis using h by blast
  next
    case False
    then show ?thesis using t v(3)[OF t(1)] assms(2) h by auto
  qed
  then show ?thesis using s' False assms(3) by (auto simp: DO_KTASK_ASSIGN_def KTaskOsAssign_def)
qed

theorem KTaskOsAssign_correct_witness:
  "\<exists>s'. DO_KTASK_ASSIGN (demo_kernel ()) = Some s' \<and> sched_inv s' \<and> runs_highest s'"
proof -
  have "JudgeKTaskStatIsRunning (demo_task 0 KTASK_RUNNING None 0)" by (simp add: Judge_StatGet)
  then show ?thesis
    using KTaskOsAssign_correct[OF demo_sched_inv demo_simps(1,2), of "()"] demo_simps(3,4)[of "()"] by auto
qed



text \<open>C8: Inserting an unlinked task into the ready vector and removing any task from it keep the
  agreement between bitmap, highest priority and ready lists; the inserted task becomes ready and is
  added to the list of its priority, and the stored highest priority is that of the bitmap search.\<close>

theorem ready_vector_correct:
  assumes "ready_inv s" and "tasks s t = Some d"
  shows "\<exists>s1. KTaskOsAssignRemoveKTask t s = Some s1 \<and> ready_inv s1 \<and>
      tasks s1 t = Some (d\<lparr>sched_link := None\<rparr>) \<and> (\<forall>l. t \<notin> set (lists s1 l)) \<and>
      (bitmap_site (cfg s) (unat (cur_prio d)) d \<longrightarrow>
        (\<exists>s2. KTaskInsertToReadyVector t s1 = Some s2 \<and> ready_inv s2 \<and>
          mset (lists s2 (ReadyVector (unat (cur_prio d)))) =
            add_mset t (mset (lists s1 (ReadyVector (unat (cur_prio d))))) \<and>
          highest_prio (os_assign_read_vector s2) =
            max (unat (cur_prio d)) (highest_prio (os_assign_read_vector s1))))"
proof -
  have p: "unat (cur_prio d) < KTASK_PRIORITY_MAX (cfg s)"
    using ready_invD(5)[OF assms] by (simp add: task_inv_def task_ok_def)
  define s1 where "s1 = s\<lparr>lists := unlinked_lists s t d, tasks := (tasks s)(t \<mapsto> d\<lparr>sched_link := None\<rparr>),
     os_assign_read_vector := cleared_rv s t d\<rparr>"
  have rm: "KTaskOsAssignRemoveKTask t s = Some s1"
    unfolding s1_def by (rule KTaskOsAssignRemoveKTask_effect[OF assms(2) p])
  have i1: "ready_inv s1" by (rule KTaskOsAssignRemoveKTask_inv[OF assms rm])
  have t1: "tasks s1 t = Some (d\<lparr>sched_link := None\<rparr>)" by (simp add: s1_def)
  then have "\<forall>l. t \<notin> set (lists s1 l)" using links_invD(2)[OF ready_invD(1)[OF i1]] by simp
  moreover have "\<exists>s2. KTaskInsertToReadyVector t s1 = Some s2 \<and> ready_inv s2 \<and>
      mset (lists s2 (ReadyVector (unat (cur_prio d)))) =
        add_mset t (mset (lists s1 (ReadyVector (unat (cur_prio d))))) \<and>
      highest_prio (os_assign_read_vector s2) =
        max (unat (cur_prio d)) (highest_prio (os_assign_read_vector s1))"
    if site: "bitmap_site (cfg s) (unat (cur_prio d)) d"
  proof -
    obtain s2 xs where s2: "KTaskInsertToReadyVector t s1 = Some s2"
      and xs: "mset xs = add_mset t (mset (lists s1 (ReadyVector (unat (cur_prio d)))))"
        "lists s2 = (lists s1)(ReadyVector (unat (cur_prio d)) := xs)"
        "highest_prio (os_assign_read_vector s2) =
          max (unat (cur_prio d)) (highest_prio (os_assign_read_vector s1))"
      using KTaskInsertToReadyVector_effect[OF t1] p by (auto simp: s1_def)
    have "ready_inv s2"
      by (rule KTaskInsertToReadyVector_inv[OF i1 t1 _ _ s2]) (use site in \<open>simp_all add: s1_def\<close>)
    then show ?thesis using s2 xs by simp
  qed
  ultimately show ?thesis using rm i1 t1 by blast
qed

theorem ready_vector_correct_witness:
  "\<exists>s1. KTaskOsAssignRemoveKTask 20 (demo_kernel ()) = Some s1 \<and> ready_inv s1 \<and>
     (\<exists>s2. KTaskInsertToReadyVector 20 s1 = Some s2 \<and> ready_inv s2)"
  using ready_vector_correct[OF sched_invD(1)[OF demo_sched_inv] demo_simps(5), of "()"]
  by (auto simp: bitmap_site_def demo_kernel_def demo_task_def)

text \<open>C30: A task that yields while another task is ready goes back to the ready list of its
  priority and the task at the head of the highest ready list runs, with the invariant kept.\<close>

theorem YieldOsAssign_correct:
  assumes "sched_inv s" and "os_running_task s = Some r" and "tasks s r = Some d"
    and "JudgeKTaskStatIsRunning d" and "GetOsAssignLockLevel s = 0" and "\<not> isInIsr s"
    and "\<not> JudgeAssignReadyBitmapIsEmpty (os_assign_read_vector s)"
  shows "\<exists>s' t. YieldOsAssign s = Some (EOK, s') \<and> sched_inv s' \<and>
    ChooseTaskWithHighestPrio s = Some t \<and> os_running_task s' = Some t \<and> t \<noteq> r \<and>
    r \<in> set (lists s' (ReadyVector (unat (cur_prio d))))"
proof -
  note v = sched_invD[OF assms(1)]
  have unl: "sched_link d = None" using v(3)[OF assms(3,4)] by simp
  have p: "unat (cur_prio d) < KTASK_PRIORITY_MAX (cfg s)"
    using ready_invD(5)[OF v(1) assms(3)] by (simp add: task_inv_def task_ok_def)
  obtain t e where ch: "ChooseTaskWithHighestPrio s = Some t" and t: "tasks s t = Some e"
    "sched_link e = Some (ReadyVector (highest_prio (os_assign_read_vector s)))"
    "unat (cur_prio e) = highest_prio (os_assign_read_vector s)" "JudgeKTaskStatIsReady e"
    "bitmap_site (cfg s) (highest_prio (os_assign_read_vector s)) e"
    using choose_ready[OF v(1) assms(7)] .
  have tr: "t \<noteq> r" using t unl assms(3) by auto
  obtain s' where s': "KTaskOsAssign_switch True t s = Some s'" "sched_inv s'" "os_running_task s' = Some t"
    "tasks s' r = Some ((set_stat KTASK_READY d)\<lparr>sched_link := Some (ReadyVector (unat (cur_prio d)))\<rparr>)"
    using switch_preempt[OF assms(1-4) t] by blast
  have "r \<in> set (lists s' (ReadyVector (unat (cur_prio d))))"
    using links_invD(2)[OF ready_invD(1)[OF sched_invD(1)[OF s'(2)]]] s'(4) by simp
  then show ?thesis
    using YieldOsAssign_eq[OF assms(7) ch tr assms(2,3) unl p assms(4,5,6)] s' ch tr by simp
qed

theorem YieldOsAssign_correct_witness:
  "\<exists>s'. YieldOsAssign (demo_kernel ()) = Some (EOK, s') \<and> os_running_task s' = Some 20"
proof -
  have "ChooseTaskWithHighestPrio (demo_kernel ()) = Some 20"
    by (simp add: ChooseTaskWithHighestPrio_def demo_kernel_def)
  moreover have "JudgeKTaskStatIsRunning (demo_task 0 KTASK_RUNNING None 0)" by (simp add: Judge_StatGet)
  ultimately show ?thesis
    using YieldOsAssign_correct[OF demo_sched_inv demo_simps(1,4), of "()"] demo_simps(2,3,7)[of "()"] by auto
qed

end
