(* ===== verification/Delay.thy ===== *)
theory Delay
  imports Assign
begin

text \<open>
  Task delays (\<^verbatim>\<open>kernel/thread/delay.c\<close>): the list of delayed tasks ordered by wake-up tick. The
  \<^verbatim>\<open>struct Delay\<close> of a task is part of its descriptor here and its link node is named by the task;
  whether \<^verbatim>\<open>x_malloc\<close> finds memory for it is an argument.
\<close>

definition CurrentTicksGain :: "'a kernel_scheme \<Rightarrow> x_ticks_t" where
  "CurrentTicksGain s = heartbeat_ticks s"

definition delay_link_rm :: "tid \<Rightarrow> 'a kernel_scheme \<Rightarrow> 'a kernel_scheme" where
  "delay_link_rm t s = s\<lparr>xiaoshan_delay_head := removeAll t (xiaoshan_delay_head s)\<rparr>"

definition delay_after :: "(tid \<rightharpoonup> TaskDescriptor) \<Rightarrow> x_ticks_t \<Rightarrow> tid \<Rightarrow> bool" where
  "delay_after ts ticks u = (case ts u of None \<Rightarrow> False | Some d \<Rightarrow>
     (case delay d of None \<Rightarrow> False | Some dl \<Rightarrow> ticks < delay_ticks dl))"

definition KTaskSetDelay :: "bool \<Rightarrow> tid \<Rightarrow> x_ticks_t \<Rightarrow> 'a kernel_scheme \<Rightarrow> (x_err_t \<times> 'a kernel_scheme) option" where
  "KTaskSetDelay mem t ticks s = do { d \<leftarrow> tasks s t;
     let r = (case delay d of
         None \<Rightarrow> if mem then Some (\<lparr>delay_ticks = 0, delay_status = False\<rparr>, s) else None
       | Some dl \<Rightarrow>
          (let s = CriticalAreaLock s;
               (dl, s) = (if delay_status dl then (dl\<lparr>delay_status := False\<rparr>, delay_link_rm t s) else (dl, s))
           in Some (dl, CriticalAreaUnLock s)));
     case r of None \<Rightarrow> Some (- ENOMEMORY, s)
     | Some (dl, s) \<Rightarrow> do {
         let dl = dl\<lparr>delay_ticks := CurrentTicksGain s + ticks, delay_status := True\<rparr>;
         s \<leftarrow> upd_task t (\<lambda>d. d\<lparr>delay := Some dl\<rparr>) s;
         let s = CriticalAreaLock s;
         let s = s\<lparr>xiaoshan_delay_head :=
                     insert_when (delay_after (tasks s) (delay_ticks dl)) t (xiaoshan_delay_head s)\<rparr>;
         Some (EOK, CriticalAreaUnLock s) } }"

definition KTaskUnSetDelay :: "tid \<Rightarrow> 'a kernel_scheme \<Rightarrow> (x_err_t \<times> 'a kernel_scheme) option" where
  "KTaskUnSetDelay t s = do { d \<leftarrow> tasks s t;
     case delay d of None \<Rightarrow> Some (EOK, s)
     | Some dl \<Rightarrow>
        if delay_status dl then do {
          let s = CriticalAreaLock s;
          s \<leftarrow> upd_task t (\<lambda>d. d\<lparr>delay := Some (dl\<lparr>delay_status := False\<rparr>)\<rparr>) s;
          let s = delay_link_rm t s;
          Some (EOK, CriticalAreaUnLock s) }
        else Some (EOK, s) }"

subsection \<open>The delay list\<close>

definition delayed :: "TaskDescriptor \<Rightarrow> bool" where
  "delayed d = (case delay d of None \<Rightarrow> False | Some dl \<Rightarrow> delay_status dl)"

definition delay_inv :: "'a kernel_scheme \<Rightarrow> bool" where
  "delay_inv s \<longleftrightarrow> distinct (xiaoshan_delay_head s) \<and>
     (\<forall>t. t \<in> set (xiaoshan_delay_head s) \<longleftrightarrow> (\<exists>d. tasks s t = Some d \<and> delayed d))"

definition wake_tick :: "(tid \<rightharpoonup> TaskDescriptor) \<Rightarrow> tid \<Rightarrow> x_ticks_t" where
  "wake_tick ts t = (case ts t of Some d \<Rightarrow> (case delay d of Some dl \<Rightarrow> delay_ticks dl | None \<Rightarrow> 0) | None \<Rightarrow> 0)"

definition delay_sorted :: "'a kernel_scheme \<Rightarrow> bool" where
  "delay_sorted s \<longleftrightarrow> sorted (map (wake_tick (tasks s)) (xiaoshan_delay_head s))"

lemma Delay_upd_all [simp]:
  "dl\<lparr>delay_ticks := a, delay_status := b\<rparr> = \<lparr>delay_ticks = a, delay_status = b\<rparr>"
  by (cases dl) simp

lemma lock_nest_id [simp]: "s\<lparr>KTaskOsAssignLockNest := KTaskOsAssignLockNest s\<rparr> = s"
  by simp

lemma delayed_upd [simp]:
  "\<not> delayed (d\<lparr>delay := map_option (\<lambda>dl. dl\<lparr>delay_status := False\<rparr>) x\<rparr>)"
  "delayed (d\<lparr>delay := Some dl\<rparr>) = delay_status dl" "delayed (d\<lparr>sched_link := l\<rparr>) = delayed d"
  "delayed (set_stat st d) = delayed d"
  by (auto simp: delayed_def split: option.splits)

lemma KTaskUnSetDelay_effect:
  assumes "tasks s t = Some d" and "delay_inv s"
  shows "KTaskUnSetDelay t s = Some (EOK, s\<lparr>
     tasks := (tasks s)(t \<mapsto> d\<lparr>delay := map_option (\<lambda>dl. dl\<lparr>delay_status := False\<rparr>) (delay d)\<rparr>),
     xiaoshan_delay_head := removeAll t (xiaoshan_delay_head s)\<rparr>)"
proof (cases "delayed d")
  case True
  then show ?thesis using assms(1)
    by (auto simp: delayed_def KTaskUnSetDelay_def upd_task_def CriticalAreaLock_def CriticalAreaUnLock_def
        delay_link_rm_def split: option.splits)
next
  case False
  then have "t \<notin> set (xiaoshan_delay_head s)" using assms by (auto simp: delay_inv_def)
  moreover have "d\<lparr>delay := map_option (\<lambda>dl. dl\<lparr>delay_status := False\<rparr>) (delay d)\<rparr> = d"
    using False by (cases "delay d") (auto simp: delayed_def)
  ultimately show ?thesis using False assms(1)
    by (auto simp: delayed_def KTaskUnSetDelay_def fun_upd_idem split: option.splits)
qed

lemma KTaskUnSetDelay_delay_inv:
  assumes "tasks s t = Some d" and "delay_inv s" and "KTaskUnSetDelay t s = Some (r, s')"
  shows "delay_inv s'"
  using assms KTaskUnSetDelay_effect[OF assms(1,2)]
  by (auto simp: delay_inv_def distinct_removeAll split: if_splits)

lemma delay_after_upd:
  assumes "t \<notin> set xs"
  shows "insert_when (delay_after (ts(t \<mapsto> d)) x) t xs = insert_when (delay_after ts x) t xs"
  using assms by (intro insert_when_cong) (auto simp: delay_after_def)

lemma KTaskSetDelay_effect:
  fixes ticks :: x_ticks_t
  assumes "tasks s t = Some d" and "delay_inv s" and "mem \<or> delay d \<noteq> None"
  defines "tk \<equiv> heartbeat_ticks s + ticks"
  shows "KTaskSetDelay mem t ticks s = Some (EOK, s\<lparr>
     tasks := (tasks s)(t \<mapsto> d\<lparr>delay := Some \<lparr>delay_ticks = tk, delay_status = True\<rparr>\<rparr>),
     xiaoshan_delay_head := insert_when (delay_after (tasks s) tk) t (removeAll t (xiaoshan_delay_head s))\<rparr>)"
proof -
  have nin: "t \<notin> set (xiaoshan_delay_head s)" if "\<not> delayed d"
    using that assms(1,2) by (auto simp: delay_inv_def)
  show ?thesis
  proof (cases "delay d")
    case None
    then show ?thesis using assms(1,3) nin
      by (simp add: KTaskSetDelay_def upd_task_def CriticalAreaLock_def CriticalAreaUnLock_def
          CurrentTicksGain_def tk_def delayed_def delay_after_upd)
  next
    case (Some dl)
    then show ?thesis using assms(1) nin
      by (cases "delay_status dl")
        (simp_all add: KTaskSetDelay_def upd_task_def CriticalAreaLock_def CriticalAreaUnLock_def
          CurrentTicksGain_def tk_def delayed_def delay_link_rm_def delay_after_upd)
  qed
qed

lemma KTaskSetDelay_delay_inv:
  assumes "tasks s t = Some d" and "delay_inv s" and "KTaskSetDelay mem t ticks s = Some (r, s')"
  shows "delay_inv s'"
proof (cases "mem \<or> delay d \<noteq> None")
  case True
  then show ?thesis using assms KTaskSetDelay_effect[OF assms(1,2) True, of ticks]
    by (auto simp: delay_inv_def distinct_removeAll split: if_splits)
next
  case False
  then show ?thesis using assms by (auto simp: KTaskSetDelay_def)
qed

lemma KTaskUnSetDelay_sched_inv:
  assumes "sched_inv s" and "tasks s t = Some d" and "delay_inv s" and "KTaskUnSetDelay t s = Some (r, s')"
  shows "sched_inv s'"
proof -
  have "sched_inv (s\<lparr>tasks := (tasks s)(t \<mapsto> d\<lparr>delay := map_option (\<lambda>dl. dl\<lparr>delay_status := False\<rparr>) (delay d)\<rparr>)\<rparr>)"
    using assms(1,2) by (rule sched_inv_same) (simp add: sched_part_def)
  then show ?thesis using KTaskUnSetDelay_effect[OF assms(2,3)] assms(4) by auto
qed

lemma KTaskSetDelay_sched_inv:
  assumes "sched_inv s" and "tasks s t = Some d" and "delay_inv s" and "KTaskSetDelay mem t ticks s = Some (r, s')"
  shows "sched_inv s'"
proof (cases "mem \<or> delay d \<noteq> None")
  case True
  have "sched_inv (s\<lparr>tasks := (tasks s)(t \<mapsto> d\<lparr>delay := Some x\<rparr>)\<rparr>)" for x
    using assms(1,2) by (rule sched_inv_same) (simp add: sched_part_def)
  then show ?thesis using KTaskSetDelay_effect[OF assms(2,3) True, of ticks] assms(4) by auto
next
  case False
  then show ?thesis using assms by (auto simp: KTaskSetDelay_def)
qed

text \<open>The list stays ordered by wake-up tick.\<close>

lemma sorted_insert_when:
  fixes f :: "'a \<Rightarrow> 'b :: linorder"
  assumes "sorted (map f xs)"
  shows "sorted (map f (insert_when (\<lambda>x. f n < f x) n xs))"
proof -
  let ?us = "takeWhile (\<lambda>x. \<not> f n < f x) xs" and ?vs = "dropWhile (\<lambda>x. \<not> f n < f x) xs"
  have s: "sorted (map f ?us @ map f ?vs)" using assms by (simp flip: map_append)
  have us: "\<forall>x \<in> set ?us. f x \<le> f n" by (auto dest: set_takeWhileD)
  have vs: "\<forall>x \<in> set ?vs. f n \<le> f x"
  proof (cases ?vs)
    case (Cons v vs)
    then have "f n < f v" using hd_dropWhile[of "\<lambda>x. \<not> f n < f x" xs] by simp
    moreover have "\<forall>x \<in> set vs. f v \<le> f x" using s Cons by (simp add: sorted_append)
    ultimately show ?thesis using Cons by auto
  next
    case Nil
    show ?thesis unfolding Nil by simp
  qed
  show ?thesis using s us vs unfolding insert_when_def
    by (auto simp: sorted_append)
qed

lemma KTaskSetDelay_sorted:
  assumes "tasks s t = Some d" and "delay_inv s" and "delay_sorted s"
    and "KTaskSetDelay mem t ticks s = Some (EOK, s')" and "mem \<or> delay d \<noteq> None"
  shows "delay_sorted s'"
proof -
  define ts where "ts = (tasks s)(t \<mapsto> d\<lparr>delay := Some \<lparr>delay_ticks = heartbeat_ticks s + ticks, delay_status = True\<rparr>\<rparr>)"
  let ?xs = "removeAll t (xiaoshan_delay_head s)"
  have s': "s' = s\<lparr>tasks := ts, xiaoshan_delay_head := insert_when (delay_after (tasks s) (heartbeat_ticks s + ticks)) t ?xs\<rparr>"
    using KTaskSetDelay_effect[OF assms(1,2,5), of ticks] assms(4) by (simp add: ts_def)
  have wt: "wake_tick ts t = heartbeat_ticks s + ticks" by (simp add: ts_def wake_tick_def)
  have other: "wake_tick ts u = wake_tick (tasks s) u" if "u \<noteq> t" for u
    using that by (simp add: ts_def wake_tick_def)
  have aft: "delay_after (tasks s) (heartbeat_ticks s + ticks) u = (wake_tick ts t < wake_tick ts u)" if "u \<in> set ?xs" for u
  proof -
    have "u \<in> set (xiaoshan_delay_head s)" "u \<noteq> t" using that by auto
    then obtain e where "tasks s u = Some e" "delayed e" using assms(2) by (auto simp: delay_inv_def)
    then show ?thesis using other[OF \<open>u \<noteq> t\<close>] wt
      by (auto simp: delay_after_def wake_tick_def delayed_def split: option.splits)
  qed
  have so: "sorted (map (wake_tick (tasks s)) ?xs)"
    using assms(3) unfolding delay_sorted_def removeAll_filter_not_eq by (rule sorted_filter)
  have mp: "map (wake_tick ts) ?xs = map (wake_tick (tasks s)) ?xs"
    using other by (intro map_cong) auto
  have "sorted (map (wake_tick ts) ?xs)" unfolding mp by (rule so)
  then have "sorted (map (wake_tick ts) (insert_when (\<lambda>u. wake_tick ts t < wake_tick ts u) t ?xs))"
    by (rule sorted_insert_when)
  moreover have "insert_when (delay_after (tasks s) (heartbeat_ticks s + ticks)) t ?xs =
      insert_when (\<lambda>u. wake_tick ts t < wake_tick ts u) t ?xs"
    by (rule insert_when_cong) (rule aft)
  ultimately show ?thesis by (simp add: delay_sorted_def s')
qed

end
