(* ===== verification/Tick.thy ===== *)
theory Tick
  imports Prelude
begin

text \<open>
  The conversions between milliseconds and ticks of \<^verbatim>\<open>kernel/thread/tick.c\<close>. The product with
  \<^verbatim>\<open>TICK_PER_SECOND\<close> is computed in 32 bits before the cast to \<^verbatim>\<open>uint64\<close>, so it wraps.
\<close>

definition MIN_TICKS :: x_ticks_t where "MIN_TICKS = 1"

definition CalculteTickFromTimeMs :: "uint32 \<Rightarrow> uint32 \<Rightarrow> x_ticks_t" where
  "CalculteTickFromTimeMs tps ms =
     (let ticks = (ms * tps) div 1000 in
      if ticks = 0 then MIN_TICKS
      else (let tmp = (ms * tps) mod 1000 in
            if 5 \<le> tmp \<and> tmp \<le> 9 then ticks + MIN_TICKS else ticks))"

definition CalculteTimeMsFromTick :: "uint32 \<Rightarrow> x_ticks_t \<Rightarrow> uint32" where
  "CalculteTimeMsFromTick tps ticks = (ticks * 1000) div tps"

lemma unat_mult_small: "unat (a :: uint32) * unat b < 2 ^ 32 \<Longrightarrow> unat (a * b) = unat a * unat b"
  by (simp add: unat_word_ariths)

lemma unat_add_one: "unat (w :: uint32) + 1 < 2 ^ 32 \<Longrightarrow> unat (w + 1) = unat w + 1"
  by (simp add: unat_word_ariths)

lemma ticks_positive: "0 < CalculteTickFromTimeMs tps ms"
proof -
  have "(ms * tps) div 1000 + 1 \<noteq> 0"
  proof -
    have "unat ((ms * tps) div 1000) < 2 ^ 32 - 1"
      using unsigned_less[of "ms * tps", where 'a = nat] by (simp add: unat_div)
    then have "unat ((ms * tps) div 1000 + 1) = unat ((ms * tps) div 1000) + 1"
      by (simp add: unat_word_ariths)
    then show ?thesis by (metis One_nat_def add_is_0 one_neq_zero unsigned_0)
  qed
  then show ?thesis by (auto simp: CalculteTickFromTimeMs_def MIN_TICKS_def Let_def word_gt_0)
qed

subsection \<open>Properties\<close>



text \<open>C33: Beyond 32 bits the product wraps: at 100 ticks per second a delay of 42949673 ms (almost
  twelve hours) is converted to a single tick, and a timeout of 0 ms is converted to one tick, so no
  time given in milliseconds converts to zero ticks.\<close>

theorem CalculteTickFromTimeMs_wraps:
  "CalculteTickFromTimeMs 100 42949673 = 1 \<and> CalculteTickFromTimeMs tps 0 = 1 \<and>
   (\<forall>ms. CalculteTickFromTimeMs tps ms \<noteq> 0)"
proof -
  have "(42949673 * 100 :: uint32) = 4" by simp
  then have "CalculteTickFromTimeMs 100 42949673 = 1"
    by (simp add: CalculteTickFromTimeMs_def Let_def MIN_TICKS_def)
  moreover have "CalculteTickFromTimeMs tps ms \<noteq> 0" for ms
    using ticks_positive[of tps ms] by (metis less_irrefl)
  moreover have "CalculteTickFromTimeMs tps 0 = 1"
    by (simp add: CalculteTickFromTimeMs_def MIN_TICKS_def)
  ultimately show ?thesis by blast
qed

end
