(* ===== verification/KTask.thy ===== *)
theory KTask
  imports Delay Tick
begin

text \<open>
  The task operations of \<^verbatim>\<open>kernel/thread/ktask.c\<close> in the single-core configuration. A call that
  switches away from the calling task in the middle of its body is split: the definition named
  after the C function runs up to and including \<^verbatim>\<open>DO_KTASK_ASSIGN\<close> and returns \<open>Wait\<close>, and the
  \<open>_resume\<close> definition is the rest, which runs once the task is the running task again. The
  addresses that \<^verbatim>\<open>KERNEL_MALLOC\<close> returns are arguments (\<open>None\<close> when it fails). The hooks and the
  architecture's \<^verbatim>\<open>KTaskStackSetup\<close> touch no state of this model.
\<close>

datatype outcome = Ret x_err_t | Wait

definition NAME_NUM_MAX :: nat where "NAME_NUM_MAX = 32"
definition INVALID_TASK_ERROR :: x_err_t where "INVALID_TASK_ERROR = 11"

definition zero_task :: TaskDescriptor where
  "zero_task = \<lparr>stat = 0, advance_cnt = 0, cur_prio = 0, origin_timeslice = 0, rest_timeslice = 0,
     sched_link = None, bitmap_offset = 0, bitmap_row = 0, bitmap_column = 0, delay = None, task_name = [],
     func_entry = 0, func_param = 0, origin_prio = 0, stack_depth = 0, stack_start = 0,
     event_id_trigger = 0, event_mode = 0, exstatus = 0, task_id = 0\<rparr>"

text \<open>\<^verbatim>\<open>strncmp\<close> of two strings without NUL characters, as a test for equality.\<close>

definition strncmp_eq :: "string \<Rightarrow> string \<Rightarrow> nat \<Rightarrow> bool" where
  "strncmp_eq a b n \<longleftrightarrow> take n a = take n b"

definition KTaskIdDelete :: "int \<Rightarrow> 'a kernel_scheme \<Rightarrow> 'a kernel_scheme" where
  "KTaskIdDelete i s = s\<lparr>k_task_id_manager := id_del (k_task_id_manager s) i\<rparr>"

definition GetTaskWithIdnodeInfo :: "int \<Rightarrow> 'a kernel_scheme \<Rightarrow> tid option" where
  "GetTaskWithIdnodeInfo i s = (if i < 0 then None else id_get (k_task_id_manager s) i)"

definition KTaskResourceDelete :: "tid \<Rightarrow> 'a kernel_scheme \<Rightarrow> 'a kernel_scheme option" where
  "KTaskResourceDelete t s = do { s \<leftarrow> KTaskOsAssignRemoveKTask t s; KTaskStatSetAsClose t s }"

definition JudgeKTaskIsIdleOrZombierecycle :: "TaskDescriptor \<Rightarrow> bool" where
  "JudgeKTaskIsIdleOrZombierecycle d \<longleftrightarrow>
     strncmp_eq (task_name d) ''ktaskidle0'' 10 \<or> strncmp_eq (task_name d) ''ktaskidle1'' 10 \<or>
     strncmp_eq (task_name d) ''ZombieRecycleKTask'' 18"

fun KTaskSearch_loop :: "string \<Rightarrow> 'a kernel_scheme \<Rightarrow> tid list \<Rightarrow> tid option option" where
  "KTaskSearch_loop name s [] = Some None"
| "KTaskSearch_loop name s (t # ts) = (case tasks s t of None \<Rightarrow> None
     | Some d \<Rightarrow> if strncmp_eq (task_name d) name NAME_NUM_MAX then Some (Some t)
                else KTaskSearch_loop name s ts)"

definition KTaskSearch :: "string \<Rightarrow> 'a kernel_scheme \<Rightarrow> tid option option" where
  "KTaskSearch name s = KTaskSearch_loop name s (xiaoshan_task_head s)"

subsection \<open>Suspending and waking\<close>

definition do_SuspendKTask :: "tid \<Rightarrow> 'a kernel_scheme \<Rightarrow> (x_err_t \<times> 'a kernel_scheme) option" where
  "do_SuspendKTask t s = do { d \<leftarrow> tasks s t;
     if GetKTaskDescriptor s \<noteq> Some t then Some (- ERROR, s)
     else if \<not> JudgeKTaskStatIsReady d \<and> \<not> JudgeKTaskStatIsRunning d then Some (- ERROR, s)
     else if JudgeKTaskStatIsSuspend d then Some (- ERROR, s)
     else do {
       let s = CriticalAreaLock s;
       s \<leftarrow> KTaskOsAssignRemoveKTask t s;
       s \<leftarrow> KTaskStateSet t KTASK_SUSPEND s;
       (_, s) \<leftarrow> KTaskUnSetDelay t s;
       Some (EOK, CriticalAreaUnLock s) } }"

definition SuspendKTask :: "int \<Rightarrow> 'a kernel_scheme \<Rightarrow> (x_err_t \<times> 'a kernel_scheme) option" where
  "SuspendKTask i s = do { t \<leftarrow> GetTaskWithIdnodeInfo i s; do_SuspendKTask t s }"

definition do_KTaskWakeup :: "tid \<Rightarrow> 'a kernel_scheme \<Rightarrow> (x_err_t \<times> 'a kernel_scheme) option" where
  "do_KTaskWakeup t s = do { d \<leftarrow> tasks s t;
     if \<not> JudgeKTaskStatIsSuspend d then Some (- ERROR, s)
     else do {
       let s = CriticalAreaLock s;
       s \<leftarrow> sched_link_rm t s;
       (_, s) \<leftarrow> KTaskUnSetDelay t s;
       s \<leftarrow> KTaskInsertToReadyVector t s;
       Some (EOK, CriticalAreaUnLock s) } }"

definition KTaskWakeup :: "int \<Rightarrow> 'a kernel_scheme \<Rightarrow> (x_err_t \<times> 'a kernel_scheme) option" where
  "KTaskWakeup i s = do { t \<leftarrow> GetTaskWithIdnodeInfo i s; do_KTaskWakeup t s }"

definition KTaskTimeout :: "tid \<Rightarrow> 'a kernel_scheme \<Rightarrow> 'a kernel_scheme option" where
  "KTaskTimeout t s = do { d \<leftarrow> tasks s t;
     let s = CriticalAreaLock s;
     if JudgeKTaskStatIsSuspend d then do {
       s \<leftarrow> upd_task t (\<lambda>d. d\<lparr>exstatus := - ETIMEOUT\<rparr>) s;
       s \<leftarrow> sched_link_rm t s;
       s \<leftarrow> KTaskInsertToReadyVector t s;
       let s = CriticalAreaUnLock s;
       DO_KTASK_ASSIGN s }
     else Some (CriticalAreaUnLock s) }"

subsection \<open>Delays\<close>

definition do_DelayKTask :: "bool \<Rightarrow> tid \<Rightarrow> x_ticks_t \<Rightarrow> 'a kernel_scheme \<Rightarrow> (outcome \<times> 'a kernel_scheme) option" where
  "do_DelayKTask mem t ticks s =
     (if ticks = 0 then Some (Ret (- EINVALED), s)
      else do {
        let s = CriticalAreaLock s;
        d \<leftarrow> tasks s t;
        (_, s) \<leftarrow> SuspendKTask (int (task_id d)) s;
        (_, s) \<leftarrow> KTaskSetDelay mem t ticks s;
        let s = CriticalAreaUnLock s;
        s \<leftarrow> DO_KTASK_ASSIGN s;
        Some (Wait, s) })"

definition do_DelayKTask_resume :: "tid \<Rightarrow> 'a kernel_scheme \<Rightarrow> (x_err_t \<times> 'a kernel_scheme) option" where
  "do_DelayKTask_resume t s = do {
     s \<leftarrow> upd_task t (\<lambda>d. if exstatus d = - ETIMEOUT then d\<lparr>exstatus := EOK\<rparr> else d) s;
     Some (EOK, s) }"

definition DelayKTask :: "bool \<Rightarrow> x_ticks_t \<Rightarrow> 'a kernel_scheme \<Rightarrow> (outcome \<times> 'a kernel_scheme) option" where
  "DelayKTask mem ticks s =
     (if ticks = 0 then Some (Ret (- EINVALED), s)
      else case GetKTaskDescriptor s of None \<Rightarrow> Some (Ret (- EEMPTY), s)
      | Some t \<Rightarrow> do_DelayKTask mem t ticks s)"

definition do_MdelayKTask :: "bool \<Rightarrow> tid \<Rightarrow> uint32 \<Rightarrow> 'a kernel_scheme \<Rightarrow> (outcome \<times> 'a kernel_scheme) option" where
  "do_MdelayKTask mem t ms s =
     (if ms = 0 then Some (Ret (- EINVALED), s)
      else do_DelayKTask mem t (CalculteTickFromTimeMs (TICK_PER_SECOND (cfg s)) ms) s)"

definition MdelayKTask :: "bool \<Rightarrow> uint32 \<Rightarrow> 'a kernel_scheme \<Rightarrow> (outcome \<times> 'a kernel_scheme) option" where
  "MdelayKTask mem ms s =
     (if ms = 0 then Some (Ret (- EINVALED), s)
      else case GetKTaskDescriptor s of None \<Rightarrow> Some (Ret (- EEMPTY), s)
      | Some t \<Rightarrow> do_MdelayKTask mem t ms s)"

subsection \<open>Priorities\<close>

definition do_KTaskPrioSet :: "tid \<Rightarrow> uint8 \<Rightarrow> 'a kernel_scheme \<Rightarrow> (x_err_t \<times> 'a kernel_scheme) option" where
  "do_KTaskPrioSet t prio s = do { d \<leftarrow> tasks s t;
     let s = CriticalAreaLock s;
     if strncmp_eq ''ktaskidle'' (task_name d) 9 then Some (- ERROR, CriticalAreaUnLock s)
     else if KTaskStatGet d = KTASK_READY then do {
       s \<leftarrow> upd_task t (\<lambda>d. d\<lparr>cur_prio := prio\<rparr>) s;
       s \<leftarrow> KTaskOsAssignRemoveKTask t s;
       s \<leftarrow> BitmapSiteMask t s;
       s \<leftarrow> KTaskInsertToReadyVector t s;
       Some (EOK, CriticalAreaUnLock s) }
     else if KTaskStatGet d = KTASK_INIT \<or> KTaskStatGet d = KTASK_SUSPEND \<or> KTaskStatGet d = KTASK_RUNNING then do {
       s \<leftarrow> upd_task t (\<lambda>d. d\<lparr>cur_prio := prio\<rparr>) s;
       s \<leftarrow> BitmapSiteMask t s;
       Some (EOK, CriticalAreaUnLock s) }
     else if KTaskStatGet d = KTASK_CLOSE then Some (EOK, CriticalAreaUnLock s)
     else Some (- EINVALED, CriticalAreaUnLock s) }"

definition KTaskPrioSet :: "int \<Rightarrow> uint8 \<Rightarrow> 'a kernel_scheme \<Rightarrow> (x_err_t \<times> 'a kernel_scheme) option" where
  "KTaskPrioSet i prio s = do { t \<leftarrow> GetTaskWithIdnodeInfo i s; do_KTaskPrioSet t prio s }"

subsection \<open>Error status\<close>

definition KUpdateExstatus :: "x_err_t \<Rightarrow> 'a kernel_scheme \<Rightarrow> 'a kernel_scheme option" where
  "KUpdateExstatus status s =
     (if status < EOK \<or> status \<ge> INVALID_TASK_ERROR then Some s
      else if isr_count s = 0 then
        (case GetKTaskDescriptor s of
           Some t \<Rightarrow> upd_task t (\<lambda>d. d\<lparr>exstatus := - status\<rparr>) s
         | None \<Rightarrow> Some (s\<lparr>global_exstatus := - status\<rparr>))
      else Some (s\<lparr>global_exstatus := - status\<rparr>))"

definition KObtainExstatus :: "'a kernel_scheme \<Rightarrow> x_err_t option" where
  "KObtainExstatus s =
     (if isr_count s = 0 then
        (case GetKTaskDescriptor s of
           Some t \<Rightarrow> do { d \<leftarrow> tasks s t; Some (exstatus d) }
         | None \<Rightarrow> Some (global_exstatus s))
      else Some (global_exstatus s))"

subsection \<open>Starting and deleting\<close>

definition JudgeZombieKTaskIsNotEmpty :: "'a kernel_scheme \<Rightarrow> bool" where
  "JudgeZombieKTaskIsNotEmpty s \<longleftrightarrow> lists s KTaskZombie \<noteq> []"

definition KTaskQuit :: "'a kernel_scheme \<Rightarrow> 'a kernel_scheme option" where
  "KTaskQuit s = do {
     let s = CriticalAreaLock s;
     s \<leftarrow> (case GetKTaskDescriptor s of None \<Rightarrow> Some s
        | Some t \<Rightarrow> do {
            s \<leftarrow> KTaskResourceDelete t s;
            s \<leftarrow> sched_link_front KTaskZombie t s;
            if JudgeZombieKTaskIsNotEmpty s then do { (_, s) \<leftarrow> KTaskWakeup (zombie_recycle s) s; Some s }
            else Some s });
     let s = CriticalAreaUnLock s;
     DO_KTASK_ASSIGN s }"

definition do_StartupKTask :: "tid \<Rightarrow> 'a kernel_scheme \<Rightarrow> (x_err_t \<times> 'a kernel_scheme) option" where
  "do_StartupKTask t s = do {
     let s = CriticalAreaLock s;
     d \<leftarrow> tasks s t;
     if \<not> JudgeKTaskStatIsInit d then Some (- ERROR, CriticalAreaUnLock s)
     else do {
       s \<leftarrow> upd_task t (\<lambda>d. d\<lparr>cur_prio := origin_prio d\<rparr>) s;
       s \<leftarrow> BitmapSiteMask t s;
       s \<leftarrow> sched_link_rm t s;
       (_, s) \<leftarrow> KTaskUnSetDelay t s;
       s \<leftarrow> KTaskInsertToReadyVector t s;
       let s = CriticalAreaUnLock s;
       s \<leftarrow> (if GetKTaskDescriptor s \<noteq> None then DO_KTASK_ASSIGN s else Some s);
       Some (EOK, s) } }"

definition StartupKTask :: "int \<Rightarrow> 'a kernel_scheme \<Rightarrow> (x_err_t \<times> 'a kernel_scheme) option" where
  "StartupKTask i s = (if i < 0 then Some (- EINVALED, s)
     else do { t \<leftarrow> GetTaskWithIdnodeInfo i s; do_StartupKTask t s })"

definition do_DeleteKTask :: "tid \<Rightarrow> 'a kernel_scheme \<Rightarrow> (x_err_t \<times> 'a kernel_scheme) option" where
  "do_DeleteKTask t s = do { d \<leftarrow> tasks s t;
     if JudgeKTaskIsIdleOrZombierecycle d then Some (- EINVALED, s)
     else do {
       let s = CriticalAreaLock s;
       s \<leftarrow> KTaskResourceDelete t s;
       s \<leftarrow> sched_link_front KTaskZombie t s;
       s \<leftarrow> (if JudgeZombieKTaskIsNotEmpty s then do { (_, s) \<leftarrow> KTaskWakeup (zombie_recycle s) s; Some s }
             else Some s);
       let s = CriticalAreaUnLock s;
       s \<leftarrow> DO_KTASK_ASSIGN s;
       Some (EOK, s) } }"

definition KTaskDelete :: "int \<Rightarrow> 'a kernel_scheme \<Rightarrow> (x_err_t \<times> 'a kernel_scheme) option" where
  "KTaskDelete i s = (if i < 0 then Some (- EINVALED, s)
     else do { t \<leftarrow> GetTaskWithIdnodeInfo i s; do_DeleteKTask t s })"

subsection \<open>Creating\<close>

definition KTaskBaseInfoParse ::
  "nat option \<Rightarrow> tid \<Rightarrow> string \<Rightarrow> nat \<Rightarrow> nat \<Rightarrow> uint32 \<Rightarrow> uint8 \<Rightarrow> 'a kernel_scheme \<Rightarrow> (x_err_t \<times> 'a kernel_scheme) option" where
  "KTaskBaseInfoParse stk t name entry parameter depth priority s =
     (if unat priority \<ge> KTASK_PRIORITY_MAX (cfg s) then Some (- EINVALED, s)
      else case stk of None \<Rightarrow> Some (- ENOMEMORY, s)
      | Some a \<Rightarrow> do {
          s \<leftarrow> upd_task t (\<lambda>d. d\<lparr>stack_start := a, stack_depth := depth, task_name := take NAME_NUM_MAX name,
                               func_entry := entry, func_param := parameter, origin_prio := priority\<rparr>) s;
          Some (EOK, s) })"

definition KTaskDyncMemberInit :: "tid \<Rightarrow> 'a kernel_scheme \<Rightarrow> 'a kernel_scheme option" where
  "KTaskDyncMemberInit t s = do {
     s \<leftarrow> upd_task t (\<lambda>d. d\<lparr>sched_link := None, cur_prio := origin_prio d, bitmap_column := 0,
                          bitmap_offset := 0, bitmap_row := 0\<rparr>) s;
     s \<leftarrow> upd_task t (case SCHED_POLICY (cfg s) of
                       SCHED_POLICY_FIFO \<Rightarrow> FifoTaskTimesliceInit
                     | SCHED_POLICY_RR \<Rightarrow> RoundRobinTaskTimesliceInit
                     | SCHED_POLICY_RR_REMAINSLICE \<Rightarrow> RoundRobinRemainTaskTimesliceInit) s;
     s \<leftarrow> upd_task t (\<lambda>d. d\<lparr>advance_cnt := 0, exstatus := EOK\<rparr>) s;
     KTaskStatSetAsInit t s }"

definition InitKTask ::
  "nat option \<Rightarrow> tid \<Rightarrow> string \<Rightarrow> nat \<Rightarrow> nat \<Rightarrow> uint32 \<Rightarrow> uint8 \<Rightarrow> 'a kernel_scheme \<Rightarrow> (x_err_t \<times> 'a kernel_scheme) option" where
  "InitKTask stk t name entry parameter depth priority s = do {
     (ret, s) \<leftarrow> KTaskBaseInfoParse stk t name entry parameter depth priority s;
     if ret < 0 then Some (- ERROR, s)
     else do { s \<leftarrow> KTaskDyncMemberInit t s; Some (EOK, s) } }"

definition KTaskCreate ::
  "tid option \<Rightarrow> nat option \<Rightarrow> string \<Rightarrow> nat \<Rightarrow> nat \<Rightarrow> uint32 \<Rightarrow> uint8 \<Rightarrow> 'a kernel_scheme \<Rightarrow> (int \<times> 'a kernel_scheme) option" where
  "KTaskCreate mem stk name entry parameter depth priority s =
     (if isInIsr s then None
      else case mem of None \<Rightarrow> Some (- ENOMEMORY, s)
      | Some t \<Rightarrow>
         (let s = s\<lparr>tasks := (tasks s)(t \<mapsto> zero_task)\<rparr>;
              s = CriticalAreaLock s
          in case id_alloc (ID_NUM_MAX (cfg s)) (k_task_id_manager s) of
               None \<Rightarrow> Some (- ENOMEMORY, (CriticalAreaUnLock s)\<lparr>tasks := (tasks s)(t := None)\<rparr>)
             | Some i \<Rightarrow> do {
                 s \<leftarrow> upd_task t (\<lambda>d. d\<lparr>task_id := i\<rparr>) s;
                 let s = s\<lparr>k_task_id_manager := (k_task_id_manager s)(i \<mapsto> t)\<rparr>;
                 let s = s\<lparr>xiaoshan_task_head := t # xiaoshan_task_head s\<rparr>;
                 let s = CriticalAreaUnLock s;
                 (r, s) \<leftarrow> InitKTask stk t name entry parameter depth priority s;
                 if r = EOK then Some (int i, s)
                 else Some (- ERROR, s\<lparr>k_task_id_manager := id_del (k_task_id_manager s) (int i),
                                       tasks := (tasks s)(t := None)\<rparr>) }))"

subsection \<open>The invariant of the task operations\<close>

definition ids_inv :: "'a kernel_scheme \<Rightarrow> bool" where
  "ids_inv s \<longleftrightarrow> ID_NUM_MAX (cfg s) < 65536 \<and>
     (\<forall>i t. k_task_id_manager s i = Some t \<longrightarrow> i < ID_NUM_MAX (cfg s) \<and> (\<exists>d. tasks s t = Some d \<and> task_id d = i)) \<and>
     (\<forall>t d. tasks s t = Some d \<longrightarrow> k_task_id_manager s (task_id d) = Some t \<and>
        unat (origin_prio d) < KTASK_PRIORITY_MAX (cfg s))"

definition kinv :: "'a kernel_scheme \<Rightarrow> bool" where
  "kinv s \<longleftrightarrow> sched_inv s \<and> delay_inv s \<and> ids_inv s"

lemma kinvD: "kinv s \<Longrightarrow> sched_inv s" "kinv s \<Longrightarrow> delay_inv s" "kinv s \<Longrightarrow> ids_inv s"
  by (simp_all add: kinv_def)

lemma ids_inv_get:
  assumes "ids_inv s" and "tasks s t = Some d"
  shows "GetTaskWithIdnodeInfo (int (task_id d)) s = Some t"
proof -
  have "k_task_id_manager s (task_id d) = Some t" using assms by (auto simp: ids_inv_def)
  moreover from this have "task_id d < ID_NUM_MAX (cfg s)" using assms(1) by (auto simp: ids_inv_def)
  then have "task_id d < 65536" using assms(1) by (simp add: ids_inv_def)
  ultimately show ?thesis by (simp add: GetTaskWithIdnodeInfo_def id_get_def)
qed

lemma delay_inv_same:
  assumes "delay_inv s" and "tasks s t = Some d" and "delayed d' = delayed d"
    and "tasks s' = (tasks s)(t \<mapsto> d')" and "xiaoshan_delay_head s' = xiaoshan_delay_head s"
  shows "delay_inv s'"
  using assms by (auto simp: delay_inv_def split: if_splits)

lemma ids_inv_same:
  assumes "ids_inv s" and "tasks s t = Some d" and "task_id d' = task_id d" and "origin_prio d' = origin_prio d"
    and "tasks s' = (tasks s)(t \<mapsto> d')" and "k_task_id_manager s' = k_task_id_manager s" and "cfg s' = cfg s"
  shows "ids_inv s'"
proof -
  have "k_task_id_manager s i = Some t \<Longrightarrow> task_id d = i" for i
    using assms(1,2) by (force simp: ids_inv_def)
  then show ?thesis using assms by (auto simp: ids_inv_def)
qed

lemma aux_inv_frame [simp]:
  "delay_inv (s\<lparr>KTaskOsAssignLockNest := n\<rparr>) = delay_inv s" "ids_inv (s\<lparr>KTaskOsAssignLockNest := n\<rparr>) = ids_inv s"
  "kinv (s\<lparr>KTaskOsAssignLockNest := n\<rparr>) = kinv s"
  "GetTaskWithIdnodeInfo i (s\<lparr>KTaskOsAssignLockNest := n\<rparr>) = GetTaskWithIdnodeInfo i s"
  by (simp_all add: delay_inv_def ids_inv_def kinv_def GetTaskWithIdnodeInfo_def)

lemma kinv_lock [simp]: "kinv (CriticalAreaLock s) = kinv s" "kinv (CriticalAreaUnLock s) = kinv s"
  by (simp_all add: CriticalAreaLock_def CriticalAreaUnLock_def)

lemma kinv_same:
  assumes "kinv s" and "tasks s t = Some d" and "sched_part d' = sched_part d"
    and "delayed d' = delayed d" and "task_id d' = task_id d" and "origin_prio d' = origin_prio d"
  shows "kinv (s\<lparr>tasks := (tasks s)(t \<mapsto> d')\<rparr>)"
  using sched_inv_same[OF kinvD(1)[OF assms(1)] assms(2,3)] assms
    delay_inv_same[OF kinvD(2)[OF assms(1)] assms(2,4), of "s\<lparr>tasks := (tasks s)(t \<mapsto> d')\<rparr>"]
    ids_inv_same[OF kinvD(3)[OF assms(1)] assms(2,5,6), of "s\<lparr>tasks := (tasks s)(t \<mapsto> d')\<rparr>"]
  by (simp add: kinv_def)

subsection \<open>Unlinking, linking, stopping\<close>

lemma not_ready_link:
  assumes "ready_inv s" and "tasks s t = Some d" and "\<not> JudgeKTaskStatIsReady d"
  shows "sched_link d \<noteq> Some (ReadyVector p)"
  using ready_invD(5)[OF assms(1,2)] assms(3) by (auto simp: task_inv_def)

text \<open>\<open>L\<close> is \<open>A\<close> with a task taken off every list but the ready lists.\<close>

definition unpends :: "tid \<Rightarrow> (lhead, tid) lstore \<Rightarrow> (lhead, tid) lstore \<Rightarrow> bool" where
  "unpends t A L \<longleftrightarrow> (\<forall>l. (\<forall>p. l \<noteq> ReadyVector p) \<longrightarrow> L l = removeAll t (A l))"

lemma unlinked_unpends:
  assumes "links_inv s" and "tasks s t = Some d"
  shows "unpends t (lists s) (unlinked_lists s t d)"
  using links_invD(2)[OF assms(1), of t] assms(2)
  by (auto simp: unpends_def unlinked_lists_def split: option.splits)

lemma rm_sched:
  assumes inv: "sched_inv s" and t: "tasks s t = Some d" and nr: "\<not> JudgeKTaskStatIsReady d"
  shows "sched_link_rm t s = Some (s\<lparr>lists := unlinked_lists s t d,
      tasks := (tasks s)(t \<mapsto> d\<lparr>sched_link := None\<rparr>)\<rparr>)"
    and "sched_inv (s\<lparr>lists := unlinked_lists s t d, tasks := (tasks s)(t \<mapsto> d\<lparr>sched_link := None\<rparr>)\<rparr>)"
proof -
  let ?s = "s\<lparr>lists := unlinked_lists s t d, tasks := (tasks s)(t \<mapsto> d\<lparr>sched_link := None\<rparr>)\<rparr>"
  note v = sched_invD[OF inv] and i = ready_invD[OF sched_invD(1)[OF inv]]
  show rm: "sched_link_rm t s = Some ?s" by (rule sched_link_rm_effect[OF t])
  have "links_inv ?s" by (rule sched_link_rm_inv[OF i(1) rm])
  moreover have "unlinked_lists s t d (ReadyVector p) = lists s (ReadyVector p)" for p
    using not_ready_link[OF v(1) t nr] by (auto simp: unlinked_lists_def split: option.splits)
  then have "rv_inv ?s" using i(2,3,4) by (simp add: rv_inv_def)
  moreover have "\<forall>u e. tasks ?s u = Some e \<longrightarrow> task_inv (cfg ?s) e"
    using i(5) i(5)[OF t] by (auto simp: task_inv_def task_ok_def Judge_StatGet bitmap_zero_def)
  ultimately have "ready_inv ?s" unfolding ready_inv_def by blast
  then show "sched_inv ?s" using inv t nr unfolding sched_inv_def by (auto simp: Judge_StatGet)
qed

lemma insert_sched:
  assumes inv: "sched_inv s" and t: "tasks s t = Some d" "sched_link d = None"
    and site: "bitmap_site (cfg s) (unat (cur_prio d)) d"
  obtains L rv where "KTaskInsertToReadyVector t s = Some (s\<lparr>lists := L,
      tasks := (tasks s)(t \<mapsto> (set_stat KTASK_READY d)\<lparr>sched_link := Some (ReadyVector (unat (cur_prio d)))\<rparr>),
      os_assign_read_vector := rv\<rparr>)"
    and "sched_inv (s\<lparr>lists := L,
      tasks := (tasks s)(t \<mapsto> (set_stat KTASK_READY d)\<lparr>sched_link := Some (ReadyVector (unat (cur_prio d)))\<rparr>),
      os_assign_read_vector := rv\<rparr>)"
    and "\<forall>l. (\<forall>p. l \<noteq> ReadyVector p) \<longrightarrow> L l = lists s l"
proof -
  note v = sched_invD[OF inv] and i = ready_invD[OF sched_invD(1)[OF inv]]
  have p: "unat (cur_prio d) < KTASK_PRIORITY_MAX (cfg s)" using i(5)[OF t(1)] by (simp add: task_inv_def task_ok_def)
  obtain xs where ins: "KTaskInsertToReadyVector t s = Some (s\<lparr>
     lists := (lists s)(ReadyVector (unat (cur_prio d)) := xs),
     tasks := (tasks s)(t \<mapsto> (set_stat KTASK_READY d)\<lparr>sched_link := Some (ReadyVector (unat (cur_prio d)))\<rparr>),
     os_assign_read_vector := (MERGE_READY (cfg s) d (os_assign_read_vector s))\<lparr>highest_prio :=
       max (unat (cur_prio d)) (highest_prio (os_assign_read_vector s))\<rparr>\<rparr>)" (is "_ = Some ?s")
    using KTaskInsertToReadyVector_effect[OF t p] by auto
  have "ready_inv ?s" by (rule KTaskInsertToReadyVector_inv[OF v(1) t site ins])
  then have "sched_inv ?s"
    using inv unfolding sched_inv_def by (auto simp: Judge_StatGet KTaskStatGet_set_stat)
  then show thesis using that[OF ins] by simp
qed

lemma stop_sched:
  assumes inv: "sched_inv s" and t: "tasks s t = Some d"
    and st: "st = KTASK_SUSPEND \<and> bitmap_site (cfg s) (unat (cur_prio d)) d \<or> st = KTASK_CLOSE"
  obtains L rv where "do { s \<leftarrow> KTaskOsAssignRemoveKTask t s; KTaskStateSet t st s } =
      Some (s\<lparr>lists := L, tasks := (tasks s)(t \<mapsto> set_stat st (d\<lparr>sched_link := None\<rparr>)), os_assign_read_vector := rv\<rparr>)"
    and "sched_inv (s\<lparr>lists := L, tasks := (tasks s)(t \<mapsto> set_stat st (d\<lparr>sched_link := None\<rparr>)), os_assign_read_vector := rv\<rparr>)"
    and "unpends t (lists s) L"
proof -
  note v = sched_invD[OF inv] and i = ready_invD[OF sched_invD(1)[OF inv]]
  let ?d = "d\<lparr>sched_link := None\<rparr>"
  have ti: "task_inv (cfg s) d" using i(5)[OF t] .
  then have p: "unat (cur_prio d) < KTASK_PRIORITY_MAX (cfg s)" by (simp add: task_inv_def task_ok_def)
  note rm = KTaskOsAssignRemoveKTask_effect[OF t p]
  let ?s = "s\<lparr>lists := unlinked_lists s t d, tasks := (tasks s)(t \<mapsto> ?d), os_assign_read_vector := cleared_rv s t d\<rparr>"
  have "ready_inv ?s" by (rule KTaskOsAssignRemoveKTask_inv[OF v(1) t rm])
  moreover have "task_inv (cfg ?s) (set_stat st ?d)"
    using ti st by (auto simp: task_inv_def task_ok_def Judge_StatGet KTaskStatGet_set_stat bitmap_zero_def)
  ultimately have "ready_inv (?s\<lparr>tasks := (tasks ?s)(t \<mapsto> set_stat st ?d)\<rparr>)"
    by (intro ready_inv_task_upd[where d = ?d]) simp_all
  then have "ready_inv (s\<lparr>lists := unlinked_lists s t d, tasks := (tasks s)(t \<mapsto> set_stat st ?d),
      os_assign_read_vector := cleared_rv s t d\<rparr>)" (is "ready_inv ?s'")
    by (rule back_subst[of ready_inv]) simp
  then have "sched_inv ?s'"
    using inv st unfolding sched_inv_def by (auto simp: Judge_StatGet KTaskStatGet_set_stat)
  moreover have "do { s \<leftarrow> KTaskOsAssignRemoveKTask t s; KTaskStateSet t st s } = Some ?s'"
    using rm by (simp add: KTaskStateSet_eq)
  ultimately show thesis using that unlinked_unpends[OF i(1) t] by blast
qed

subsection \<open>Waking and suspending\<close>

abbreviation undelay :: "TaskDescriptor \<Rightarrow> TaskDescriptor" where
  "undelay d \<equiv> d\<lparr>delay := map_option (\<lambda>dl. dl\<lparr>delay_status := False\<rparr>) (delay d)\<rparr>"

definition ready_desc :: "TaskDescriptor \<Rightarrow> TaskDescriptor" where
  "ready_desc d = (set_stat KTASK_READY d)\<lparr>sched_link := Some (ReadyVector (unat (cur_prio d)))\<rparr>"

lemma ready_desc_simps [simp]:
  "KTaskStatGet (ready_desc d) = KTASK_READY" "cur_prio (ready_desc d) = cur_prio d"
  "delayed (ready_desc d) = delayed d" "task_id (ready_desc d) = task_id d" "exstatus (ready_desc d) = exstatus d"
  "sched_link (ready_desc d) = Some (ReadyVector (unat (cur_prio d)))" "task_name (ready_desc d) = task_name d"
  "event_id_trigger (ready_desc d) = event_id_trigger d" "event_mode (ready_desc d) = event_mode d"
  "bitmap_site c p (ready_desc d) = bitmap_site c p d" "delay (ready_desc d) = delay d"
  "origin_prio (ready_desc d) = origin_prio d"
  by (simp_all add: ready_desc_def KTaskStatGet_set_stat)

lemma task_site:
  assumes "ready_inv s" and "tasks s t = Some d" and "\<not> JudgeKTaskStatIsInit d" and "\<not> JudgeKTaskStatIsClose d"
  shows "bitmap_site (cfg s) (unat (cur_prio d)) d"
  using ready_invD(5)[OF assms(1,2)] assms(3,4) by (auto simp: task_inv_def task_ok_def)

text \<open>Unlinking a task from the list it waits on, ending its delay and making it ready.\<close>

lemma wake_steps:
  assumes inv: "kinv s" and t: "tasks s t = Some d" and nr: "\<not> JudgeKTaskStatIsReady d"
    and site: "bitmap_site (cfg s) (unat (cur_prio d)) d"
  obtains L rv where "do { s \<leftarrow> sched_link_rm t s; (_, s) \<leftarrow> KTaskUnSetDelay t s; KTaskInsertToReadyVector t s } =
      Some (s\<lparr>lists := L, tasks := (tasks s)(t \<mapsto> ready_desc (undelay d)), os_assign_read_vector := rv,
              xiaoshan_delay_head := removeAll t (xiaoshan_delay_head s)\<rparr>)"
    and "kinv (s\<lparr>lists := L, tasks := (tasks s)(t \<mapsto> ready_desc (undelay d)), os_assign_read_vector := rv,
              xiaoshan_delay_head := removeAll t (xiaoshan_delay_head s)\<rparr>)"
    and "unpends t (lists s) L"
proof -
  note k = kinvD[OF inv]
  let ?d1 = "d\<lparr>sched_link := None\<rparr>"
  define s1 where "s1 = s\<lparr>lists := unlinked_lists s t d, tasks := (tasks s)(t \<mapsto> ?d1)\<rparr>"
  have rm: "sched_link_rm t s = Some s1" and i1: "sched_inv s1"
    unfolding s1_def using rm_sched[OF k(1) t nr] by blast+
  have t1: "tasks s1 t = Some ?d1" by (simp add: s1_def)
  have d1: "delay_inv s1" by (rule delay_inv_same[OF k(2) t]) (simp_all add: s1_def)
  define s2 where "s2 = s1\<lparr>tasks := (tasks s1)(t \<mapsto> undelay ?d1),
     xiaoshan_delay_head := removeAll t (xiaoshan_delay_head s1)\<rparr>"
  have un: "KTaskUnSetDelay t s1 = Some (EOK, s2)"
    using KTaskUnSetDelay_effect[OF t1 d1] by (simp add: s2_def)
  have i2: "sched_inv s2" by (rule KTaskUnSetDelay_sched_inv[OF i1 t1 d1 un])
  have d2: "delay_inv s2" by (rule KTaskUnSetDelay_delay_inv[OF t1 d1 un])
  have t2: "tasks s2 t = Some (undelay ?d1)" by (simp add: s2_def)
  have site2: "bitmap_site (cfg s2) (unat (cur_prio (undelay ?d1))) (undelay ?d1)"
    using site by (simp add: s1_def s2_def bitmap_site_def)
  have e: "(set_stat KTASK_READY (undelay ?d1))\<lparr>sched_link := Some (ReadyVector (unat (cur_prio (undelay ?d1))))\<rparr> =
      ready_desc (undelay d)"
    by (simp add: ready_desc_def set_stat_def)
  have un2: "sched_link (undelay ?d1) = None" by simp
  obtain L rv where ins: "KTaskInsertToReadyVector t s2 = Some (s2\<lparr>lists := L,
      tasks := (tasks s2)(t \<mapsto> ready_desc (undelay d)), os_assign_read_vector := rv\<rparr>)"
    and i3: "sched_inv (s2\<lparr>lists := L, tasks := (tasks s2)(t \<mapsto> ready_desc (undelay d)), os_assign_read_vector := rv\<rparr>)"
    and L: "\<forall>l. (\<forall>p. l \<noteq> ReadyVector p) \<longrightarrow> L l = lists s2 l"
    using insert_sched[OF i2 t2 un2 site2, unfolded e] by blast
  have up: "unpends t (lists s) L"
    using L unlinked_unpends[OF ready_invD(1)[OF sched_invD(1)[OF k(1)]] t] by (simp add: unpends_def s2_def s1_def)
  have s3: "s2\<lparr>lists := L, tasks := (tasks s2)(t \<mapsto> ready_desc (undelay d)), os_assign_read_vector := rv\<rparr> =
      s\<lparr>lists := L, tasks := (tasks s)(t \<mapsto> ready_desc (undelay d)), os_assign_read_vector := rv,
        xiaoshan_delay_head := removeAll t (xiaoshan_delay_head s)\<rparr>" (is "_ = ?s3")
    by (simp add: s2_def s1_def)
  have "delay_inv ?s3" by (rule delay_inv_same[OF d2 t2]) (simp_all add: s2_def s1_def)
  moreover have "ids_inv ?s3" by (rule ids_inv_same[OF k(3) t]) simp_all
  ultimately have "kinv ?s3" using i3 unfolding s3 kinv_def by blast
  then show thesis using that rm un ins up unfolding s3 by simp
qed

lemma do_KTaskWakeup_ok:
  assumes inv: "kinv s" and t: "tasks s t = Some d" and su: "JudgeKTaskStatIsSuspend d"
  obtains L rv where "do_KTaskWakeup t s = Some (EOK, s\<lparr>lists := L,
      tasks := (tasks s)(t \<mapsto> ready_desc (undelay d)), os_assign_read_vector := rv,
      xiaoshan_delay_head := removeAll t (xiaoshan_delay_head s)\<rparr>)"
    and "kinv (s\<lparr>lists := L, tasks := (tasks s)(t \<mapsto> ready_desc (undelay d)), os_assign_read_vector := rv,
      xiaoshan_delay_head := removeAll t (xiaoshan_delay_head s)\<rparr>)"
    and "unpends t (lists s) L"
proof -
  let ?s = "CriticalAreaLock s"
  have k: "kinv ?s" and ts: "tasks ?s t = Some d" using inv t by (simp_all add: CriticalAreaLock_def)
  have nr: "\<not> JudgeKTaskStatIsReady d" using su by (simp add: Judge_StatGet)
  have site: "bitmap_site (cfg ?s) (unat (cur_prio d)) d"
    using task_site[OF sched_invD(1)[OF kinvD(1)[OF k]] ts] su by (simp add: Judge_StatGet)
  let ?f = "\<lambda>L rv. ?s\<lparr>lists := L, tasks := (tasks ?s)(t \<mapsto> ready_desc (undelay d)), os_assign_read_vector := rv,
              xiaoshan_delay_head := removeAll t (xiaoshan_delay_head ?s)\<rparr>"
  obtain L rv where w: "do { s \<leftarrow> sched_link_rm t ?s; (_, s) \<leftarrow> KTaskUnSetDelay t s; KTaskInsertToReadyVector t s } =
      Some (?f L rv)" and k': "kinv (?f L rv)" and up: "unpends t (lists ?s) L"
    using wake_steps[OF k ts nr site] by blast
  have up': "unpends t (lists s) L" using up by (simp add: CriticalAreaLock_def)
  let ?t = "s\<lparr>lists := L, tasks := (tasks s)(t \<mapsto> ready_desc (undelay d)), os_assign_read_vector := rv,
      xiaoshan_delay_head := removeAll t (xiaoshan_delay_head s)\<rparr>"
  have u: "CriticalAreaUnLock (?f L rv) = ?t" by (simp add: CriticalAreaUnLock_def CriticalAreaLock_def)
  then have "kinv ?t" using k' kinv_lock(2) by metis
  moreover have "do_KTaskWakeup t s = Some (EOK, ?t)"
    using w t su u by (auto simp: do_KTaskWakeup_def Let_def bind_eq_Some_conv split: prod.splits)
  ultimately show thesis using that up' by blast
qed

lemma sched_step_task:
  assumes "sched_step s s'"
  shows "tasks s' t = Some d' \<Longrightarrow> \<exists>d. tasks s t = Some d \<and> nsched d' = nsched d"
    and "tasks s t = Some d \<Longrightarrow> \<exists>d'. tasks s' t = Some d' \<and> nsched d' = nsched d"
  using sched_step_fields(11)[OF assms, of t] by (cases "tasks s t"; cases "tasks s' t"; simp)+

lemma nsched_eqD:
  assumes "nsched d' = nsched d"
  shows "delayed d' = delayed d" "task_id d' = task_id d" "cur_prio d' = cur_prio d" "exstatus d' = exstatus d"
    "delay d' = delay d" "task_name d' = task_name d" "bitmap_site c p d' = bitmap_site c p d"
    "event_id_trigger d' = event_id_trigger d" "event_mode d' = event_mode d" "origin_prio d' = origin_prio d"
proof -
  note e = assms[unfolded nsched_def]
  show "task_id d' = task_id d" "cur_prio d' = cur_prio d" "exstatus d' = exstatus d"
    "delay d' = delay d" "task_name d' = task_name d" "event_id_trigger d' = event_id_trigger d"
    "event_mode d' = event_mode d" "origin_prio d' = origin_prio d"
    using arg_cong[OF e, of task_id] arg_cong[OF e, of cur_prio] arg_cong[OF e, of exstatus]
      arg_cong[OF e, of delay] arg_cong[OF e, of task_name] arg_cong[OF e, of event_id_trigger]
      arg_cong[OF e, of event_mode] arg_cong[OF e, of origin_prio] by simp_all
  then show "delayed d' = delayed d" by (simp add: delayed_def)
  show "bitmap_site c p d' = bitmap_site c p d"
    using arg_cong[OF e, of bitmap_offset] arg_cong[OF e, of bitmap_row] arg_cong[OF e, of bitmap_column]
    by (simp add: bitmap_site_def)
qed

lemma sched_step_aux:
  assumes st: "sched_step s s'"
  shows "delay_inv s \<Longrightarrow> delay_inv s'" and "ids_inv s \<Longrightarrow> ids_inv s'"
proof -
  note f = sched_step_fields[OF st] and t = sched_step_task[OF st]
  have "(\<exists>d. tasks s' u = Some d \<and> delayed d) \<longleftrightarrow> (\<exists>d. tasks s u = Some d \<and> delayed d)" for u
    using t[of u] nsched_eqD(1) by blast
  then show "delay_inv s \<Longrightarrow> delay_inv s'" by (simp add: delay_inv_def f)
  assume i: "ids_inv s"
  show "ids_inv s'"
    unfolding ids_inv_def f
  proof (intro conjI allI impI)
    fix j u assume j: "k_task_id_manager s j = Some u"
    then show "j < ID_NUM_MAX (cfg s)" using i by (simp add: ids_inv_def)
    obtain d where d: "tasks s u = Some d" "task_id d = j" using i j by (auto simp: ids_inv_def)
    then obtain d' where "tasks s' u = Some d'" "nsched d' = nsched d" using t(2) by blast
    then show "\<exists>d. tasks s' u = Some d \<and> task_id d = j"
      using nsched_eqD(2)[of d' d] d(2) by simp
  next
    fix u d' assume "tasks s' u = Some d'"
    then obtain d where d: "tasks s u = Some d" "task_id d' = task_id d" "origin_prio d' = origin_prio d"
      using t(1) nsched_eqD(2,10) by blast
    then show "k_task_id_manager s (task_id d') = Some u" using i by (simp add: ids_inv_def)
    show "unat (origin_prio d') < KTASK_PRIORITY_MAX (cfg s)" using i d by (simp add: ids_inv_def)
  qed (use i in \<open>simp add: ids_inv_def\<close>)
qed

lemma DO_KTASK_ASSIGN_kinv:
  assumes inv: "kinv s" and r: "os_running_task s = Some r" and lock: "GetOsAssignLockLevel s = 0"
  obtains s' where "DO_KTASK_ASSIGN s = Some s'" and "kinv s'" and "sched_step s s'"
proof -
  have "\<exists>s'. DO_KTASK_ASSIGN s = Some s' \<and> sched_inv s'"
  proof (cases "isInIsr s")
    case True
    then show ?thesis using inv lock by (simp add: DO_KTASK_ASSIGN_def KTaskOsAssign_def kinv_def)
  next
    case False
    then show ?thesis
      using KTaskOsAssign_select_correct[OF kinvD(1)[OF inv] r] lock
      by (auto simp: DO_KTASK_ASSIGN_def KTaskOsAssign_def)
  qed
  then obtain s' where s': "DO_KTASK_ASSIGN s = Some s'" "sched_inv s'" by blast
  have st: "sched_step s s'" by (rule DO_KTASK_ASSIGN_step[OF s'(1)])
  then have "kinv s'" using s'(2) sched_step_aux[OF st] kinvD[OF inv] by (simp add: kinv_def)
  then show thesis using that s'(1) st by blast
qed

definition suspend_desc :: "TaskDescriptor \<Rightarrow> TaskDescriptor" where
  "suspend_desc d = undelay (set_stat KTASK_SUSPEND (d\<lparr>sched_link := None\<rparr>))"

lemma suspend_desc_simps [simp]:
  "KTaskStatGet (suspend_desc d) = KTASK_SUSPEND" "cur_prio (suspend_desc d) = cur_prio d"
  "\<not> delayed (suspend_desc d)" "task_id (suspend_desc d) = task_id d" "exstatus (suspend_desc d) = exstatus d"
  "sched_link (suspend_desc d) = None" "bitmap_site c p (suspend_desc d) = bitmap_site c p d"
  "event_id_trigger (suspend_desc d) = event_id_trigger d" "event_mode (suspend_desc d) = event_mode d"
  "origin_prio (suspend_desc d) = origin_prio d" "task_name (suspend_desc d) = task_name d"
  by (simp_all add: suspend_desc_def KTaskStatGet_set_stat bitmap_site_def)

lemma do_SuspendKTask_ok:
  assumes inv: "kinv s" and r: "os_running_task s = Some t" and t: "tasks s t = Some d"
    and run: "JudgeKTaskStatIsReady d \<or> JudgeKTaskStatIsRunning d"
  obtains L rv where "do_SuspendKTask t s = Some (EOK, s\<lparr>lists := L,
      tasks := (tasks s)(t \<mapsto> suspend_desc d), os_assign_read_vector := rv,
      xiaoshan_delay_head := removeAll t (xiaoshan_delay_head s)\<rparr>)"
    and "kinv (s\<lparr>lists := L, tasks := (tasks s)(t \<mapsto> suspend_desc d), os_assign_read_vector := rv,
      xiaoshan_delay_head := removeAll t (xiaoshan_delay_head s)\<rparr>)"
    and "unpends t (lists s) L"
proof -
  let ?s = "CriticalAreaLock s" and ?d1 = "set_stat KTASK_SUSPEND (d\<lparr>sched_link := None\<rparr>)"
  have k: "kinv ?s" and ts: "tasks ?s t = Some d" using inv t by (simp_all add: CriticalAreaLock_def)
  note ki = kinvD[OF k]
  have site: "bitmap_site (cfg ?s) (unat (cur_prio d)) d"
    using task_site[OF sched_invD(1)[OF ki(1)] ts] run by (auto simp: Judge_StatGet)
  let ?f = "\<lambda>L rv. ?s\<lparr>lists := L, tasks := (tasks ?s)(t \<mapsto> ?d1), os_assign_read_vector := rv\<rparr>"
  obtain L rv where st: "do { s \<leftarrow> KTaskOsAssignRemoveKTask t ?s; KTaskStateSet t KTASK_SUSPEND s } = Some (?f L rv)"
    and i1: "sched_inv (?f L rv)" and up: "unpends t (lists ?s) L"
    using stop_sched[OF ki(1) ts, of KTASK_SUSPEND] site by blast
  have up': "unpends t (lists s) L" using up by (simp add: CriticalAreaLock_def)
  let ?s1 = "?f L rv"
  have t1: "tasks ?s1 t = Some ?d1" by simp
  have d1: "delay_inv ?s1" by (rule delay_inv_same[OF ki(2) ts]) simp_all
  let ?s2 = "?s1\<lparr>tasks := (tasks ?s1)(t \<mapsto> undelay ?d1), xiaoshan_delay_head := removeAll t (xiaoshan_delay_head ?s1)\<rparr>"
  have un: "KTaskUnSetDelay t ?s1 = Some (EOK, ?s2)" by (rule KTaskUnSetDelay_effect[OF t1 d1])
  let ?t = "s\<lparr>lists := L, tasks := (tasks s)(t \<mapsto> suspend_desc d), os_assign_read_vector := rv,
      xiaoshan_delay_head := removeAll t (xiaoshan_delay_head s)\<rparr>"
  have u: "CriticalAreaUnLock ?s2 = ?t"
    by (simp add: CriticalAreaUnLock_def CriticalAreaLock_def suspend_desc_def)
  have "sched_inv ?s2" by (rule KTaskUnSetDelay_sched_inv[OF i1 t1 d1 un])
  moreover have "delay_inv ?s2" by (rule KTaskUnSetDelay_delay_inv[OF t1 d1 un])
  moreover have "ids_inv ?s2" by (rule ids_inv_same[OF ki(3) ts]) simp_all
  ultimately have "kinv ?s2" by (simp only: kinv_def)
  then have "kinv ?t" using u kinv_lock(2)[of ?s2] by simp
  moreover have "do_SuspendKTask t s = Some (EOK, ?t)"
    using st un t r run u
    by (auto simp: do_SuspendKTask_def Let_def bind_eq_Some_conv GetKTaskDescriptor_def Judge_StatGet
        split: prod.splits)
  ultimately show thesis using that up' by blast
qed

lemma SuspendKTask_ok:
  assumes "kinv s" and "tasks s t = Some d"
  shows "SuspendKTask (int (task_id d)) s = do_SuspendKTask t s"
  using ids_inv_get[OF kinvD(3)[OF assms(1)] assms(2)] by (simp add: SuspendKTask_def)

lemma KTaskWakeup_ok:
  assumes "kinv s" and "tasks s t = Some d"
  shows "KTaskWakeup (int (task_id d)) s = do_KTaskWakeup t s"
  using ids_inv_get[OF kinvD(3)[OF assms(1)] assms(2)] by (simp add: KTaskWakeup_def)

end
