(* ===== verification/TaskLife.thy ===== *)
theory TaskLife
  imports KTask
begin

text \<open>
  What the task operations of \<^verbatim>\<open>ktask.c\<close> do on a well-formed kernel: each of them succeeds, keeps the
  invariant, and has the effect on the task it is called for that its name promises.
\<close>

subsection \<open>Tasks a scheduling point does not touch\<close>

lemma KTaskInsertToReadyVector_other:
  assumes "KTaskInsertToReadyVector r s = Some s'" and "u \<noteq> r"
  shows "tasks s' u = tasks s u"
  using assms
  by (auto simp: KTaskInsertToReadyVector_def KTaskStatSetAsReady_def KTaskStateSet_def upd_task_def
      AssignPolicyInsert_def FifoReadyVectorInsert_def RoundRobinReadyVectorInsert_def
      RoundRobinRemainReadyVectorInsert_def sched_link_back_def sched_link_when_def sched_link_insert_def Let_def
      bind_eq_Some_conv split: option.splits if_splits sched_policy.splits)

lemma sched_link_rm_other: "sched_link_rm t s = Some s' \<Longrightarrow> u \<noteq> t \<Longrightarrow> tasks s' u = tasks s u"
  by (auto simp: sched_link_rm_def bind_eq_Some_conv split: option.splits)

lemma KTaskOsAssignRemoveKTask_other:
  assumes "KTaskOsAssignRemoveKTask t s = Some s'" and "u \<noteq> t"
  shows "tasks s' u = tasks s u"
proof -
  obtain s1 where "sched_link_rm t s = Some s1" "tasks s' = tasks s1"
    using assms(1) by (auto simp: KTaskOsAssignRemoveKTask_def Let_def bind_eq_Some_conv split: if_splits)
  then show ?thesis using sched_link_rm_other assms(2) by metis
qed

lemma KTaskStateSet_other: "KTaskStateSet t st s = Some s' \<Longrightarrow> u \<noteq> t \<Longrightarrow> tasks s' u = tasks s u"
  by (auto simp: KTaskStateSet_def upd_task_def split: option.splits)

lemma switch_to_other:
  assumes "switch_to t s = Some s'" and "u \<noteq> t"
  shows "tasks s' u = tasks s u"
proof -
  obtain s1 s2 where "KTaskOsAssignRemoveKTask t s = Some s1" "KTaskStateSet t KTASK_RUNNING s1 = Some s2"
    "tasks s' = tasks s2"
    using assms(1)
    by (auto simp: switch_to_def KTaskStatSetAsRunning_def RestoreCpusLockStatus_def bind_eq_Some_conv)
  then show ?thesis using KTaskOsAssignRemoveKTask_other KTaskStateSet_other assms(2) by metis
qed

lemma KTaskOsAssign_select_cases:
  assumes inv: "sched_inv s" and sel: "KTaskOsAssign_select s = Some s'"
  obtains (stay) "s' = s"
  | (switch) t e r e' s1 where "os_running_task s = Some r" "tasks s r = Some e'" "tasks s t = Some e"
      "JudgeKTaskStatIsReady e" "switch_to t s1 = Some s'"
      "tasks s1 = tasks s \<and> lists s1 = lists s \<or> JudgeKTaskStatIsRunning e' \<and>
        KTaskInsertToReadyVector r (s\<lparr>current_priority := word_of_nat (highest_prio (os_assign_read_vector s))\<rparr>) = Some s1"
proof (cases "JudgeAssignReadyBitmapIsEmpty (os_assign_read_vector s)")
  case True
  then show thesis using sel stay by (simp add: KTaskOsAssign_select_def)
next
  case False
  obtain t e where ch: "ChooseTaskWithHighestPrio s = Some t" and t: "tasks s t = Some e" "JudgeKTaskStatIsReady e"
    using choose_ready[OF sched_invD(1)[OF inv] False] by blast
  obtain r e' where r: "os_running_task s = Some r" and e': "tasks s r = Some e'"
    using sel False ch by (auto simp: KTaskOsAssign_select_def Let_def bind_eq_Some_conv)
  let ?s = "s\<lparr>current_priority := word_of_nat (highest_prio (os_assign_read_vector s))\<rparr>"
  have sel': "(if \<not> JudgeKTaskStatIsRunning e' then KTaskOsAssign_switch False t s
      else if highest_prio (os_assign_read_vector s) < unat (cur_prio e') then Some s
      else KTaskOsAssign_switch True t s) = Some s'"
    using sel False ch r e' by (simp add: KTaskOsAssign_select_def Let_def)
  show thesis
  proof (cases "t = r")
    case True
    then have "s' = s \<or> switch_to t s = Some s'"
      using sel' unfolding KTaskOsAssign_switch_eq[OF r] by (simp split: if_splits)
    then show thesis using stay switch[OF r e' t] by blast
  next
    case tr: False
    show thesis
    proof (cases "JudgeKTaskStatIsRunning e'")
      case True
      then have "s' = s \<or> KTaskInsertToReadyVector r ?s \<bind> switch_to t = Some s'"
        using sel' tr unfolding KTaskOsAssign_switch_eq[OF r] by (simp split: if_splits)
      then show thesis
        using stay switch[OF r e' t] True unfolding bind_eq_Some_conv by blast
    next
      case False
      then have "switch_to t ?s = Some s'"
        using sel' tr unfolding KTaskOsAssign_switch_eq[OF r] by simp
      then show thesis using switch[OF r e' t, of ?s] by simp
    qed
  qed
qed

lemma DO_KTASK_ASSIGN_cases:
  assumes "DO_KTASK_ASSIGN s = Some s'"
  shows "s\<lparr>isr_switch_trigger_flag := True\<rparr> = s' \<or> KTaskOsAssign_select s = Some s'"
  using assms by (simp add: DO_KTASK_ASSIGN_def KTaskOsAssign_def split: if_splits)

lemma DO_KTASK_ASSIGN_other:
  assumes inv: "sched_inv s" and ds: "DO_KTASK_ASSIGN s = Some s'"
    and u: "tasks s u = Some d" "\<not> JudgeKTaskStatIsReady d" "\<not> JudgeKTaskStatIsRunning d"
  shows "tasks s' u = Some d"
proof -
  consider "s\<lparr>isr_switch_trigger_flag := True\<rparr> = s'" | "KTaskOsAssign_select s = Some s'"
    using DO_KTASK_ASSIGN_cases[OF ds] by blast
  then show ?thesis
  proof cases
    case 2
    from inv 2 show ?thesis
    proof (cases rule: KTaskOsAssign_select_cases)
      case (switch t e r e' s1)
      then have "u \<noteq> t" using u by auto
      moreover from switch(6) have "tasks s1 u = Some d"
      proof (elim disjE conjE)
        assume "JudgeKTaskStatIsRunning e'"
        then have "u \<noteq> r" using switch(2) u by auto
        then show "KTaskInsertToReadyVector r (s\<lparr>current_priority := word_of_nat (highest_prio (os_assign_read_vector s))\<rparr>) = Some s1 \<Longrightarrow>
            tasks s1 u = Some d"
          using u(1) by (simp add: KTaskInsertToReadyVector_other)
      qed (use u in simp)
      ultimately show ?thesis using switch_to_other[OF switch(5)] by simp
    qed (use u in simp)
  qed (use u in auto)
qed

text \<open>A ready task stays ready or becomes the running task.\<close>

lemma switch_to_running:
  assumes "switch_to t s = Some s'"
  shows "\<exists>e. tasks s' t = Some e \<and> JudgeKTaskStatIsRunning e"
proof -
  obtain s1 s2 where "KTaskStateSet t KTASK_RUNNING s1 = Some s2" "s' = s2\<lparr>os_running_task := Some t\<rparr>"
    using assms by (auto simp: switch_to_def KTaskStatSetAsRunning_def RestoreCpusLockStatus_def bind_eq_Some_conv)
  then show ?thesis
    by (auto simp: KTaskStateSet_def upd_task_def Judge_StatGet KTaskStatGet_def stat_merge split: option.splits)
qed

lemma KTaskInsertToReadyVector_ready:
  assumes "KTaskInsertToReadyVector r s = Some s'"
  shows "\<exists>e. tasks s' r = Some e \<and> JudgeKTaskStatIsReady e"
  using assms
  by (auto simp: KTaskInsertToReadyVector_def KTaskStatSetAsReady_def KTaskStateSet_def upd_task_def
      AssignPolicyInsert_def FifoReadyVectorInsert_def RoundRobinReadyVectorInsert_def
      RoundRobinRemainReadyVectorInsert_def sched_link_back_def sched_link_when_def sched_link_insert_def Let_def
      Judge_StatGet KTaskStatGet_def stat_merge bind_eq_Some_conv split: option.splits if_splits sched_policy.splits)

lemma DO_KTASK_ASSIGN_active:
  assumes inv: "sched_inv s" and ds: "DO_KTASK_ASSIGN s = Some s'"
    and u: "tasks s u = Some d" "JudgeKTaskStatIsReady d \<or> JudgeKTaskStatIsRunning d"
  shows "\<exists>d'. tasks s' u = Some d' \<and> nsched d' = nsched d \<and> (JudgeKTaskStatIsReady d' \<or> JudgeKTaskStatIsRunning d')"
proof -
  obtain d' where d': "tasks s' u = Some d'" "nsched d' = nsched d"
    using sched_step_task(2)[OF DO_KTASK_ASSIGN_step[OF ds] u(1)] by blast
  consider "s\<lparr>isr_switch_trigger_flag := True\<rparr> = s'" | "KTaskOsAssign_select s = Some s'"
    using DO_KTASK_ASSIGN_cases[OF ds] by blast
  then have "JudgeKTaskStatIsReady d' \<or> JudgeKTaskStatIsRunning d'"
  proof cases
    case 2
    from inv 2 show ?thesis
    proof (cases rule: KTaskOsAssign_select_cases)
      case (switch t e r e' s1)
      have s1: "\<exists>e. tasks s1 u = Some e \<and> (JudgeKTaskStatIsReady e \<or> JudgeKTaskStatIsRunning e)"
      proof (cases "tasks s1 = tasks s \<and> lists s1 = lists s")
        case False
        with switch(6) have "KTaskInsertToReadyVector r (s\<lparr>current_priority := word_of_nat (highest_prio (os_assign_read_vector s))\<rparr>) = Some s1"
          by blast
        then show ?thesis
          using KTaskInsertToReadyVector_ready KTaskInsertToReadyVector_other[of r _ s1 u] u by (cases "u = r") fastforce+
      qed (use u in simp)
      show ?thesis
      proof (cases "u = t")
        case True
        then show ?thesis using switch_to_running[OF switch(5)] d' by auto
      next
        case False
        then show ?thesis using switch_to_other[OF switch(5) False] s1 d'(1) by auto
      qed
    qed (use u d' in simp)
  qed (use u d' in auto)
  then show ?thesis using d' by blast
qed

text \<open>A scheduling point changes no list but the ready lists.\<close>

lemma KTaskInsertToReadyVector_lists:
  assumes "KTaskInsertToReadyVector r s = Some s'" and "\<And>p. l \<noteq> ReadyVector p"
  shows "lists s' l = lists s l"
  using assms
  by (auto simp: KTaskInsertToReadyVector_def KTaskStatSetAsReady_def KTaskStateSet_def upd_task_def
      AssignPolicyInsert_def FifoReadyVectorInsert_def RoundRobinReadyVectorInsert_def
      RoundRobinRemainReadyVectorInsert_def sched_link_back_def sched_link_when_def sched_link_insert_def Let_def
      bind_eq_Some_conv split: option.splits if_splits sched_policy.splits)

lemma switch_to_lists:
  assumes "switch_to t s = Some s'" and "tasks s t = Some d" and "sched_link d = Some (ReadyVector p)"
    and "\<And>p. l \<noteq> ReadyVector p"
  shows "lists s' l = lists s l"
proof -
  obtain s1 s2 where "KTaskOsAssignRemoveKTask t s = Some s1" "KTaskStateSet t KTASK_RUNNING s1 = Some s2"
    "lists s' = lists s2"
    using assms(1) by (auto simp: switch_to_def KTaskStatSetAsRunning_def RestoreCpusLockStatus_def bind_eq_Some_conv)
  moreover from this(1) obtain s0 where "sched_link_rm t s = Some s0" "lists s1 = lists s0"
    by (auto simp: KTaskOsAssignRemoveKTask_def Let_def bind_eq_Some_conv split: if_splits)
  ultimately show ?thesis using assms(2-4)
    by (auto simp: sched_link_rm_def KTaskStateSet_def upd_task_def split: option.splits)
qed

lemma DO_KTASK_ASSIGN_lists:
  assumes inv: "sched_inv s" and ds: "DO_KTASK_ASSIGN s = Some s'" and l: "\<And>p. l \<noteq> ReadyVector p"
  shows "lists s' l = lists s l"
proof -
  consider "s\<lparr>isr_switch_trigger_flag := True\<rparr> = s'" | "KTaskOsAssign_select s = Some s'"
    using DO_KTASK_ASSIGN_cases[OF ds] by blast
  then show ?thesis
  proof cases
    case 2
    from inv 2 show ?thesis
    proof (cases rule: KTaskOsAssign_select_cases)
      case (switch t e r e' s1)
      let ?c = "s\<lparr>current_priority := word_of_nat (highest_prio (os_assign_read_vector s))\<rparr>"
      obtain p where p: "sched_link e = Some (ReadyVector p)"
        using sched_invD(2)[OF inv] switch(3,4) by (auto simp: ready_linked_def)
      have "tasks s1 t = Some e \<and> lists s1 l = lists s l"
      proof (cases "tasks s1 = tasks s \<and> lists s1 = lists s")
        case False
        then have ins: "JudgeKTaskStatIsRunning e'" "KTaskInsertToReadyVector r ?c = Some s1" using switch(6) by blast+
        then have "t \<noteq> r" using switch(2,3,4) by (auto simp: Judge_StatGet)
        then show ?thesis
          using KTaskInsertToReadyVector_other[OF ins(2)] KTaskInsertToReadyVector_lists[OF ins(2) l] switch(3) by simp
      qed (use switch(3) in simp)
      then show ?thesis using switch_to_lists[OF switch(5) _ p l] by simp
    qed simp
  qed auto
qed

subsection \<open>Waiting tasks are suspended\<close>

text \<open>
  A task linked in the pend list of a semaphore, mutex, event, message queue or memory pool is
  suspended, one linked in the list of zombies is closed.
\<close>

definition pend_ok :: "TaskDescriptor \<Rightarrow> bool" where
  "pend_ok d \<longleftrightarrow> (case sched_link d of None \<Rightarrow> True | Some l \<Rightarrow>
     (case l of ReadyVector p \<Rightarrow> True | KTaskZombie \<Rightarrow> JudgeKTaskStatIsClose d | _ \<Rightarrow> JudgeKTaskStatIsSuspend d))"

definition os_inv :: "'a kernel_scheme \<Rightarrow> bool" where
  "os_inv s \<longleftrightarrow> kinv s \<and> (\<forall>t d. tasks s t = Some d \<longrightarrow> pend_ok d)"

lemma os_invD:
  assumes "os_inv s"
  shows "kinv s" "sched_inv s" "delay_inv s" "ids_inv s" "ready_inv s" "links_inv s"
    "tasks s t = Some d \<Longrightarrow> pend_ok d"
  using assms by (simp_all add: os_inv_def kinv_def sched_inv_def ready_inv_def)

lemma pend_ok_simps [simp]:
  "sched_link d = None \<Longrightarrow> pend_ok d" "pend_ok (ready_desc d)" "pend_ok (suspend_desc d)"
  by (simp_all add: pend_ok_def)

lemma pend_ok_cong: "sched_link d' = sched_link d \<Longrightarrow> KTaskStatGet d' = KTaskStatGet d \<Longrightarrow> pend_ok d' = pend_ok d"
  by (auto simp: pend_ok_def Judge_StatGet split: option.splits lhead.splits)

lemma os_inv_upd:
  assumes "os_inv s" and "kinv s'" and "tasks s' = (tasks s)(t \<mapsto> d)" and "pend_ok d"
  shows "os_inv s'"
  using assms by (auto simp: os_inv_def)

lemma os_inv_frame [simp]:
  "os_inv (s\<lparr>KTaskOsAssignLockNest := n\<rparr>) = os_inv s"
  "os_inv (CriticalAreaLock s) = os_inv s" "os_inv (CriticalAreaUnLock s) = os_inv s"
  by (simp_all add: os_inv_def CriticalAreaLock_def CriticalAreaUnLock_def)

lemma DO_KTASK_ASSIGN_os_inv:
  assumes inv: "os_inv s" and r: "os_running_task s = Some r" and lock: "GetOsAssignLockLevel s = 0"
  obtains s' where "DO_KTASK_ASSIGN s = Some s'" and "os_inv s'" and "sched_step s s'"
    and "\<And>u d. tasks s u = Some d \<Longrightarrow> \<not> JudgeKTaskStatIsReady d \<Longrightarrow> \<not> JudgeKTaskStatIsRunning d \<Longrightarrow> tasks s' u = Some d"
    and "\<And>u d. tasks s u = Some d \<Longrightarrow> JudgeKTaskStatIsReady d \<or> JudgeKTaskStatIsRunning d \<Longrightarrow>
      \<exists>d'. tasks s' u = Some d' \<and> nsched d' = nsched d \<and> (JudgeKTaskStatIsReady d' \<or> JudgeKTaskStatIsRunning d')"
proof -
  obtain s' where ds: "DO_KTASK_ASSIGN s = Some s'" and k: "kinv s'" and st: "sched_step s s'"
    using DO_KTASK_ASSIGN_kinv[OF os_invD(1)[OF inv] r lock] by blast
  note o = DO_KTASK_ASSIGN_other[OF os_invD(2)[OF inv] ds] and a = DO_KTASK_ASSIGN_active[OF os_invD(2)[OF inv] ds]
  have "pend_ok d'" if d': "tasks s' u = Some d'" for u d'
  proof -
    obtain d where d: "tasks s u = Some d" using sched_step_task(1)[OF st d'] by blast
    show ?thesis
    proof (cases "JudgeKTaskStatIsReady d \<or> JudgeKTaskStatIsRunning d")
      case True
      then have "JudgeKTaskStatIsReady d' \<or> JudgeKTaskStatIsRunning d'" using a[OF d] d' by auto
      then have "sched_link d' = None \<or> (\<exists>p. sched_link d' = Some (ReadyVector p))"
        using sched_invD(2,3)[OF kinvD(1)[OF k]] d' by (auto simp: ready_linked_def)
      then show ?thesis by (auto simp: pend_ok_def)
    next
      case False
      then have "tasks s' u = Some d" using o[OF d] by blast
      then show ?thesis using d' os_invD(7)[OF inv d] by simp
    qed
  qed
  then have "os_inv s'" using k by (simp add: os_inv_def)
  then show thesis using that[OF ds _ st] o a by blast
qed

subsection \<open>Priorities\<close>

definition site_mask :: "kconfig \<Rightarrow> TaskDescriptor \<Rightarrow> TaskDescriptor" where
  "site_mask c d = (let p = unat (cur_prio d) in
     if KTASK_PRIORITY_MAX c > 32
     then d\<lparr>bitmap_offset := word_of_nat (p div 8), bitmap_column := push_bit (p div 8) 1,
            bitmap_row := push_bit (unat (cur_prio d AND 7)) 1\<rparr>
     else d\<lparr>bitmap_column := push_bit p 1\<rparr>)"

lemma site_mask_fields [simp]:
  "KTaskStatGet (site_mask c d) = KTaskStatGet d" "cur_prio (site_mask c d) = cur_prio d"
  "sched_link (site_mask c d) = sched_link d" "delay (site_mask c d) = delay d" "task_id (site_mask c d) = task_id d"
  "origin_prio (site_mask c d) = origin_prio d" "exstatus (site_mask c d) = exstatus d"
  "task_name (site_mask c d) = task_name d" "delayed (site_mask c d) = delayed d"
  by (simp_all add: site_mask_def Let_def delayed_def)

lemma unat_and_7: "unat (w AND 7 :: uint8) = unat w mod 8"
proof -
  have "w AND 7 = take_bit 3 w" by (simp add: take_bit_eq_mask mask_numeral)
  then show ?thesis by (simp add: take_bit_eq_mod unat_mod)
qed

lemma site_mask_site: "bitmap_site c (unat (cur_prio d)) (site_mask c d)"
proof -
  have "unat (cur_prio d) < 256" using unsigned_less[of "cur_prio d", where 'a = nat] by simp
  then have "unat (cur_prio d) div 8 < 256" by linarith
  then show ?thesis by (simp add: bitmap_site_def site_mask_def Let_def unat_and_7 unat_of_nat del: push_bit_of_1)
qed

lemma BitmapSiteMask_effect:
  assumes "tasks s t = Some d" and "unat (cur_prio d) < KTASK_PRIORITY_MAX (cfg s)"
  shows "BitmapSiteMask t s = Some (s\<lparr>tasks := (tasks s)(t \<mapsto> site_mask (cfg s) d)\<rparr>)"
  using assms by (simp add: BitmapSiteMask_def site_mask_def Let_def upd_task_def)

definition prio_desc :: "kconfig \<Rightarrow> uint8 \<Rightarrow> TaskDescriptor \<Rightarrow> TaskDescriptor" where
  "prio_desc c p d = site_mask c (d\<lparr>cur_prio := p\<rparr>)"

lemma prio_desc_fields [simp]:
  "KTaskStatGet (prio_desc c p d) = KTaskStatGet d" "cur_prio (prio_desc c p d) = p"
  "sched_link (prio_desc c p d) = sched_link d" "delay (prio_desc c p d) = delay d" "task_id (prio_desc c p d) = task_id d"
  "origin_prio (prio_desc c p d) = origin_prio d" "exstatus (prio_desc c p d) = exstatus d"
  "task_name (prio_desc c p d) = task_name d" "delayed (prio_desc c p d) = delayed d"
  "pend_ok (prio_desc c p d) = pend_ok d" "bitmap_site c (unat p) (prio_desc c p d)"
  using site_mask_site[of c "d\<lparr>cur_prio := p\<rparr>"]
  by (simp_all add: prio_desc_def delayed_def pend_ok_cong[of "site_mask c (d\<lparr>cur_prio := p\<rparr>)" d])

lemma set_prio:
  assumes inv: "os_inv s" and t: "tasks s t = Some d" and nr: "\<not> JudgeKTaskStatIsReady d"
    and p: "unat p < KTASK_PRIORITY_MAX (cfg s)"
  shows "do { s \<leftarrow> upd_task t (\<lambda>d. d\<lparr>cur_prio := p\<rparr>) s; BitmapSiteMask t s } =
      Some (s\<lparr>tasks := (tasks s)(t \<mapsto> prio_desc (cfg s) p d)\<rparr>)"
    and "os_inv (s\<lparr>tasks := (tasks s)(t \<mapsto> prio_desc (cfg s) p d)\<rparr>)"
proof -
  let ?d = "prio_desc (cfg s) p d" and ?s = "s\<lparr>tasks := (tasks s)(t \<mapsto> prio_desc (cfg s) p d)\<rparr>"
  show "do { s \<leftarrow> upd_task t (\<lambda>d. d\<lparr>cur_prio := p\<rparr>) s; BitmapSiteMask t s } = Some ?s"
    using t p by (simp add: upd_task_def BitmapSiteMask_effect prio_desc_def)
  have "task_inv (cfg s) ?d"
    using p not_ready_link[OF os_invD(5)[OF inv] t nr] by (simp add: task_inv_def task_ok_def)
  then have "ready_inv ?s" by (intro ready_inv_task_upd[OF os_invD(5)[OF inv] t]) simp_all
  then have "sched_inv ?s" using os_invD(2)[OF inv] t unfolding sched_inv_def by (auto simp: Judge_StatGet)
  moreover have "delay_inv ?s" by (rule delay_inv_same[OF os_invD(3)[OF inv] t]) simp_all
  moreover have "ids_inv ?s" by (rule ids_inv_same[OF os_invD(4)[OF inv] t]) simp_all
  ultimately have "kinv ?s" by (simp add: kinv_def)
  then show "os_inv ?s" by (rule os_inv_upd[OF inv, where t = t and d = ?d]) (use os_invD(7)[OF inv t] in simp_all)
qed

subsection \<open>Waking after a timeout\<close>

lemma KTaskUnSetDelay_none: "tasks s t = Some d \<Longrightarrow> \<not> delayed d \<Longrightarrow> KTaskUnSetDelay t s = Some (EOK, s)"
  by (auto simp: KTaskUnSetDelay_def delayed_def split: option.splits)

lemma undelay_none [simp]: "\<not> delayed d \<Longrightarrow> undelay d = d"
  by (cases "delay d") (auto simp: delayed_def)

text \<open>Unlinking and making ready, for a task without a pending delay.\<close>

lemma relink_steps:
  assumes inv: "kinv s" and t: "tasks s t = Some d" and nr: "\<not> JudgeKTaskStatIsReady d"
    and site: "bitmap_site (cfg s) (unat (cur_prio d)) d" and nd: "\<not> delayed d"
  obtains L rv where "do { s \<leftarrow> sched_link_rm t s; KTaskInsertToReadyVector t s } =
      Some (s\<lparr>lists := L, tasks := (tasks s)(t \<mapsto> ready_desc d), os_assign_read_vector := rv\<rparr>)"
    and "kinv (s\<lparr>lists := L, tasks := (tasks s)(t \<mapsto> ready_desc d), os_assign_read_vector := rv\<rparr>)"
proof -
  have nin: "t \<notin> set (xiaoshan_delay_head s)" using kinvD(2)[OF inv] t nd by (simp add: delay_inv_def)
  let ?s1 = "s\<lparr>lists := unlinked_lists s t d, tasks := (tasks s)(t \<mapsto> d\<lparr>sched_link := None\<rparr>)\<rparr>"
  have rm: "sched_link_rm t s = Some ?s1" by (rule rm_sched(1)[OF kinvD(1)[OF inv] t nr])
  have "KTaskUnSetDelay t ?s1 = Some (EOK, ?s1)"
    by (rule KTaskUnSetDelay_none[where d = "d\<lparr>sched_link := None\<rparr>"]) (use nd in simp_all)
  then have eq: "do { s \<leftarrow> sched_link_rm t s; (_, s) \<leftarrow> KTaskUnSetDelay t s; KTaskInsertToReadyVector t s } =
      do { s \<leftarrow> sched_link_rm t s; KTaskInsertToReadyVector t s }"
    using rm by simp
  let ?f = "\<lambda>L rv. s\<lparr>lists := L, tasks := (tasks s)(t \<mapsto> ready_desc d), os_assign_read_vector := rv,
      xiaoshan_delay_head := xiaoshan_delay_head s\<rparr>"
  obtain L rv where "do { s \<leftarrow> sched_link_rm t s; KTaskInsertToReadyVector t s } = Some (?f L rv)" "kinv (?f L rv)"
    using wake_steps[OF inv t nr site] unfolding eq undelay_none[OF nd] removeAll_notin[OF nin] by blast
  then show thesis using that[of rv L] by simp
qed

lemma KTaskTimeout_ok:
  assumes inv: "os_inv s" and t: "tasks s t = Some d" and su: "JudgeKTaskStatIsSuspend d" and nd: "\<not> delayed d"
  obtains L rv where "KTaskTimeout t s = DO_KTASK_ASSIGN (s\<lparr>lists := L,
      tasks := (tasks s)(t \<mapsto> ready_desc (d\<lparr>exstatus := - ETIMEOUT\<rparr>)), os_assign_read_vector := rv\<rparr>)"
    and "os_inv (s\<lparr>lists := L, tasks := (tasks s)(t \<mapsto> ready_desc (d\<lparr>exstatus := - ETIMEOUT\<rparr>)),
      os_assign_read_vector := rv\<rparr>)"
proof -
  let ?d = "d\<lparr>exstatus := - ETIMEOUT\<rparr>"
  let ?s = "(CriticalAreaLock s)\<lparr>tasks := (tasks s)(t \<mapsto> ?d)\<rparr>"
  have k: "kinv ?s"
    using kinv_same[of "CriticalAreaLock s" t d ?d] os_invD(1)[OF inv] t
    by (simp add: CriticalAreaLock_def sched_part_def delayed_def)
  have t': "tasks ?s t = Some ?d" by simp
  have "bitmap_site (cfg ?s) (unat (cur_prio ?d)) ?d"
    using task_site[OF os_invD(5)[OF inv] t] su by (simp add: Judge_StatGet bitmap_site_def CriticalAreaLock_def)
  moreover have "\<not> JudgeKTaskStatIsReady ?d" "\<not> delayed ?d" using su nd by (simp_all add: Judge_StatGet delayed_def)
  ultimately obtain L rv where w: "do { s \<leftarrow> sched_link_rm t ?s; KTaskInsertToReadyVector t s } =
      Some (?s\<lparr>lists := L, tasks := (tasks ?s)(t \<mapsto> ready_desc ?d), os_assign_read_vector := rv\<rparr>)"
    and k': "kinv (?s\<lparr>lists := L, tasks := (tasks ?s)(t \<mapsto> ready_desc ?d), os_assign_read_vector := rv\<rparr>)"
    using relink_steps[OF k t'] by blast
  let ?t = "s\<lparr>lists := L, tasks := (tasks s)(t \<mapsto> ready_desc ?d), os_assign_read_vector := rv\<rparr>"
  have u: "CriticalAreaUnLock (?s\<lparr>lists := L, tasks := (tasks ?s)(t \<mapsto> ready_desc ?d), os_assign_read_vector := rv\<rparr>) = ?t"
    by (simp add: CriticalAreaUnLock_def CriticalAreaLock_def)
  then have "kinv ?t" using k' kinv_lock(2) by metis
  then have "os_inv ?t" by (rule os_inv_upd[OF inv, where t = t and d = "ready_desc ?d"]) simp_all
  moreover have "KTaskTimeout t s = DO_KTASK_ASSIGN ?t"
  proof -
    obtain s1 where s1: "sched_link_rm t ?s = Some s1" "KTaskInsertToReadyVector t s1 =
      Some (?s\<lparr>lists := L, tasks := (tasks ?s)(t \<mapsto> ready_desc ?d), os_assign_read_vector := rv\<rparr>)"
      using w unfolding bind_eq_Some_conv by blast
    have "upd_task t (\<lambda>d. d\<lparr>exstatus := - ETIMEOUT\<rparr>) (CriticalAreaLock s) = Some ?s"
      using t by (simp add: upd_task_def CriticalAreaLock_def)
    then show ?thesis using t su s1 u by (simp add: KTaskTimeout_def Let_def)
  qed
  ultimately show thesis using that by blast
qed

subsection \<open>Linking a task into a pend list\<close>

lemma insert_pend:
  assumes inv: "os_inv s" and t: "tasks s t = Some d" "sched_link d = None"
    and st: "pend_ok (d\<lparr>sched_link := Some l\<rparr>)" and l: "\<And>p. l \<noteq> ReadyVector p"
    and ins: "mset (ins (lists s l)) = add_mset t (mset (lists s l))"
  shows "sched_link_insert l ins t s =
      Some (s\<lparr>lists := (lists s)(l := ins (lists s l)), tasks := (tasks s)(t \<mapsto> d\<lparr>sched_link := Some l\<rparr>)\<rparr>)"
    and "os_inv (s\<lparr>lists := (lists s)(l := ins (lists s l)), tasks := (tasks s)(t \<mapsto> d\<lparr>sched_link := Some l\<rparr>)\<rparr>)"
proof -
  let ?d = "d\<lparr>sched_link := Some l\<rparr>"
  let ?s = "s\<lparr>lists := (lists s)(l := ins (lists s l)), tasks := (tasks s)(t \<mapsto> ?d)\<rparr>"
  show eq: "sched_link_insert l ins t s = Some ?s" using t by (simp add: sched_link_insert_def)
  note i = ready_invD[OF os_invD(5)[OF inv]]
  have "JudgeKTaskStatIsClose d \<or> JudgeKTaskStatIsSuspend d"
    using st l by (cases l) (auto simp: pend_ok_def Judge_StatGet)
  then have nr: "\<not> JudgeKTaskStatIsReady d" "\<not> JudgeKTaskStatIsRunning d" by (auto simp: Judge_StatGet)
  have "links_inv ?s" by (rule sched_link_insert_inv[OF i(1) eq ins])
  moreover have "rv_inv ?s" using i(2,3,4) l[symmetric] by (simp add: rv_inv_def)
  moreover have "task_inv (cfg s) ?d"
    using i(5)[OF t(1)] l by (auto simp: task_inv_def task_ok_def Judge_StatGet bitmap_zero_def)
  then have "\<forall>u e. tasks ?s u = Some e \<longrightarrow> task_inv (cfg ?s) e" using i(5) by auto
  ultimately have "ready_inv ?s" unfolding ready_inv_def by blast
  then have "sched_inv ?s" using os_invD(2)[OF inv] nr unfolding sched_inv_def by (auto simp: Judge_StatGet)
  moreover have "delay_inv ?s" by (rule delay_inv_same[OF os_invD(3)[OF inv] t(1)]) simp_all
  moreover have "ids_inv ?s" by (rule ids_inv_same[OF os_invD(4)[OF inv] t(1)]) simp_all
  ultimately have "kinv ?s" by (simp add: kinv_def)
  then show "os_inv ?s" by (rule os_inv_upd[OF inv, where t = t and d = ?d]) (use st in simp_all)
qed

subsection \<open>Composition with the critical area\<close>

lemma wake_steps_os:
  assumes inv: "os_inv s" and t: "tasks s t = Some d" and nr: "\<not> JudgeKTaskStatIsReady d"
    and site: "bitmap_site (cfg s) (unat (cur_prio d)) d"
  obtains s1 s2 x L rv where "sched_link_rm t s = Some s1" "KTaskUnSetDelay t s1 = Some (x, s2)"
    "KTaskInsertToReadyVector t s2 = Some (s\<lparr>lists := L, tasks := (tasks s)(t \<mapsto> ready_desc (undelay d)),
       os_assign_read_vector := rv, xiaoshan_delay_head := removeAll t (xiaoshan_delay_head s)\<rparr>)"
    "os_inv (s\<lparr>lists := L, tasks := (tasks s)(t \<mapsto> ready_desc (undelay d)),
       os_assign_read_vector := rv, xiaoshan_delay_head := removeAll t (xiaoshan_delay_head s)\<rparr>)"
    "unpends t (lists s) L"
proof -
  let ?f = "\<lambda>L rv. s\<lparr>lists := L, tasks := (tasks s)(t \<mapsto> ready_desc (undelay d)), os_assign_read_vector := rv,
              xiaoshan_delay_head := removeAll t (xiaoshan_delay_head s)\<rparr>"
  obtain L rv where w: "do { s \<leftarrow> sched_link_rm t s; (_, s) \<leftarrow> KTaskUnSetDelay t s; KTaskInsertToReadyVector t s } =
      Some (?f L rv)" and k: "kinv (?f L rv)" and up: "unpends t (lists s) L"
    using wake_steps[OF os_invD(1)[OF inv] t nr site] by blast
  have "os_inv (?f L rv)" by (rule os_inv_upd[OF inv k, where t = t and d = "ready_desc (undelay d)"]) simp_all
  moreover obtain s1 x s2 where "sched_link_rm t s = Some s1" "KTaskUnSetDelay t s1 = Some (x, s2)"
    "KTaskInsertToReadyVector t s2 = Some (?f L rv)"
    using w unfolding bind_eq_Some_conv by (auto split: prod.splits)
  ultimately show thesis using that up by blast
qed

lemma lock_simps [simp]:
  "tasks (CriticalAreaLock s) = tasks s" "cfg (CriticalAreaLock s) = cfg s" "lists (CriticalAreaLock s) = lists s"
  "os_running_task (CriticalAreaLock s) = os_running_task s" "heartbeat_ticks (CriticalAreaLock s) = heartbeat_ticks s"
  "xiaoshan_delay_head (CriticalAreaLock s) = xiaoshan_delay_head s"
  "k_task_id_manager (CriticalAreaLock s) = k_task_id_manager s" "zombie_recycle (CriticalAreaLock s) = zombie_recycle s"
  "isr_count (CriticalAreaLock s) = isr_count s" "isInIsr (CriticalAreaLock s) = isInIsr s"
  "GetTaskWithIdnodeInfo i (CriticalAreaLock s) = GetTaskWithIdnodeInfo i s"
  "GetKTaskDescriptor (CriticalAreaLock s) = GetKTaskDescriptor s"
  by (simp_all add: CriticalAreaLock_def isInIsr_def GetKTaskDescriptor_def)

lemma unlock_simps [simp]:
  "tasks (CriticalAreaUnLock s) = tasks s" "cfg (CriticalAreaUnLock s) = cfg s" "lists (CriticalAreaUnLock s) = lists s"
  "os_running_task (CriticalAreaUnLock s) = os_running_task s" "heartbeat_ticks (CriticalAreaUnLock s) = heartbeat_ticks s"
  "xiaoshan_delay_head (CriticalAreaUnLock s) = xiaoshan_delay_head s"
  "k_task_id_manager (CriticalAreaUnLock s) = k_task_id_manager s"
  "zombie_recycle (CriticalAreaUnLock s) = zombie_recycle s"
  "isr_count (CriticalAreaUnLock s) = isr_count s" "isInIsr (CriticalAreaUnLock s) = isInIsr s"
  "GetKTaskDescriptor (CriticalAreaUnLock s) = GetKTaskDescriptor s"
  by (simp_all add: CriticalAreaUnLock_def isInIsr_def GetKTaskDescriptor_def)

text \<open>
  What a caller sees of an operation that ends in a scheduling point: \<open>mid\<close> is the state before that
  point.
\<close>

definition assigned :: "'a kernel_scheme \<Rightarrow> 'a kernel_scheme \<Rightarrow> bool" where
  "assigned mid s' \<longleftrightarrow> DO_KTASK_ASSIGN mid = Some s' \<and> os_inv mid \<and> os_inv s' \<and> sched_step mid s' \<and>
     (\<forall>u d. tasks mid u = Some d \<longrightarrow>
        (if JudgeKTaskStatIsReady d \<or> JudgeKTaskStatIsRunning d
         then \<exists>d'. tasks s' u = Some d' \<and> nsched d' = nsched d \<and> (JudgeKTaskStatIsReady d' \<or> JudgeKTaskStatIsRunning d')
         else tasks s' u = Some d))"

lemma assignedI:
  assumes "os_inv s" and "os_running_task s = Some r" and "GetOsAssignLockLevel s = 0"
  obtains s' where "assigned s s'"
  using DO_KTASK_ASSIGN_os_inv[OF assms] assms(1) unfolding assigned_def by metis

lemma assignedD:
  assumes "assigned mid s'"
  shows "DO_KTASK_ASSIGN mid = Some s'" "os_inv mid" "os_inv s'" "sched_step mid s'"
    "tasks mid u = Some d \<Longrightarrow> JudgeKTaskStatIsReady d \<or> JudgeKTaskStatIsRunning d \<Longrightarrow>
      \<exists>d'. tasks s' u = Some d' \<and> nsched d' = nsched d \<and> (JudgeKTaskStatIsReady d' \<or> JudgeKTaskStatIsRunning d')"
    "tasks mid u = Some d \<Longrightarrow> JudgeKTaskStatIsSuspend d \<or> JudgeKTaskStatIsClose d \<or> JudgeKTaskStatIsInit d \<Longrightarrow>
      tasks s' u = Some d"
  using assms unfolding assigned_def by (blast, blast, blast, blast, presburger, auto simp: Judge_StatGet)

subsection \<open>Starting a task\<close>

lemma do_StartupKTask_ok:
  assumes inv: "os_inv s" and r: "os_running_task s = Some r" and lock: "GetOsAssignLockLevel s = 0"
    and t: "tasks s t = Some d" and init: "JudgeKTaskStatIsInit d"
  obtains L rv s' where "do_StartupKTask t s = Some (EOK, s')"
    "assigned (s\<lparr>lists := L, tasks := (tasks s)(t \<mapsto> ready_desc (undelay (prio_desc (cfg s) (origin_prio d) d))),
       os_assign_read_vector := rv, xiaoshan_delay_head := removeAll t (xiaoshan_delay_head s)\<rparr>) s'"
proof -
  let ?s = "CriticalAreaLock s" and ?d = "prio_desc (cfg s) (origin_prio d) d"
  have nr: "\<not> JudgeKTaskStatIsReady d" using init by (simp add: Judge_StatGet)
  have p: "unat (origin_prio d) < KTASK_PRIORITY_MAX (cfg s)" using os_invD(4)[OF inv] t by (auto simp: ids_inv_def)
  have o: "os_inv ?s" "tasks ?s t = Some d" using inv t by simp_all
  let ?s1 = "?s\<lparr>tasks := (tasks s)(t \<mapsto> ?d)\<rparr>"
  have u: "(\<lambda>e. e\<lparr>cur_prio := origin_prio e\<rparr>) d = (\<lambda>e. e\<lparr>cur_prio := origin_prio d\<rparr>) d" by simp
  have up: "do { s \<leftarrow> upd_task t (\<lambda>d. d\<lparr>cur_prio := origin_prio d\<rparr>) ?s; BitmapSiteMask t s } = Some ?s1"
    using set_prio(1)[OF o nr, of "origin_prio d"] p t by (simp add: upd_task_def)
  have i1: "os_inv ?s1" using set_prio(2)[OF o nr, of "origin_prio d"] p by simp
  have t1: "tasks ?s1 t = Some ?d" by simp
  have nr1: "\<not> JudgeKTaskStatIsReady ?d" using nr by (simp add: Judge_StatGet)
  have site: "bitmap_site (cfg ?s1) (unat (cur_prio ?d)) ?d" by simp
  let ?f = "\<lambda>s L rv. s\<lparr>lists := L, tasks := (tasks s)(t \<mapsto> ready_desc (undelay ?d)), os_assign_read_vector := rv,
              xiaoshan_delay_head := removeAll t (xiaoshan_delay_head s)\<rparr>"
  obtain s2 s3 x L rv where w: "sched_link_rm t ?s1 = Some s2" "KTaskUnSetDelay t s2 = Some (x, s3)"
    "KTaskInsertToReadyVector t s3 = Some (?f ?s1 L rv)" and i4: "os_inv (?f ?s1 L rv)"
    by (rule wake_steps_os[OF i1 t1 nr1 site])
  have un: "CriticalAreaUnLock (?f ?s1 L rv) = ?f s L rv" by (simp add: CriticalAreaUnLock_def CriticalAreaLock_def)
  then have "os_inv (?f s L rv)" using i4 os_inv_frame(3) by metis
  then obtain s' where a: "assigned (?f s L rv) s'"
    using assignedI[of "?f s L rv" r] r lock by (auto simp: GetOsAssignLockLevel_def)
  have "do_StartupKTask t s = Some (EOK, s')"
  proof -
    obtain s0 where "upd_task t (\<lambda>d. d\<lparr>cur_prio := origin_prio d\<rparr>) ?s = Some s0" "BitmapSiteMask t s0 = Some ?s1"
      using up unfolding bind_eq_Some_conv by blast
    then show ?thesis
      using t init w un assignedD(1)[OF a] r by (simp add: do_StartupKTask_def Let_def GetKTaskDescriptor_def)
  qed
  then show thesis using that a by blast
qed

subsection \<open>Delaying the running task\<close>

text \<open>The state after \<^verbatim>\<open>KTaskSetDelay\<close>, whether or not memory was found for the delay.\<close>

definition delay_set :: "bool \<Rightarrow> tid \<Rightarrow> x_ticks_t \<Rightarrow> 'a kernel_scheme \<Rightarrow> 'a kernel_scheme" where
  "delay_set mem t ticks s = (case tasks s t of None \<Rightarrow> s | Some d \<Rightarrow>
     if mem \<or> delay d \<noteq> None
     then s\<lparr>tasks := (tasks s)(t \<mapsto> d\<lparr>delay := Some \<lparr>delay_ticks = heartbeat_ticks s + ticks, delay_status = True\<rparr>\<rparr>),
            xiaoshan_delay_head := insert_when (delay_after (tasks s) (heartbeat_ticks s + ticks)) t
              (removeAll t (xiaoshan_delay_head s))\<rparr>
     else s)"

lemma delay_set_fields [simp]:
  "cfg (delay_set mem t ticks s) = cfg s" "lists (delay_set mem t ticks s) = lists s"
  "os_running_task (delay_set mem t ticks s) = os_running_task s"
  "KTaskOsAssignLockNest (delay_set mem t ticks s) = KTaskOsAssignLockNest s"
  "kernel.more (delay_set mem t ticks s) = kernel.more s"
  "isr_count (delay_set mem t ticks s) = isr_count s" "heartbeat_ticks (delay_set mem t ticks s) = heartbeat_ticks s"
  "k_task_id_manager (delay_set mem t ticks s) = k_task_id_manager s"
  "xiaoshan_task_head (delay_set mem t ticks s) = xiaoshan_task_head s"
  "zombie_recycle (delay_set mem t ticks s) = zombie_recycle s"
  "u \<noteq> t \<Longrightarrow> tasks (delay_set mem t ticks s) u = tasks s u"
  by (simp_all add: delay_set_def split: option.splits)

lemma delay_set_task:
  assumes "tasks s t = Some d"
  shows "\<exists>x. tasks (delay_set mem t ticks s) t = Some (d\<lparr>delay := x\<rparr>) \<and>
     (if mem \<or> delay d \<noteq> None then x = Some \<lparr>delay_ticks = heartbeat_ticks s + ticks, delay_status = True\<rparr> else x = delay d)"
  using assms by (auto simp: delay_set_def)

lemma KTaskSetDelay_os:
  assumes inv: "os_inv s" and t: "tasks s t = Some d"
  shows "\<exists>x. KTaskSetDelay mem t ticks s = Some (x, delay_set mem t ticks s)"
    and "os_inv (delay_set mem t ticks s)"
proof -
  have eq: "KTaskSetDelay mem t ticks s =
      Some (if mem \<or> delay d \<noteq> None then EOK else - ENOMEMORY, delay_set mem t ticks s)"
  proof (cases "mem \<or> delay d \<noteq> None")
    case True
    then show ?thesis using KTaskSetDelay_effect[OF t os_invD(3)[OF inv] True] t by (simp add: delay_set_def)
  next
    case False
    then show ?thesis using t by (simp add: KTaskSetDelay_def delay_set_def)
  qed
  then show "\<exists>x. KTaskSetDelay mem t ticks s = Some (x, delay_set mem t ticks s)" by blast
  let ?s = "delay_set mem t ticks s"
  have "sched_inv ?s" by (rule KTaskSetDelay_sched_inv[OF os_invD(2)[OF inv] t os_invD(3)[OF inv] eq])
  moreover have "delay_inv ?s" by (rule KTaskSetDelay_delay_inv[OF t os_invD(3)[OF inv] eq])
  moreover obtain x where x: "tasks ?s t = Some (d\<lparr>delay := x\<rparr>)" using delay_set_task[OF t] by blast
  then have ts: "tasks ?s = (tasks s)(t \<mapsto> d\<lparr>delay := x\<rparr>)" by (auto simp: fun_eq_iff)
  have "ids_inv ?s" by (rule ids_inv_same[OF os_invD(4)[OF inv] t _ _ ts]) simp_all
  ultimately have "kinv ?s" by (simp add: kinv_def)
  then show "os_inv ?s"
    by (rule os_inv_upd[OF inv _ ts]) (use os_invD(7)[OF inv t] in \<open>simp add: pend_ok_cong[of "d\<lparr>delay := x\<rparr>" d]\<close>)
qed

lemma UnLock_delay_set [simp]: "CriticalAreaUnLock (delay_set mem t ticks s) = delay_set mem t ticks (CriticalAreaUnLock s)"
  by (simp add: CriticalAreaUnLock_def delay_set_def split: option.splits)

text \<open>Suspending the running task inside a critical area.\<close>

lemma SuspendKTask_os:
  assumes inv: "os_inv s" and r: "os_running_task s = Some t" and t: "tasks s t = Some d"
    and run: "JudgeKTaskStatIsRunning d"
  obtains L rv where "SuspendKTask (int (task_id d)) s = Some (EOK, s\<lparr>lists := L,
      tasks := (tasks s)(t \<mapsto> suspend_desc d), os_assign_read_vector := rv,
      xiaoshan_delay_head := removeAll t (xiaoshan_delay_head s)\<rparr>)"
    and "os_inv (s\<lparr>lists := L, tasks := (tasks s)(t \<mapsto> suspend_desc d), os_assign_read_vector := rv,
      xiaoshan_delay_head := removeAll t (xiaoshan_delay_head s)\<rparr>)"
    and "unpends t (lists s) L"
proof -
  let ?f = "\<lambda>L rv. s\<lparr>lists := L, tasks := (tasks s)(t \<mapsto> suspend_desc d), os_assign_read_vector := rv,
      xiaoshan_delay_head := removeAll t (xiaoshan_delay_head s)\<rparr>"
  obtain L rv where su: "do_SuspendKTask t s = Some (EOK, ?f L rv)" and k: "kinv (?f L rv)" and up: "unpends t (lists s) L"
    using do_SuspendKTask_ok[OF os_invD(1)[OF inv] r t disjI2[OF run]] by blast
  have i: "os_inv (?f L rv)" by (rule os_inv_upd[OF inv k, where t = t and d = "suspend_desc d"]) simp_all
  show thesis using that su i up SuspendKTask_ok[OF os_invD(1)[OF inv] t] by simp
qed

lemma do_DelayKTask_ok:
  assumes inv: "os_inv s" and r: "os_running_task s = Some t" and lock: "GetOsAssignLockLevel s = 0"
    and t: "tasks s t = Some d" and run: "JudgeKTaskStatIsRunning d" and ticks: "ticks \<noteq> 0"
  obtains L rv s' where "do_DelayKTask mem t ticks s = Some (Wait, s')"
    "assigned (delay_set mem t ticks (s\<lparr>lists := L, tasks := (tasks s)(t \<mapsto> suspend_desc d),
       os_assign_read_vector := rv, xiaoshan_delay_head := removeAll t (xiaoshan_delay_head s)\<rparr>)) s'"
proof -
  let ?s = "CriticalAreaLock s"
  let ?f = "\<lambda>s L rv. s\<lparr>lists := L, tasks := (tasks s)(t \<mapsto> suspend_desc d), os_assign_read_vector := rv,
      xiaoshan_delay_head := removeAll t (xiaoshan_delay_head s)\<rparr>"
  have o: "os_inv ?s" "os_running_task ?s = Some t" "tasks ?s t = Some d" using inv t r by simp_all
  obtain L rv where su: "SuspendKTask (int (task_id d)) ?s = Some (EOK, ?f ?s L rv)" and i1: "os_inv (?f ?s L rv)"
    using SuspendKTask_os[OF o run] by blast
  obtain x where sd: "KTaskSetDelay mem t ticks (?f ?s L rv) = Some (x, delay_set mem t ticks (?f ?s L rv))"
    using KTaskSetDelay_os(1)[OF i1] by fastforce
  have un: "CriticalAreaUnLock (?f ?s L rv) = ?f s L rv" by (simp add: CriticalAreaUnLock_def CriticalAreaLock_def)
  have "os_inv (?f s L rv)" using i1 un os_inv_frame(3) by metis
  then have i2: "os_inv (delay_set mem t ticks (?f s L rv))"
    by (rule KTaskSetDelay_os(2)[where d = "suspend_desc d"]) simp
  obtain s' where a: "assigned (delay_set mem t ticks (?f s L rv)) s'"
    using assignedI[OF i2, of t] r lock by (auto simp: GetOsAssignLockLevel_def)
  have "do_DelayKTask mem t ticks s = Some (Wait, s')"
    using ticks t su sd un assignedD(1)[OF a] by (simp add: do_DelayKTask_def Let_def)
  then show thesis using that a by blast
qed

subsection \<open>Waking by identifier\<close>

definition wakes :: "tid \<Rightarrow> 'a kernel_scheme \<Rightarrow> 'a kernel_scheme \<Rightarrow> bool" where
  "wakes t s s' \<longleftrightarrow> os_inv s' \<and> (\<exists>d L rv. tasks s t = Some d \<and> JudgeKTaskStatIsSuspend d \<and> unpends t (lists s) L \<and>
     s' = s\<lparr>lists := L, tasks := (tasks s)(t \<mapsto> ready_desc (undelay d)), os_assign_read_vector := rv,
            xiaoshan_delay_head := removeAll t (xiaoshan_delay_head s)\<rparr>)"

lemma wakesD:
  assumes "wakes t s s'"
  shows "os_inv s'" "cfg s' = cfg s" "os_running_task s' = os_running_task s" "kernel.more s' = kernel.more s"
    "KTaskOsAssignLockNest s' = KTaskOsAssignLockNest s" "heartbeat_ticks s' = heartbeat_ticks s"
    "isr_count s' = isr_count s" "k_task_id_manager s' = k_task_id_manager s" "zombie_recycle s' = zombie_recycle s"
    "xiaoshan_task_head s' = xiaoshan_task_head s" "xiaoshan_delay_head s' = removeAll t (xiaoshan_delay_head s)"
    "\<exists>d. tasks s t = Some d \<and> JudgeKTaskStatIsSuspend d \<and> tasks s' = (tasks s)(t \<mapsto> ready_desc (undelay d))"
    "(\<And>p. l \<noteq> ReadyVector p) \<Longrightarrow> lists s' l = removeAll t (lists s l)"
  using assms by (auto simp: wakes_def unpends_def)

lemma wakes_lock:
  assumes "wakes t (CriticalAreaLock s) s'"
  shows "wakes t s (CriticalAreaUnLock s')"
proof -
  obtain d L rv where "os_inv s'" "tasks s t = Some d" "JudgeKTaskStatIsSuspend d" "unpends t (lists s) L"
    "s' = (CriticalAreaLock s)\<lparr>lists := L, tasks := (tasks s)(t \<mapsto> ready_desc (undelay d)), os_assign_read_vector := rv,
            xiaoshan_delay_head := removeAll t (xiaoshan_delay_head s)\<rparr>"
    using assms unfolding wakes_def by auto
  moreover from this(5) have "CriticalAreaUnLock s' = s\<lparr>lists := L, tasks := (tasks s)(t \<mapsto> ready_desc (undelay d)),
      os_assign_read_vector := rv, xiaoshan_delay_head := removeAll t (xiaoshan_delay_head s)\<rparr>"
    by (simp add: CriticalAreaUnLock_def CriticalAreaLock_def)
  moreover have "os_inv (CriticalAreaUnLock s')" using assms by (simp add: wakes_def)
  ultimately show ?thesis unfolding wakes_def by blast
qed

lemma KTaskWakeup_wakes:
  assumes inv: "os_inv s" and t: "tasks s t = Some d" and su: "JudgeKTaskStatIsSuspend d"
  obtains s' where "KTaskWakeup (int (task_id d)) s = Some (EOK, s')" and "wakes t s s'"
proof -
  let ?f = "\<lambda>L rv. s\<lparr>lists := L, tasks := (tasks s)(t \<mapsto> ready_desc (undelay d)), os_assign_read_vector := rv,
      xiaoshan_delay_head := removeAll t (xiaoshan_delay_head s)\<rparr>"
  obtain L rv where w: "do_KTaskWakeup t s = Some (EOK, ?f L rv)" and k: "kinv (?f L rv)" and u: "unpends t (lists s) L"
    by (rule do_KTaskWakeup_ok[OF os_invD(1)[OF inv] t su])
  have "os_inv (?f L rv)" by (rule os_inv_upd[OF inv k, where t = t and d = "ready_desc (undelay d)"]) simp_all
  then have "wakes t s (?f L rv)" using t su u unfolding wakes_def by blast
  then show thesis using that KTaskWakeup_ok[OF os_invD(1)[OF inv] t] w by simp
qed

lemma KTaskWakeup_awake:
  assumes "os_inv s" and "tasks s t = Some d" and "\<not> JudgeKTaskStatIsSuspend d"
  shows "KTaskWakeup (int (task_id d)) s = Some (- ERROR, s)"
  using KTaskWakeup_ok[OF os_invD(1)[OF assms(1)] assms(2)] assms(2,3) by (simp add: do_KTaskWakeup_def)

subsection \<open>Deleting a task\<close>

definition zombie_desc :: "TaskDescriptor \<Rightarrow> TaskDescriptor" where
  "zombie_desc d = (set_stat KTASK_CLOSE d)\<lparr>sched_link := Some KTaskZombie\<rparr>"

lemma zombie_desc_simps [simp]:
  "KTaskStatGet (zombie_desc d) = KTASK_CLOSE" "sched_link (zombie_desc d) = Some KTaskZombie"
  "delayed (zombie_desc d) = delayed d" "delay (zombie_desc d) = delay d" "task_id (zombie_desc d) = task_id d"
  by (simp_all add: zombie_desc_def KTaskStatGet_set_stat)

lemma close_steps:
  assumes inv: "os_inv s" and t: "tasks s t = Some d"
  obtains s1 L rv where "KTaskResourceDelete t s = Some s1"
    "sched_link_front KTaskZombie t s1 = Some (s\<lparr>lists := L, tasks := (tasks s)(t \<mapsto> zombie_desc d), os_assign_read_vector := rv\<rparr>)"
    "os_inv (s\<lparr>lists := L, tasks := (tasks s)(t \<mapsto> zombie_desc d), os_assign_read_vector := rv\<rparr>)"
    "L KTaskZombie = t # removeAll t (lists s KTaskZombie)"
proof -
  let ?d = "set_stat KTASK_CLOSE (d\<lparr>sched_link := None\<rparr>)"
  let ?f = "\<lambda>L rv. s\<lparr>lists := L, tasks := (tasks s)(t \<mapsto> ?d), os_assign_read_vector := rv\<rparr>"
  obtain L rv where st: "do { s \<leftarrow> KTaskOsAssignRemoveKTask t s; KTaskStateSet t KTASK_CLOSE s } = Some (?f L rv)"
    and i1: "sched_inv (?f L rv)" and u: "unpends t (lists s) L"
    using stop_sched[OF os_invD(2)[OF inv] t, of KTASK_CLOSE] by blast
  let ?s1 = "?f L rv"
  have "delay_inv ?s1" by (rule delay_inv_same[OF os_invD(3)[OF inv] t]) simp_all
  moreover have "ids_inv ?s1" by (rule ids_inv_same[OF os_invD(4)[OF inv] t]) simp_all
  ultimately have "kinv ?s1" using i1 by (simp add: kinv_def)
  then have o1: "os_inv ?s1" by (rule os_inv_upd[OF inv, where t = t and d = ?d]) simp_all
  have t1: "tasks ?s1 t = Some ?d" "sched_link ?d = None" by simp_all
  have pk: "pend_ok (?d\<lparr>sched_link := Some KTaskZombie\<rparr>)" by (simp add: pend_ok_def Judge_StatGet KTaskStatGet_set_stat)
  have z: "?d\<lparr>sched_link := Some KTaskZombie\<rparr> = zombie_desc d" by (simp add: zombie_desc_def set_stat_def)
  note ins = insert_pend[OF o1 t1 pk, of "\<lambda>xs. t # xs", unfolded z]
  have rd: "KTaskResourceDelete t s = Some ?s1" using st by (simp add: KTaskResourceDelete_def KTaskStatSetAsClose_def)
  have "sched_link_front KTaskZombie t ?s1 = Some (s\<lparr>lists := L(KTaskZombie := t # L KTaskZombie),
      tasks := (tasks s)(t \<mapsto> zombie_desc d), os_assign_read_vector := rv\<rparr>)"
    using ins(1) by (simp add: sched_link_front_def)
  moreover have "os_inv (s\<lparr>lists := L(KTaskZombie := t # L KTaskZombie),
      tasks := (tasks s)(t \<mapsto> zombie_desc d), os_assign_read_vector := rv\<rparr>)"
    using ins(2) by (rule back_subst[of os_inv]) simp_all
  moreover have "(L(KTaskZombie := t # L KTaskZombie)) KTaskZombie = t # removeAll t (lists s KTaskZombie)"
    using u by (simp add: unpends_def)
  ultimately show thesis using that rd by blast
qed

end
