(* ===== verification/Lifecycle.thy ===== *)
theory Lifecycle
  imports TaskLife
begin

text \<open>
  The life of a task from creation to recycling: the recycling task of \<^verbatim>\<open>zombierecycle.c\<close>, the idle
  task of \<^verbatim>\<open>idle.c\<close>, and what starting, delaying, deleting and recycling a task does to the whole
  kernel state. \<open>ZombieKTaskEntry\<close> is one turn of the endless loop of the recycling task; the memory
  it frees is the descriptor, which from then on does not exist.
\<close>

definition ZombieKTaskEntry :: "'a kernel_scheme \<Rightarrow> 'a kernel_scheme option" where
  "ZombieKTaskEntry s = (if isInIsr s then None else
     let s = CriticalAreaLock s in
     case lists s KTaskZombie of
       t # _ \<Rightarrow> do {
         s \<leftarrow> sched_link_rm t s;
         let s = CriticalAreaUnLock s;
         d \<leftarrow> tasks s t;
         let s = s\<lparr>xiaoshan_task_head := removeAll t (xiaoshan_task_head s)\<rparr>;
         let s = KTaskIdDelete (int (task_id d)) s;
         Some (s\<lparr>tasks := (tasks s)(t := None)\<rparr>) }
     | [] \<Rightarrow> do {
         (_, s) \<leftarrow> SuspendKTask (zombie_recycle s) s;
         let s = CriticalAreaUnLock s;
         DO_KTASK_ASSIGN s })"

definition KTASK_LOWEST_PRIORITY :: uint8 where "KTASK_LOWEST_PRIORITY = 0"
definition ZOMBIE_KTASK_STACKSIZE :: uint32 where "ZOMBIE_KTASK_STACKSIZE = 2048"
definition IDLE_KTASK_STACKSIZE :: uint32 where "IDLE_KTASK_STACKSIZE = 256"

definition ZombieTaskRecycleInit :: "nat \<Rightarrow> tid option \<Rightarrow> nat option \<Rightarrow> 'a kernel_scheme \<Rightarrow> 'a kernel_scheme option" where
  "ZombieTaskRecycleInit entry mem stk s = do {
     let s = s\<lparr>lists := (lists s)(KTaskZombie := [])\<rparr>;
     (i, s) \<leftarrow> KTaskCreate mem stk ''ZombieRecycleKTask'' entry 0 ZOMBIE_KTASK_STACKSIZE (KTASK_LOWEST_PRIORITY + 1) s;
     let s = s\<lparr>zombie_recycle := i\<rparr>;
     (_, s) \<leftarrow> StartupKTask (zombie_recycle s) s;
     Some s }"

text \<open>The loop over the cores runs once in the single-core configuration.\<close>

definition InitIdleKTask :: "nat \<Rightarrow> tid option \<Rightarrow> nat option \<Rightarrow> 'a kernel_scheme \<Rightarrow> (int \<times> 'a kernel_scheme) option" where
  "InitIdleKTask entry mem stk s = do {
     (i, s) \<leftarrow> KTaskCreate mem stk ''ktaskidle0'' entry 0 IDLE_KTASK_STACKSIZE KTASK_LOWEST_PRIORITY s;
     (_, s) \<leftarrow> StartupKTask i s;
     Some (i, s) }"

subsection \<open>Freeing a task\<close>

lemma ids_invD:
  assumes "ids_inv s"
  shows "k_task_id_manager s j = Some v \<Longrightarrow> \<exists>d. tasks s v = Some d \<and> task_id d = j"
    and "tasks s v = Some e \<Longrightarrow> k_task_id_manager s (task_id e) = Some v"
  using assms by (simp_all add: ids_inv_def)

lemma ids_unique:
  assumes "ids_inv s" and "tasks s t = Some d"
  shows "k_task_id_manager s i = Some t \<Longrightarrow> i = task_id d"
    and "tasks s u = Some e \<Longrightarrow> task_id e = task_id d \<Longrightarrow> u = t"
proof -
  note a = ids_invD(1)[OF assms(1)] and b = ids_invD(2)[OF assms(1)]
  show "k_task_id_manager s i = Some t \<Longrightarrow> i = task_id d" using a[of i t] assms(2) by auto
  show "tasks s u = Some e \<Longrightarrow> task_id e = task_id d \<Longrightarrow> u = t" using b[of u e] b[of t d] assms(2) by simp
qed

lemma ids_bound:
  assumes "ids_inv s" and "tasks s t = Some d"
  shows "task_id d < 65536"
proof -
  have "k_task_id_manager s (task_id d) = Some t" using assms by (simp add: ids_inv_def)
  then have "task_id d < ID_NUM_MAX (cfg s)" using assms(1) by (simp add: ids_inv_def)
  then show ?thesis using assms(1) by (simp add: ids_inv_def)
qed

lemma os_inv_task_head [simp]: "os_inv (s\<lparr>xiaoshan_task_head := th\<rparr>) = os_inv s"
  by (simp add: os_inv_def kinv_def delay_inv_def ids_inv_def)

lemma free_task:
  assumes inv: "os_inv s" and t: "tasks s t = Some d" and un: "sched_link d = None" and nd: "\<not> delayed d"
    and r: "os_running_task s \<noteq> Some t"
  shows "os_inv (s\<lparr>k_task_id_manager := (k_task_id_manager s)(task_id d := None), tasks := (tasks s)(t := None)\<rparr>)"
proof -
  let ?s = "s\<lparr>k_task_id_manager := (k_task_id_manager s)(task_id d := None), tasks := (tasks s)(t := None)\<rparr>"
  have "links_inv ?s" using os_invD(6)[OF inv] t un by (auto simp: links_inv_def)
  moreover have "rv_inv ?s" using os_invD(5)[OF inv] by (simp add: ready_inv_def rv_inv_def)
  ultimately have "sched_inv ?s" using os_invD(2,5)[OF inv] r by (auto simp: ready_inv_def sched_inv_def)
  moreover have "delay_inv ?s" using os_invD(3)[OF inv] t nd by (auto simp: delay_inv_def)
  moreover have "ids_inv ?s"
  proof -
    note i = os_invD(4)[OF inv] and u = ids_unique[OF os_invD(4)[OF inv] t]
    have "k_task_id_manager s j \<noteq> Some t" if "j \<noteq> task_id d" for j using u(1) that by blast
    moreover have "task_id e \<noteq> task_id d" if "tasks s v = Some e" "v \<noteq> t" for v e using u(2) that by blast
    ultimately show ?thesis using i unfolding ids_inv_def by simp
  qed
  ultimately show ?thesis using os_invD(7)[OF inv] by (auto simp: os_inv_def kinv_def)
qed

lemma zombie_head:
  assumes "os_inv s" and "lists s KTaskZombie = t # ts"
  obtains d where "tasks s t = Some d" "sched_link d = Some KTaskZombie" "JudgeKTaskStatIsClose d" "t \<notin> set ts"
proof -
  obtain d where d: "tasks s t = Some d" "sched_link d = Some KTaskZombie"
    using links_invD(2)[OF os_invD(6)[OF assms(1)], of t KTaskZombie] assms(2) by auto
  then have "JudgeKTaskStatIsClose d" using os_invD(7)[OF assms(1) d(1)] by (simp add: pend_ok_def)
  moreover have "t \<notin> set ts" using links_invD(1)[OF os_invD(6)[OF assms(1)], of KTaskZombie] assms(2) by simp
  ultimately show thesis using that d by blast
qed

lemma id_del_int: "n < 65536 \<Longrightarrow> id_del f (int n) = f(n := None)"
  by (simp add: id_del_def id_trunc_def)

lemma recycle_steps:
  assumes inv: "os_inv s" and z: "lists s KTaskZombie = t # ts" and t: "tasks s t = Some d" and irq: "\<not> isInIsr s"
  shows "ZombieKTaskEntry s = Some (s\<lparr>lists := (lists s)(KTaskZombie := ts),
      xiaoshan_task_head := removeAll t (xiaoshan_task_head s),
      k_task_id_manager := (k_task_id_manager s)(task_id d := None), tasks := (tasks s)(t := None)\<rparr>)"
    and "\<not> delayed d \<Longrightarrow> os_running_task s \<noteq> Some t \<Longrightarrow> os_inv (s\<lparr>lists := (lists s)(KTaskZombie := ts),
      xiaoshan_task_head := removeAll t (xiaoshan_task_head s),
      k_task_id_manager := (k_task_id_manager s)(task_id d := None), tasks := (tasks s)(t := None)\<rparr>)"
proof -
  obtain d' where "tasks s t = Some d'" "sched_link d' = Some KTaskZombie" "JudgeKTaskStatIsClose d'" "t \<notin> set ts"
    using zombie_head[OF inv z] .
  then have d: "sched_link d = Some KTaskZombie" "JudgeKTaskStatIsClose d" "t \<notin> set ts" using t by simp_all
  then have nr: "\<not> JudgeKTaskStatIsReady d" "\<not> JudgeKTaskStatIsRunning d" by (simp_all add: Judge_StatGet)
  let ?u = "s\<lparr>lists := (lists s)(KTaskZombie := ts), tasks := (tasks s)(t \<mapsto> d\<lparr>sched_link := None\<rparr>)\<rparr>"
  have ul: "unlinked_lists s t d = (lists s)(KTaskZombie := ts)" using d z by (simp add: unlinked_lists_def)
  have rm: "sched_link_rm t (CriticalAreaLock s) = Some (CriticalAreaLock ?u)"
    using d t z by (simp add: sched_link_rm_def CriticalAreaLock_def)
  have idb: "task_id d < 65536" by (rule ids_bound[OF os_invD(4)[OF inv] t])
  let ?s = "s\<lparr>lists := (lists s)(KTaskZombie := ts), xiaoshan_task_head := removeAll t (xiaoshan_task_head s),
      k_task_id_manager := (k_task_id_manager s)(task_id d := None), tasks := (tasks s)(t := None)\<rparr>"
  show "ZombieKTaskEntry s = Some ?s"
    using irq z rm idb by (simp add: ZombieKTaskEntry_def Let_def KTaskIdDelete_def id_del_int)
  assume nd: "\<not> delayed d" and r: "os_running_task s \<noteq> Some t"
  have "sched_inv ?u" using rm_sched(2)[OF os_invD(2)[OF inv] t nr(1)] unfolding ul .
  moreover have "delay_inv ?u" by (rule delay_inv_same[OF os_invD(3)[OF inv] t]) simp_all
  moreover have "ids_inv ?u" by (rule ids_inv_same[OF os_invD(4)[OF inv] t]) simp_all
  ultimately have "kinv ?u" by (simp add: kinv_def)
  then have i0: "os_inv ?u" by (rule os_inv_upd[OF inv, where t = t and d = "d\<lparr>sched_link := None\<rparr>"]) simp_all
  have "os_inv (?u\<lparr>k_task_id_manager := (k_task_id_manager ?u)(task_id d := None), tasks := (tasks ?u)(t := None)\<rparr>)"
    using free_task[OF i0, of t "d\<lparr>sched_link := None\<rparr>"] nd r by simp
  then have "os_inv (?u\<lparr>k_task_id_manager := (k_task_id_manager ?u)(task_id d := None), tasks := (tasks ?u)(t := None),
      xiaoshan_task_head := removeAll t (xiaoshan_task_head s)\<rparr>)"
    by simp
  then show "os_inv ?s" by (rule back_subst[of os_inv]) simp
qed

subsection \<open>Scheduling with a ready task\<close>

lemma DO_runs_highest:
  assumes inv: "sched_inv s" and r: "os_running_task s = Some r" and l: "GetOsAssignLockLevel s = 0"
    and irq: "\<not> isInIsr s" and ds: "DO_KTASK_ASSIGN s = Some s'"
    and t: "tasks s t = Some d" "JudgeKTaskStatIsReady d"
  shows "runs_highest s'"
proof -
  obtain p where "sched_link d = Some (ReadyVector p)" using sched_invD(2)[OF inv] t by (auto simp: ready_linked_def)
  then have "\<not> JudgeAssignReadyBitmapIsEmpty (os_assign_read_vector s)"
    using ready_nonempty[OF sched_invD(1)[OF inv] t(1)] bitmap_empty_iff[OF sched_invD(1)[OF inv]] by blast
  moreover have "KTaskOsAssign_select s = Some s'" using ds l irq by (simp add: DO_KTASK_ASSIGN_def KTaskOsAssign_def)
  ultimately show ?thesis using KTaskOsAssign_select_correct[OF inv r] by auto
qed

subsection \<open>Adding a task\<close>

lemma new_task:
  assumes inv: "os_inv s" and t: "tasks s t = None" and i: "k_task_id_manager s (task_id d) = None"
    "task_id d < ID_NUM_MAX (cfg s)" and d: "task_inv (cfg s) d" "sched_link d = None" "\<not> delayed d"
    "unat (origin_prio d) < KTASK_PRIORITY_MAX (cfg s)" "\<not> JudgeKTaskStatIsReady d" "\<not> JudgeKTaskStatIsRunning d"
  shows "os_inv (s\<lparr>tasks := (tasks s)(t \<mapsto> d), k_task_id_manager := (k_task_id_manager s)(task_id d \<mapsto> t)\<rparr>)"
proof -
  let ?u = "s\<lparr>tasks := (tasks s)(t \<mapsto> d), k_task_id_manager := (k_task_id_manager s)(task_id d \<mapsto> t)\<rparr>"
  have "links_inv ?u" using os_invD(6)[OF inv] t d(2) by (auto simp: links_inv_def)
  moreover have "rv_inv ?u" using os_invD(5)[OF inv] by (simp add: ready_inv_def rv_inv_def)
  ultimately have "sched_inv ?u" using os_invD(2,5)[OF inv] d by (auto simp: ready_inv_def sched_inv_def)
  moreover have "delay_inv ?u" using os_invD(3)[OF inv] t d(3) by (auto simp: delay_inv_def)
  moreover have "ids_inv ?u"
  proof -
    have "k_task_id_manager s j \<noteq> Some t" for j using ids_invD(1)[OF os_invD(4)[OF inv], of j t] t by auto
    moreover have "task_id e \<noteq> task_id d" if "tasks s v = Some e" for v e
      using ids_invD(2)[OF os_invD(4)[OF inv] that] i(1) by auto
    ultimately show ?thesis using os_invD(4)[OF inv] i(2) d(4) unfolding ids_inv_def by simp
  qed
  ultimately show ?thesis using os_invD(7)[OF inv] d(2) by (auto simp: os_inv_def kinv_def)
qed

text \<open>The descriptor of a freshly created task.\<close>

definition created :: "kconfig \<Rightarrow> nat \<Rightarrow> nat \<Rightarrow> string \<Rightarrow> nat \<Rightarrow> nat \<Rightarrow> uint32 \<Rightarrow> uint8 \<Rightarrow> TaskDescriptor" where
  "created c i stk name entry parameter depth priority = zero_task\<lparr>task_id := i, stack_start := stk,
     stack_depth := depth, task_name := take NAME_NUM_MAX name, func_entry := entry, func_param := parameter,
     origin_prio := priority, cur_prio := priority,
     origin_timeslice := (case SCHED_POLICY c of SCHED_POLICY_FIFO \<Rightarrow> 0 | _ \<Rightarrow> 10),
     rest_timeslice := (case SCHED_POLICY c of SCHED_POLICY_FIFO \<Rightarrow> 0 | _ \<Rightarrow> 10)\<rparr>"

lemma created_fields [simp]:
  "task_id (created c i stk name entry parameter depth priority) = i"
  "sched_link (created c i stk name entry parameter depth priority) = None"
  "\<not> delayed (created c i stk name entry parameter depth priority)"
  "origin_prio (created c i stk name entry parameter depth priority) = priority"
  "cur_prio (created c i stk name entry parameter depth priority) = priority"
  "task_name (created c i stk name entry parameter depth priority) = take NAME_NUM_MAX name"
  "KTaskStatGet (created c i stk name entry parameter depth priority) = KTASK_INIT"
  "bitmap_zero (created c i stk name entry parameter depth priority)"
  by (simp_all add: created_def zero_task_def delayed_def KTaskStatGet_def bitmap_zero_def stat_defs)

lemma InitKTask_ok:
  assumes "tasks s t = Some (zero_task\<lparr>task_id := i\<rparr>)" and "unat priority < KTASK_PRIORITY_MAX (cfg s)"
  shows "InitKTask (Some a) t name entry parameter depth priority s =
    Some (EOK, s\<lparr>tasks := (tasks s)(t \<mapsto> created (cfg s) i a name entry parameter depth priority)\<rparr>)"
  using assms
  by (cases "SCHED_POLICY (cfg s)")
    (simp_all add: InitKTask_def KTaskBaseInfoParse_def KTaskDyncMemberInit_def upd_task_def KTaskStatSetAsInit_def
      KTaskStateSet_def created_def zero_task_def FifoTaskTimesliceInit_def RoundRobinTaskTimesliceInit_def
      RoundRobinRemainTaskTimesliceInit_def stat_defs EOK_def)

lemma KTaskCreate_ok:
  assumes inv: "os_inv s" and irq: "\<not> isInIsr s" and t: "tasks s t = None"
    and i: "id_alloc (ID_NUM_MAX (cfg s)) (k_task_id_manager s) = Some i"
    and p: "unat priority < KTASK_PRIORITY_MAX (cfg s)"
    and s'_def: "s' = s\<lparr>tasks := (tasks s)(t \<mapsto> created (cfg s) i a name entry parameter depth priority),
      k_task_id_manager := (k_task_id_manager s)(i \<mapsto> t), xiaoshan_task_head := t # xiaoshan_task_head s\<rparr>"
  shows "KTaskCreate (Some t) (Some a) name entry parameter depth priority s = Some (int i, s')" and "os_inv s'"
proof -
  let ?d = "created (cfg s) i a name entry parameter depth priority"
  let ?s1 = "s\<lparr>tasks := (tasks s)(t \<mapsto> zero_task\<lparr>task_id := i\<rparr>),
      k_task_id_manager := (k_task_id_manager s)(i \<mapsto> t), xiaoshan_task_head := t # xiaoshan_task_head s\<rparr>"
  have "InitKTask (Some a) t name entry parameter depth priority ?s1 = Some (EOK, s')"
    using InitKTask_ok[of ?s1 t i priority a name entry parameter depth] p by (simp add: s'_def)
  then show "KTaskCreate (Some t) (Some a) name entry parameter depth priority s = Some (int i, s')"
    using irq i by (simp add: KTaskCreate_def Let_def upd_task_def CriticalAreaLock_def CriticalAreaUnLock_def)
  have ii: "i < ID_NUM_MAX (cfg s)" "k_task_id_manager s i = None" using i by (simp_all add: id_alloc_Some)
  have "task_inv (cfg s) ?d" using p by (simp add: task_inv_def task_ok_def Judge_StatGet)
  then have "os_inv (s\<lparr>tasks := (tasks s)(t \<mapsto> ?d), k_task_id_manager := (k_task_id_manager s)(i \<mapsto> t)\<rparr>)"
    using new_task[OF inv t, of ?d] ii p by (simp add: Judge_StatGet)
  then show "os_inv s'" unfolding s'_def by (subst os_inv_task_head)
qed

subsection \<open>A kernel with a task in every state\<close>

lemma demo_os_inv: "os_inv (demo_kernel m)"
proof -
  have "\<not> delayed (demo_task p st l i)" for p st l i by (simp add: delayed_def demo_task_def)
  then have "delay_inv (demo_kernel m)" by (auto simp: delay_inv_def demo_kernel_def split: if_splits)
  moreover have "ids_inv (demo_kernel m)" by (auto simp: ids_inv_def demo_kernel_def demo_task_def split: if_splits)
  moreover have "\<forall>t d. tasks (demo_kernel m) t = Some d \<longrightarrow> pend_ok d"
    by (auto simp: pend_ok_def demo_kernel_def demo_task_def split: if_splits)
  ultimately show ?thesis using demo_sched_inv[of m] by (simp add: os_inv_def kinv_def)
qed

text \<open>The same kernel with a third task, at address 30, that has been created but not started.\<close>

definition demo_init :: "'a \<Rightarrow> 'a kernel_scheme" where
  "demo_init m = (demo_kernel m)\<lparr>tasks := (tasks (demo_kernel m))(30 \<mapsto> demo_task 7 KTASK_INIT None 5),
     k_task_id_manager := (k_task_id_manager (demo_kernel m))(5 \<mapsto> 30)\<rparr>"

lemma demo_stat_init [simp]: "KTaskStatGet (demo_task p KTASK_INIT l i) = KTASK_INIT"
  by (simp add: KTaskStatGet_def demo_task_def)

lemma demo_init_inv: "os_inv (demo_init m)"
proof -
  have "os_inv ((demo_kernel m)\<lparr>tasks := (tasks (demo_kernel m))(30 \<mapsto> demo_task 7 KTASK_INIT None 5),
     k_task_id_manager := (k_task_id_manager (demo_kernel m))(task_id (demo_task 7 KTASK_INIT None 5) \<mapsto> 30)\<rparr>)"
    by (rule new_task[OF demo_os_inv])
      (simp_all add: demo_kernel_def task_inv_def task_ok_def Judge_StatGet bitmap_site_def delayed_def,
       simp_all add: demo_task_def)
  then show ?thesis by (simp add: demo_init_def demo_task_def)
qed

lemma demo_init_simps:
  "os_running_task (demo_init m) = Some 10" "GetOsAssignLockLevel (demo_init m) = 0" "\<not> isInIsr (demo_init m)"
  "tasks (demo_init m) 30 = Some (demo_task 7 KTASK_INIT None 5)"
  by (simp_all add: demo_init_def demo_kernel_def GetOsAssignLockLevel_def isInIsr_def)

text \<open>The kernel with the recycling task, suspended, at address 30.\<close>

definition demo_recycler :: TaskDescriptor where
  "demo_recycler = (demo_task 1 KTASK_SUSPEND None 5)\<lparr>task_name := ''ZombieRecycleKTask''\<rparr>"

definition demo_zombie :: "'a \<Rightarrow> 'a kernel_scheme" where
  "demo_zombie m = (demo_kernel m)\<lparr>tasks := (tasks (demo_kernel m))(30 \<mapsto> demo_recycler),
     k_task_id_manager := (k_task_id_manager (demo_kernel m))(5 \<mapsto> 30), zombie_recycle := 5\<rparr>"

lemma demo_recycler_simps [simp]:
  "KTaskStatGet demo_recycler = KTASK_SUSPEND" "task_id demo_recycler = 5" "sched_link demo_recycler = None"
  "\<not> delayed demo_recycler" "JudgeKTaskIsIdleOrZombierecycle demo_recycler"
  by (simp_all add: demo_recycler_def demo_task_def KTaskStatGet_def delayed_def JudgeKTaskIsIdleOrZombierecycle_def
      strncmp_eq_def stat_defs)

lemma os_inv_zombie [simp]: "os_inv (s\<lparr>zombie_recycle := z\<rparr>) = os_inv s"
  by (simp add: os_inv_def kinv_def delay_inv_def ids_inv_def sched_inv_def ready_inv_def rv_inv_def links_inv_def)

lemma demo_zombie_inv: "os_inv (demo_zombie m)"
proof -
  have "task_inv (cfg (demo_kernel m)) demo_recycler"
    by (simp add: task_inv_def task_ok_def bitmap_site_def)
      (simp add: demo_recycler_def demo_task_def demo_kernel_def)
  then have "os_inv ((demo_kernel m)\<lparr>tasks := (tasks (demo_kernel m))(30 \<mapsto> demo_recycler),
     k_task_id_manager := (k_task_id_manager (demo_kernel m))(task_id demo_recycler \<mapsto> 30)\<rparr>)"
    by (intro new_task[OF demo_os_inv])
      (simp_all add: Judge_StatGet, simp_all add: demo_kernel_def demo_recycler_def demo_task_def)
  then show ?thesis by (simp add: demo_zombie_def)
qed

lemma demo_zombie_simps:
  "os_running_task (demo_zombie m) = Some 10" "GetOsAssignLockLevel (demo_zombie m) = 0" "\<not> isInIsr (demo_zombie m)"
  "tasks (demo_zombie m) 20 = Some (demo_task 5 KTASK_READY (Some (ReadyVector 5)) 3)"
  "tasks (demo_zombie m) 30 = Some demo_recycler" "zombie_recycle (demo_zombie m) = int (task_id demo_recycler)"
  by (simp_all add: demo_zombie_def demo_kernel_def GetOsAssignLockLevel_def isInIsr_def)

text \<open>The kernel with a deleted task at address 40.\<close>

definition demo_closed :: TaskDescriptor where
  "demo_closed = demo_task 4 KTASK_CLOSE (Some KTaskZombie) 6"

definition demo_deleted :: "'a \<Rightarrow> 'a kernel_scheme" where
  "demo_deleted m = (demo_zombie m)\<lparr>tasks := (tasks (demo_zombie m))(40 \<mapsto> demo_closed),
     lists := (lists (demo_zombie m))(KTaskZombie := [40]),
     k_task_id_manager := (k_task_id_manager (demo_zombie m))(6 \<mapsto> 40)\<rparr>"

lemma demo_closed_simps [simp]:
  "KTaskStatGet (demo_task p KTASK_CLOSE l i) = KTASK_CLOSE" "\<not> delayed demo_closed" "task_id demo_closed = 6"
  "KTaskStatGet demo_closed = KTASK_CLOSE" "sched_link demo_closed = Some KTaskZombie"
  by (simp_all add: demo_closed_def demo_task_def KTaskStatGet_def delayed_def)

lemma demo_deleted_inv: "os_inv (demo_deleted m)"
proof -
  let ?d = "demo_closed\<lparr>sched_link := None\<rparr>"
  let ?s = "(demo_zombie m)\<lparr>tasks := (tasks (demo_zombie m))(40 \<mapsto> ?d),
     k_task_id_manager := (k_task_id_manager (demo_zombie m))(task_id ?d \<mapsto> 40)\<rparr>"
  have c: "cfg (demo_zombie m) = cfg (demo_kernel m)" by (simp add: demo_zombie_def)
  have "task_inv (cfg (demo_zombie m)) ?d"
    by (simp add: task_inv_def task_ok_def bitmap_site_def c)
      (simp add: demo_closed_def demo_task_def demo_kernel_def)
  then have i: "os_inv ?s"
    by (intro new_task[OF demo_zombie_inv])
      (simp_all add: Judge_StatGet, simp_all add: demo_zombie_def demo_kernel_def demo_closed_def demo_task_def)
  have e: "?d\<lparr>sched_link := Some KTaskZombie\<rparr> = demo_closed" by (simp add: demo_closed_def demo_task_def)
  have "os_inv (?s\<lparr>lists := (lists ?s)(KTaskZombie := 40 # lists ?s KTaskZombie), tasks := (tasks ?s)(40 \<mapsto> demo_closed)\<rparr>)"
    using insert_pend(2)[OF i, of 40 ?d KTaskZombie "\<lambda>xs. 40 # xs", unfolded e]
    by (simp add: pend_ok_def Judge_StatGet)
  then show ?thesis
    by (rule back_subst[of os_inv]) (simp add: demo_deleted_def demo_zombie_def demo_kernel_def)
qed

lemma demo_deleted_simps:
  "lists (demo_deleted m) KTaskZombie = 40 # []" "tasks (demo_deleted m) 40 = Some demo_closed"
  "\<not> isInIsr (demo_deleted m)" "os_running_task (demo_deleted m) \<noteq> Some 40"
  by (simp_all add: demo_deleted_def demo_zombie_def demo_kernel_def isInIsr_def)

subsection \<open>Properties\<close>





lemma do_DeleteKTask_ok:
  assumes inv: "os_inv s" and r: "os_running_task s = Some r" and lock: "GetOsAssignLockLevel s = 0"
    and t: "tasks s t = Some d" "\<not> JudgeKTaskIsIdleOrZombierecycle d"
    and z: "tasks s z = Some e" "zombie_recycle s = int (task_id e)" "z \<noteq> t"
  obtains mid s' where "do_DeleteKTask t s = Some (EOK, s')" "assigned mid s'" "tasks mid t = Some (zombie_desc d)"
    "\<forall>u. u \<noteq> t \<and> u \<noteq> z \<longrightarrow> tasks mid u = tasks s u"
    "\<exists>e'. tasks mid z = Some e' \<and> \<not> JudgeKTaskStatIsSuspend e'"
proof -
  let ?s = "CriticalAreaLock s"
  have o: "os_inv ?s" "tasks ?s t = Some d" using inv t by simp_all
  let ?f = "\<lambda>s L rv. s\<lparr>lists := L, tasks := (tasks s)(t \<mapsto> zombie_desc d), os_assign_read_vector := rv\<rparr>"
  obtain s1 L rv where c: "KTaskResourceDelete t ?s = Some s1" "sched_link_front KTaskZombie t s1 = Some (?f ?s L rv)"
    and i2: "os_inv (?f ?s L rv)" and ze: "L KTaskZombie = t # removeAll t (lists ?s KTaskZombie)"
    by (rule close_steps[OF o])
  let ?s2 = "?f ?s L rv"
  have zid: "zombie_recycle ?s2 = int (task_id e)" and tz: "tasks ?s2 z = Some e" using z by simp_all
  obtain x s3 where w: "KTaskWakeup (int (task_id e)) ?s2 = Some (x, s3)" and i3: "os_inv s3"
    and eq: "os_running_task s3 = Some r" "KTaskOsAssignLockNest s3 = Suc (KTaskOsAssignLockNest s)"
      "tasks s3 t = Some (zombie_desc d)" "\<forall>u. u \<noteq> t \<and> u \<noteq> z \<longrightarrow> tasks s3 u = tasks s u"
      "\<exists>e'. tasks s3 z = Some e' \<and> \<not> JudgeKTaskStatIsSuspend e'"
  proof (cases "JudgeKTaskStatIsSuspend e")
    case True
    obtain s3 where w: "KTaskWakeup (int (task_id e)) ?s2 = Some (EOK, s3)" "wakes z ?s2 s3"
      using KTaskWakeup_wakes[OF i2 tz True] by blast
    note wd = wakesD[OF w(2)]
    have "tasks s3 = (tasks ?s2)(z \<mapsto> ready_desc (undelay e))" using wd(12) tz by auto
    then show thesis using that[OF w(1) wd(1)] wd(3,5) r z(3)
      by (simp add: CriticalAreaLock_def Judge_StatGet)
  next
    case False
    show thesis using that[OF KTaskWakeup_awake[OF i2 tz False] i2] r tz False by (simp add: CriticalAreaLock_def)
  qed
  let ?m = "CriticalAreaUnLock s3"
  have im: "os_inv ?m" using i3 by simp
  have "GetOsAssignLockLevel ?m = 0" using eq(2) lock by (simp add: GetOsAssignLockLevel_def CriticalAreaUnLock_def)
  then obtain s' where a: "assigned ?m s'" using assignedI[OF im, of r] eq(1) by auto
  have "do_DeleteKTask t s = Some (EOK, s')"
    using t c w zid ze assignedD(1)[OF a] z(2)
    by (simp add: do_DeleteKTask_def Let_def JudgeZombieKTaskIsNotEmpty_def)
  then show thesis using that[OF _ a] eq(3,4,5) by simp
qed

text \<open>C19: Deleting a task other than the idle and the recycling task keeps the kernel invariant: the
  task is closed and in the list of zombies and nowhere else, the recycling task is awake, and every
  other task keeps its identity, priority, delay and error status.\<close>

theorem KTaskDelete_correct:
  assumes "os_inv s" and "os_running_task s = Some r" and "GetOsAssignLockLevel s = 0"
    and "tasks s t = Some d" and "\<not> JudgeKTaskIsIdleOrZombierecycle d"
    and "tasks s z = Some e" and "zombie_recycle s = int (task_id e)" and "JudgeKTaskIsIdleOrZombierecycle e"
  shows "\<exists>s' d' e'. KTaskDelete (int (task_id d)) s = Some (EOK, s') \<and> os_inv s' \<and>
    tasks s' t = Some d' \<and> JudgeKTaskStatIsClose d' \<and> (\<forall>l. t \<in> set (lists s' l) \<longleftrightarrow> l = KTaskZombie) \<and>
    tasks s' z = Some e' \<and> \<not> JudgeKTaskStatIsSuspend e' \<and>
    (\<forall>u. u \<noteq> t \<and> u \<noteq> z \<longrightarrow> map_option nsched (tasks s' u) = map_option nsched (tasks s u))"
proof -
  have zt: "z \<noteq> t" using assms(4,5,6,8) by auto
  obtain mid s' where del: "do_DeleteKTask t s = Some (EOK, s')" and a: "assigned mid s'"
    and t: "tasks mid t = Some (zombie_desc d)" and o: "\<forall>u. u \<noteq> t \<and> u \<noteq> z \<longrightarrow> tasks mid u = tasks s u"
    and z: "\<exists>e'. tasks mid z = Some e' \<and> \<not> JudgeKTaskStatIsSuspend e'"
    by (rule do_DeleteKTask_ok[OF assms(1-7) zt])
  have get: "KTaskDelete (int (task_id d)) s = do_DeleteKTask t s"
    using ids_inv_get[OF os_invD(4)[OF assms(1)] assms(4)] by (simp add: KTaskDelete_def)
  have t': "tasks s' t = Some (zombie_desc d)" using assignedD(6)[OF a t] by (simp add: Judge_StatGet)
  obtain e' where e': "tasks mid z = Some e'" "\<not> JudgeKTaskStatIsSuspend e'" using z by blast
  obtain e'' where e'': "tasks s' z = Some e''" using sched_step_task(2)[OF assignedD(4)[OF a] e'(1)] by blast
  have "\<not> JudgeKTaskStatIsSuspend e''"
  proof (cases "JudgeKTaskStatIsReady e' \<or> JudgeKTaskStatIsRunning e'")
    case True
    then show ?thesis using assignedD(5)[OF a e'(1)] e'' by (auto simp: Judge_StatGet)
  next
    case False
    then have "tasks s' z = Some e'" using a e'(1) unfolding assigned_def by presburger
    then show ?thesis using e'' e'(2) by simp
  qed
  moreover have "t \<in> set (lists s' l) \<longleftrightarrow> l = KTaskZombie" for l
    using links_invD(2)[OF os_invD(6)[OF assignedD(3)[OF a]], of t l] t' by auto
  moreover have "map_option nsched (tasks s' u) = map_option nsched (tasks s u)" if "u \<noteq> t" "u \<noteq> z" for u
    using sched_step_fields(11)[OF assignedD(4)[OF a], of u] o that by simp
  moreover have "JudgeKTaskStatIsClose (zombie_desc d)" by (simp add: Judge_StatGet)
  ultimately show ?thesis using get del assignedD(3)[OF a] t' e'' by auto
qed

theorem KTaskDelete_correct_witness:
  "\<exists>s' d'. KTaskDelete 3 (demo_zombie ()) = Some (EOK, s') \<and> os_inv s' \<and> tasks s' 20 = Some d' \<and>
     JudgeKTaskStatIsClose d' \<and> 20 \<in> set (lists s' KTaskZombie)"
proof -
  have d: "\<not> JudgeKTaskIsIdleOrZombierecycle (demo_task 5 KTASK_READY (Some (ReadyVector 5)) 3)"
    "task_id (demo_task 5 KTASK_READY (Some (ReadyVector 5)) 3) = 3"
    by (simp_all add: demo_task_def JudgeKTaskIsIdleOrZombierecycle_def strncmp_eq_def)
  show ?thesis
    using KTaskDelete_correct[OF demo_zombie_inv demo_zombie_simps(1,2,4) d(1) demo_zombie_simps(5,6), of "()"] d(2)
    by auto
qed

text \<open>C20: One turn of the recycling task frees the first zombie: its descriptor, its identifier and its
  place in the task list are gone and the kernel invariant holds, provided the zombie has no delay
  pending. Deleting a task does not cancel its delay, so otherwise the delay list keeps a reference to
  the freed record.\<close>

theorem ZombieKTaskEntry_correct:
  assumes "os_inv s" and "lists s KTaskZombie = t # ts" and "tasks s t = Some d" and "\<not> isInIsr s"
    and "os_running_task s \<noteq> Some t"
  shows "\<exists>s'. ZombieKTaskEntry s = Some s' \<and> tasks s' t = None \<and> k_task_id_manager s' (task_id d) = None \<and>
    t \<notin> set (xiaoshan_task_head s') \<and> lists s' KTaskZombie = ts \<and> (\<forall>u. u \<noteq> t \<longrightarrow> tasks s' u = tasks s u) \<and>
    (if delayed d then t \<in> set (xiaoshan_delay_head s') else os_inv s')"
proof -
  have "t \<in> set (xiaoshan_delay_head s)" if "delayed d"
    using os_invD(3)[OF assms(1)] assms(3) that by (auto simp: delay_inv_def)
  then show ?thesis using recycle_steps[OF assms(1-4)] assms(5) by auto
qed

theorem ZombieKTaskEntry_correct_witness:
  "\<exists>s'. ZombieKTaskEntry (demo_deleted ()) = Some s' \<and> tasks s' 40 = None \<and> os_inv s'"
proof -
  have "\<not> delayed demo_closed" by simp
  then show ?thesis using ZombieKTaskEntry_correct[OF demo_deleted_inv demo_deleted_simps, of "()"] by auto
qed



text \<open>C34: When the priority is out of range or there is no memory for the stack, the creation is
  abandoned after the task has been entered in the task list. The identifier is given back, but the
  task list keeps the freed descriptor, and the next search by name follows it.\<close>

theorem KTaskCreate_failure_dangles:
  assumes "os_inv s" and "\<not> isInIsr s" and "tasks s t = None"
    and "id_alloc (ID_NUM_MAX (cfg s)) (k_task_id_manager s) = Some i"
    and "unat priority \<ge> KTASK_PRIORITY_MAX (cfg s) \<or> stk = None"
  shows "\<exists>s'. KTaskCreate (Some t) stk name entry parameter depth priority s = Some (- ERROR, s') \<and>
    os_inv s' \<and> tasks s' = tasks s \<and> k_task_id_manager s' = k_task_id_manager s \<and>
    xiaoshan_task_head s' = t # xiaoshan_task_head s \<and> KTaskSearch other s' = None"
proof -
  let ?s = "s\<lparr>tasks := (tasks s)(t \<mapsto> zero_task\<lparr>task_id := i\<rparr>), k_task_id_manager := (k_task_id_manager s)(i \<mapsto> t),
      xiaoshan_task_head := t # xiaoshan_task_head s\<rparr>"
  have i: "i < ID_NUM_MAX (cfg s)" "k_task_id_manager s i = None" using assms(4) by (simp_all add: id_alloc_Some)
  have b: "i < 65536" using i(1) os_invD(4)[OF assms(1)] by (simp add: ids_inv_def)
  have "InitKTask stk t name entry parameter depth priority ?s = Some (- ERROR, ?s)"
    using assms(5) by (cases stk) (auto simp: InitKTask_def KTaskBaseInfoParse_def err_defs)
  moreover have "(k_task_id_manager s)(i := None) = k_task_id_manager s" "(tasks s)(t := None) = tasks s"
    using i(2) assms(3) by (auto simp: fun_eq_iff)
  ultimately have "KTaskCreate (Some t) stk name entry parameter depth priority s =
      Some (- ERROR, s\<lparr>xiaoshan_task_head := t # xiaoshan_task_head s\<rparr>)"
    using assms(2,4) b
    by (simp add: KTaskCreate_def Let_def upd_task_def CriticalAreaLock_def CriticalAreaUnLock_def id_del_int err_defs)
  then show ?thesis using assms(1,3) by (simp add: KTaskSearch_def)
qed

theorem KTaskCreate_failure_dangles_witness:
  "\<exists>s'. KTaskCreate (Some 50) (Some 8192) ''worker'' 4096 0 512 32 (demo_kernel ()) = Some (- ERROR, s') \<and>
     KTaskSearch ''task'' s' = None"
proof -
  have "id_alloc 128 [0 \<mapsto> 10, 3 \<mapsto> 20 :: nat] = Some 1" by (simp add: id_alloc_Some)
  then have "id_alloc (ID_NUM_MAX (cfg (demo_kernel ()))) (k_task_id_manager (demo_kernel ())) = Some 1"
    by (simp add: demo_kernel_def)
  moreover have "tasks (demo_kernel ()) 50 = None" "unat (32 :: uint8) \<ge> KTASK_PRIORITY_MAX (cfg (demo_kernel ()))"
    by (simp_all add: demo_kernel_def)
  ultimately show ?thesis
    using KTaskCreate_failure_dangles[OF demo_os_inv demo_simps(3), of "()" 50 1 32 "Some 8192" "''worker''" 4096 0 512 "''task''"]
    by auto
qed

lemma KTaskPrioSet_effect:
  assumes "os_inv s" and "tasks s t = Some d" and "\<not> JudgeKTaskStatIsReady d"
    and "unat prio < KTASK_PRIORITY_MAX (cfg s)"
  shows "KTaskPrioSet (int (task_id d)) prio s =
    (if strncmp_eq ''ktaskidle'' (task_name d) 9 then Some (- ERROR, s)
     else if JudgeKTaskStatIsClose d then Some (EOK, s)
     else if JudgeKTaskStatIsInit d \<or> JudgeKTaskStatIsSuspend d \<or> JudgeKTaskStatIsRunning d
     then Some (EOK, s\<lparr>tasks := (tasks s)(t \<mapsto> prio_desc (cfg s) prio d)\<rparr>)
     else Some (- EINVALED, s))"
proof -
  have get: "KTaskPrioSet (int (task_id d)) prio s = do_KTaskPrioSet t prio s"
    using ids_inv_get[OF os_invD(4)[OF assms(1)] assms(2)] by (simp add: KTaskPrioSet_def)
  let ?s = "CriticalAreaLock s" and ?d = "prio_desc (cfg s) prio d"
  have o: "os_inv ?s" "tasks ?s t = Some d" "unat prio < KTASK_PRIORITY_MAX (cfg ?s)" using assms by simp_all
  note sp = set_prio[OF o(1,2) assms(3) o(3)]
  obtain s1 where s1: "upd_task t (\<lambda>d. d\<lparr>cur_prio := prio\<rparr>) ?s = Some s1" "BitmapSiteMask t s1 = Some (?s\<lparr>tasks := (tasks s)(t \<mapsto> ?d)\<rparr>)"
    using sp(1) unfolding bind_eq_Some_conv by auto
  have "CriticalAreaUnLock (?s\<lparr>tasks := (tasks s)(t \<mapsto> ?d)\<rparr>) = s\<lparr>tasks := (tasks s)(t \<mapsto> ?d)\<rparr>"
    by (simp add: CriticalAreaUnLock_def CriticalAreaLock_def)
  then show ?thesis unfolding get
    using assms(2,3) s1 by (auto simp: do_KTaskPrioSet_def Let_def Judge_StatGet)
qed

text \<open>C22: Setting the priority of a task that is not ready, to a value in range, keeps the kernel
  invariant: an idle task is refused, a closed one is left alone, and any other gets the priority and
  the bitmap position that belongs to it.\<close>

theorem KTaskPrioSet_correct:
  assumes "os_inv s" and "tasks s t = Some d" and "\<not> JudgeKTaskStatIsReady d"
    and "unat prio < KTASK_PRIORITY_MAX (cfg s)"
  shows "if strncmp_eq ''ktaskidle'' (task_name d) 9 then KTaskPrioSet (int (task_id d)) prio s = Some (- ERROR, s)
    else if JudgeKTaskStatIsClose d then KTaskPrioSet (int (task_id d)) prio s = Some (EOK, s)
    else if JudgeKTaskStatIsInit d \<or> JudgeKTaskStatIsSuspend d \<or> JudgeKTaskStatIsRunning d
    then \<exists>s' d'. KTaskPrioSet (int (task_id d)) prio s = Some (EOK, s') \<and> os_inv s' \<and> tasks s' = (tasks s)(t \<mapsto> d') \<and>
      cur_prio d' = prio \<and> bitmap_site (cfg s) (unat prio) d' \<and> KTaskStatGet d' = KTaskStatGet d \<and> lists s' = lists s
    else KTaskPrioSet (int (task_id d)) prio s = Some (- EINVALED, s)"
  using KTaskPrioSet_effect[OF assms] set_prio(2)[OF assms] by auto

theorem KTaskPrioSet_correct_witness:
  "\<exists>s' d'. KTaskPrioSet 0 9 (demo_kernel ()) = Some (EOK, s') \<and> os_inv s' \<and> tasks s' 10 = Some d' \<and> cur_prio d' = 9"
proof -
  let ?d = "demo_task 0 KTASK_RUNNING None 0"
  have "\<not> JudgeKTaskStatIsReady ?d" "JudgeKTaskStatIsRunning ?d" "\<not> JudgeKTaskStatIsClose ?d"
    "\<not> strncmp_eq ''ktaskidle'' (task_name ?d) 9" "task_id ?d = 0"
    "unat (9 :: uint8) < KTASK_PRIORITY_MAX (cfg (demo_kernel ()))"
    by (simp_all add: Judge_StatGet) (simp_all add: demo_task_def strncmp_eq_def demo_kernel_def)
  then show ?thesis using KTaskPrioSet_correct[OF demo_os_inv demo_simps(4), of 9 "()"] by auto
qed

text \<open>C35: For a ready task the new priority is stored before the task leaves its ready list, so the test
  for an empty list looks at the wrong one: with another ready task at the old priority and none at the
  new one, the bit of the old priority is cleared. The other task is still ready and linked, but the
  scheduler no longer sees it.\<close>

theorem KTaskPrioSet_loses_ready_task:
  assumes inv: "os_inv s" and t: "tasks s t = Some d" "JudgeKTaskStatIsReady d"
    and u: "tasks s u = Some e" "JudgeKTaskStatIsReady e" "cur_prio e = cur_prio d" "u \<noteq> t"
    and q: "unat q < KTASK_PRIORITY_MAX (cfg s)" "lists s (ReadyVector (unat q)) = []"
    and n: "\<not> strncmp_eq ''ktaskidle'' (task_name d) 9"
  shows "\<exists>s'. KTaskPrioSet (int (task_id d)) q s = Some (EOK, s') \<and> tasks s' u = Some e \<and>
    u \<in> set (lists s' (ReadyVector (unat (cur_prio e)))) \<and>
    \<not> rv_mem (cfg s') (os_assign_read_vector s') (unat (cur_prio e)) \<and> \<not> ready_inv s'"
proof -
  let ?p = "unat (cur_prio d)" and ?c = "cfg s" and ?s = "CriticalAreaLock s"
  note ri = os_invD(5)[OF inv] and i = ready_invD[OF os_invD(5)[OF inv]]
  have link: "sched_link x = Some (ReadyVector (unat (cur_prio x)))" if "tasks s v = Some x" "JudgeKTaskStatIsReady x" for v x
    using sched_invD(2)[OF os_invD(2)[OF inv]] i(5)[OF that(1)] that by (auto simp: ready_linked_def task_inv_def)
  have up: "u \<in> set (lists s (ReadyVector ?p))" "t \<in> set (lists s (ReadyVector ?p))"
    using links_invD(2)[OF i(1)] link[OF u(1,2)] link[OF t] u(1,3) t(1) by auto
  have pq: "?p \<noteq> unat q" using up(1) q(2) by auto
  have site: "bitmap_site ?c ?p d" and p: "?p < KTASK_PRIORITY_MAX ?c"
    using task_site[OF ri t(1)] t(2) i(5)[OF t(1)] by (auto simp: Judge_StatGet task_inv_def task_ok_def)
  define d1 where "d1 = d\<lparr>cur_prio := q\<rparr>"
  define s1 where "s1 = ?s\<lparr>tasks := (tasks s)(t \<mapsto> d1)\<rparr>"
  let ?d2 = "d1\<lparr>sched_link := None\<rparr>"
  let ?rv = "CLEAR_READY ?c d1 (os_assign_read_vector s)"
  let ?L = "(lists s)(ReadyVector ?p := removeAll t (lists s (ReadyVector ?p)))"
  have t1: "tasks s1 t = Some d1" "unat (cur_prio d1) < KTASK_PRIORITY_MAX (cfg s1)"
    using q(1) by (simp_all add: s1_def d1_def)
  have ul: "unlinked_lists s1 t d1 = ?L" using link[OF t] by (simp add: unlinked_lists_def d1_def s1_def)
  have rv: "cleared_rv s1 t d1 = ?rv\<lparr>highest_prio := HIGHEST_READY ?c ?rv\<rparr>"
    unfolding cleared_rv_def ul using q(2) pq by (simp add: d1_def s1_def Let_def CriticalAreaLock_def)
  define s2 where "s2 = s1\<lparr>lists := ?L, tasks := (tasks s1)(t \<mapsto> ?d2), os_assign_read_vector := cleared_rv s1 t d1\<rparr>"
  have rm: "KTaskOsAssignRemoveKTask t s1 = Some s2"
    using KTaskOsAssignRemoveKTask_effect[OF t1] by (simp add: s2_def ul)
  let ?d3 = "site_mask ?c ?d2"
  define s3 where "s3 = s2\<lparr>tasks := (tasks s2)(t \<mapsto> ?d3)\<rparr>"
  have bm: "BitmapSiteMask t s2 = Some s3"
    using BitmapSiteMask_effect[of s2 t ?d2] q(1) by (simp add: s3_def s2_def s1_def d1_def)
  obtain xs where ins: "KTaskInsertToReadyVector t s3 = Some (s3\<lparr>lists := (lists s3)(ReadyVector (unat q) := xs),
     tasks := (tasks s3)(t \<mapsto> (set_stat KTASK_READY ?d3)\<lparr>sched_link := Some (ReadyVector (unat q))\<rparr>),
     os_assign_read_vector := (MERGE_READY ?c ?d3 (os_assign_read_vector s3))\<lparr>highest_prio :=
       max (unat q) (highest_prio (os_assign_read_vector s3))\<rparr>\<rparr>)" (is "_ = Some ?s4")
    using KTaskInsertToReadyVector_effect[of s3 t ?d3] q(1) by (auto simp: s3_def s2_def s1_def d1_def)
  let ?s' = "CriticalAreaUnLock ?s4"
  have c: "do_KTaskPrioSet t q s = Some (EOK, ?s')"
    using t n rm bm ins by (simp add: do_KTaskPrioSet_def Let_def upd_task_def s1_def d1_def Judge_StatGet)
  have site1: "bitmap_site ?c ?p d1" using site by (simp add: d1_def bitmap_site_def)
  have site3: "bitmap_site ?c (unat q) ?d3" using site_mask_site[of ?c ?d2] by (simp add: d1_def)
  have ok: "rv_ok ?c (?rv\<lparr>highest_prio := HIGHEST_READY ?c ?rv\<rparr>)" using CLEAR_READY_ok[OF i(2) p site1] by simp
  have "\<not> rv_mem ?c (MERGE_READY ?c ?d3 (os_assign_read_vector s3)) ?p"
    using MERGE_READY_mem[OF ok q(1) site3] CLEAR_READY_mem[OF i(2) p site1] pq
    by (simp add: s3_def s2_def rv)
  moreover have "cfg ?s' = ?c" by (simp add: s3_def s2_def s1_def)
  ultimately have nm: "\<not> rv_mem (cfg ?s') (os_assign_read_vector ?s') ?p" by (simp add: CriticalAreaUnLock_def)
  have lu: "u \<in> set (lists ?s' (ReadyVector ?p))" using up(1) pq u(4) by (simp add: s3_def s2_def)
  have "\<not> ready_inv ?s'"
  proof
    assume "ready_inv ?s'"
    then have "lists ?s' (ReadyVector ?p) = []" using ready_invD(4)[of ?s' ?p] nm by blast
    then show False using lu by simp
  qed
  moreover have "tasks ?s' u = Some e" using u by (simp add: s3_def s2_def s1_def)
  moreover have "KTaskPrioSet (int (task_id d)) q s = Some (EOK, ?s')"
    using ids_inv_get[OF os_invD(4)[OF inv] t(1)] c by (simp add: KTaskPrioSet_def)
  ultimately show ?thesis using nm lu u(3) by auto
qed

theorem KTaskPrioSet_loses_ready_task_witness:
  "\<exists>(s :: kernel) s' e. os_inv s \<and> KTaskPrioSet 3 2 s = Some (EOK, s') \<and> tasks s' 40 = Some e \<and> JudgeKTaskStatIsReady e \<and> \<not> ready_inv s'"
proof -
  let ?w = "demo_task 5 KTASK_SUSPEND None 6" and ?d = "demo_task 5 KTASK_READY (Some (ReadyVector 5)) 3"
  let ?k = "demo_kernel ()"
  let ?s = "?k\<lparr>tasks := (tasks ?k)(40 \<mapsto> ?w), k_task_id_manager := (k_task_id_manager ?k)(task_id ?w \<mapsto> 40)\<rparr>"
  have st: "KTaskStatGet ?w = KTASK_SUSPEND" by (simp add: KTaskStatGet_def demo_task_def)
  have "task_inv (cfg ?k) ?w"
    by (simp add: task_inv_def task_ok_def bitmap_site_def) (simp add: demo_task_def demo_kernel_def)
  then have i: "os_inv ?s"
    by (intro new_task[OF demo_os_inv]) (simp_all add: Judge_StatGet st, simp_all add: demo_kernel_def demo_task_def delayed_def)
  have w: "tasks ?s 40 = Some ?w" "JudgeKTaskStatIsSuspend ?w" by (simp_all add: Judge_StatGet st)
  obtain s where wk: "wakes 40 ?s s" by (rule KTaskWakeup_wakes[OF i w])
  have ts: "tasks s = (tasks ?s)(40 \<mapsto> ready_desc (undelay ?w))" using wakesD(12)[OF wk] w by auto
  have t: "tasks s 20 = Some ?d" "JudgeKTaskStatIsReady ?d" by (simp_all add: ts Judge_StatGet) (simp add: demo_kernel_def)
  have u: "tasks s 40 = Some (ready_desc (undelay ?w))" "JudgeKTaskStatIsReady (ready_desc (undelay ?w))"
    "cur_prio (ready_desc (undelay ?w)) = cur_prio ?d" "40 \<noteq> (20 :: nat)"
    by (simp_all add: ts Judge_StatGet) (simp add: demo_task_def)
  have nv: "v \<notin> set (lists s (ReadyVector 2))" for v
    using links_invD(2)[OF os_invD(6)[OF wakesD(1)[OF wk]], of v "ReadyVector 2"]
    by (auto simp: ts demo_kernel_def split: if_splits) (auto simp: demo_task_def)
  have q: "lists s (ReadyVector (unat (2 :: uint8))) = []" using nv[of "hd (lists s (ReadyVector 2))"] by (cases "lists s (ReadyVector 2)") simp_all
  have "unat (2 :: uint8) < KTASK_PRIORITY_MAX (cfg s)" by (simp add: wakesD(2)[OF wk] demo_kernel_def)
  note b = KTaskPrioSet_loses_ready_task[OF wakesD(1)[OF wk] t u this q]
  have n: "\<not> strncmp_eq ''ktaskidle'' (task_name ?d) 9" "int (task_id ?d) = 3" by (simp_all add: demo_task_def strncmp_eq_def)
  obtain s' where "KTaskPrioSet 3 2 s = Some (EOK, s')" "tasks s' 40 = Some (ready_desc (undelay ?w))" "\<not> ready_inv s'"
    using b[OF n(1), unfolded n(2)] by blast
  then show ?thesis using wakesD(1)[OF wk] u(2) by blast
qed

end
