(* ===== verification/Heartbeat.thy ===== *)
theory Heartbeat
  imports Lifecycle
begin

text \<open>
  What the tick interrupt does to tasks (\<^verbatim>\<open>tick.c\<close>, \<^verbatim>\<open>delay.c\<close>, \<^verbatim>\<open>assign_roundrobin.c\<close>,
  \<^verbatim>\<open>assign_roundrobinremain.c\<close>): the time slice of the running task and the check of the delay list. The
  loop of \<^verbatim>\<open>CheckTaskDelay\<close> ends only when the delay list does, so it is a partial function whose value
  is \<open>None\<close> when it does not return.
\<close>

definition TICK_SIZE_MAX :: uint32 where "TICK_SIZE_MAX = 0xFFFFFFFF"

definition FifoTaskTimesliceUpdate :: "'a kernel_scheme \<Rightarrow> 'a kernel_scheme option" where
  "FifoTaskTimesliceUpdate s = Some s"

definition RoundRobinTaskTimesliceUpdate :: "tid \<Rightarrow> 'a kernel_scheme \<Rightarrow> 'a kernel_scheme option" where
  "RoundRobinTaskTimesliceUpdate t s = do {
     s \<leftarrow> upd_task t (\<lambda>d. d\<lparr>rest_timeslice := rest_timeslice d - 1\<rparr>) s;
     d \<leftarrow> tasks s t;
     if rest_timeslice d = 0 then do {
       s \<leftarrow> upd_task t (\<lambda>d. d\<lparr>rest_timeslice := origin_timeslice d\<rparr>) s;
       DO_KTASK_ASSIGN s }
     else Some s }"

definition RoundRobinRemainTaskTimesliceUpdate :: "tid \<Rightarrow> 'a kernel_scheme \<Rightarrow> 'a kernel_scheme option" where
  "RoundRobinRemainTaskTimesliceUpdate t s = do {
     s \<leftarrow> upd_task t (\<lambda>d. d\<lparr>rest_timeslice := rest_timeslice d - 1\<rparr>) s;
     d \<leftarrow> tasks s t;
     if rest_timeslice d = 0 then do {
       s \<leftarrow> (if advance_cnt d < KTASK_MAX_ADVANCE_PROCESS_TIME
             then upd_task t (\<lambda>d. d\<lparr>advance_cnt := advance_cnt d + 1\<rparr>) s else Some s);
       s \<leftarrow> upd_task t (\<lambda>d. d\<lparr>rest_timeslice := origin_timeslice d\<rparr>) s;
       DO_KTASK_ASSIGN s }
     else Some s }"

partial_function (option) CheckTaskDelay_loop :: "x_ticks_t \<Rightarrow> 'a kernel_scheme \<Rightarrow> 'a kernel_scheme option" where
  "CheckTaskDelay_loop current_tick s = (case xiaoshan_delay_head s of
       [] \<Rightarrow> Some s
     | t # _ \<Rightarrow> do { d \<leftarrow> tasks s t;
         node \<leftarrow> delay d;
         if current_tick - delay_ticks node < TICK_SIZE_MAX div 2 then do {
           let current_tick = CurrentTicksGain s;
           (_, s) \<leftarrow> KTaskUnSetDelay t s;
           let s = CriticalAreaUnLock s;
           s \<leftarrow> KTaskTimeout t s;
           let s = CriticalAreaLock s;
           CheckTaskDelay_loop current_tick s }
         else Some s })"

definition CheckTaskDelay :: "'a kernel_scheme \<Rightarrow> 'a kernel_scheme option" where
  "CheckTaskDelay s = do {
     let current_tick = CurrentTicksGain s;
     let s = CriticalAreaLock s;
     s \<leftarrow> CheckTaskDelay_loop current_tick s;
     Some (CriticalAreaUnLock s) }"

text \<open>The tick interrupt up to the check of the software timers.\<close>

definition UPDATE_GLOBAL_HEARTBEAT :: "'a kernel_scheme \<Rightarrow> 'a kernel_scheme" where
  "UPDATE_GLOBAL_HEARTBEAT s = s\<lparr>heartbeat_ticks := heartbeat_ticks s + 1\<rparr>"

definition TaskTimesliceUpdate :: "'a kernel_scheme \<Rightarrow> 'a kernel_scheme option" where
  "TaskTimesliceUpdate s = (case SCHED_POLICY (cfg s) of
       SCHED_POLICY_FIFO \<Rightarrow> FifoTaskTimesliceUpdate s
     | SCHED_POLICY_RR \<Rightarrow> do { t \<leftarrow> GetKTaskDescriptor s; RoundRobinTaskTimesliceUpdate t s }
     | SCHED_POLICY_RR_REMAINSLICE \<Rightarrow> do { t \<leftarrow> GetKTaskDescriptor s; RoundRobinRemainTaskTimesliceUpdate t s })"

subsection \<open>The delay list in the tick interrupt\<close>

definition due :: "x_ticks_t \<Rightarrow> (tid \<rightharpoonup> TaskDescriptor) \<Rightarrow> tid \<Rightarrow> bool" where
  "due now ts t \<longleftrightarrow> now - wake_tick ts t < TICK_SIZE_MAX div 2"

text \<open>The descriptor of a task whose delay has run out.\<close>

definition expire :: "TaskDescriptor \<Rightarrow> TaskDescriptor" where
  "expire d = (if JudgeKTaskStatIsSuspend d then ready_desc ((undelay d)\<lparr>exstatus := - ETIMEOUT\<rparr>) else undelay d)"

definition expired :: "tid list \<Rightarrow> 'a kernel_scheme \<Rightarrow> tid \<rightharpoonup> TaskDescriptor" where
  "expired xs s = (\<lambda>t. if t \<in> set xs then map_option expire (tasks s t) else tasks s t)"

text \<open>In an interrupt a scheduling point only records the request.\<close>

lemma unset_delay_os:
  assumes inv: "os_inv s" and t: "tasks s t = Some d"
  shows "os_inv (s\<lparr>tasks := (tasks s)(t \<mapsto> undelay d), xiaoshan_delay_head := removeAll t (xiaoshan_delay_head s)\<rparr>)"
proof -
  let ?u = "s\<lparr>tasks := (tasks s)(t \<mapsto> undelay d), xiaoshan_delay_head := removeAll t (xiaoshan_delay_head s)\<rparr>"
  have un: "KTaskUnSetDelay t s = Some (EOK, ?u)" by (rule KTaskUnSetDelay_effect[OF t os_invD(3)[OF inv]])
  have "sched_inv ?u" by (rule KTaskUnSetDelay_sched_inv[OF os_invD(2)[OF inv] t os_invD(3)[OF inv] un])
  moreover have "delay_inv ?u" by (rule KTaskUnSetDelay_delay_inv[OF t os_invD(3)[OF inv] un])
  moreover have "ids_inv ?u" by (rule ids_inv_same[OF os_invD(4)[OF inv] t]) simp_all
  ultimately have "kinv ?u" by (simp add: kinv_def)
  then show ?thesis
    by (rule os_inv_upd[OF inv, where t = t and d = "undelay d"])
      (use os_invD(7)[OF inv t] in \<open>simp_all add: pend_ok_cong[of "undelay d" d]\<close>)
qed

lemma os_inv_flag [simp]: "os_inv (s\<lparr>isr_switch_trigger_flag := b\<rparr>) = os_inv s"
  by (simp add: os_inv_def kinv_def delay_inv_def ids_inv_def)

text \<open>What an expiry changes: the task, the lists, the ready vector and the switch request.\<close>

definition expiry :: "'a kernel_scheme \<Rightarrow> 'a kernel_scheme \<Rightarrow> bool" where
  "expiry s s' \<longleftrightarrow> os_inv s' \<and> isr_count s' = isr_count s \<and> KTaskOsAssignLockNest s' = KTaskOsAssignLockNest s \<and>
     heartbeat_ticks s' = heartbeat_ticks s \<and> os_running_task s' = os_running_task s \<and> cfg s' = cfg s \<and>
     kernel.more s' = kernel.more s"

lemma unset_timeout:
  assumes inv: "os_inv s" and irq: "isInIsr s" and lock: "GetOsAssignLockLevel s = 0"
    and t: "tasks s t = Some d"
  obtains s1 s' where "KTaskUnSetDelay t (CriticalAreaLock s) = Some (EOK, s1)" "KTaskTimeout t (CriticalAreaUnLock s1) = Some s'"
    "expiry s s'" "tasks s' = (tasks s)(t \<mapsto> expire d)" "xiaoshan_delay_head s' = removeAll t (xiaoshan_delay_head s)"
proof -
  let ?m = "s\<lparr>tasks := (tasks s)(t \<mapsto> undelay d), xiaoshan_delay_head := removeAll t (xiaoshan_delay_head s)\<rparr>"
  let ?l = "(CriticalAreaLock s)\<lparr>tasks := (tasks s)(t \<mapsto> undelay d), xiaoshan_delay_head := removeAll t (xiaoshan_delay_head s)\<rparr>"
  have un: "KTaskUnSetDelay t (CriticalAreaLock s) = Some (EOK, ?l)"
    using KTaskUnSetDelay_effect[of "CriticalAreaLock s" t d] t os_invD(3)[OF inv] by (simp add: CriticalAreaLock_def)
  have ul: "CriticalAreaUnLock ?l = ?m" by (simp add: CriticalAreaUnLock_def CriticalAreaLock_def)
  have im: "os_inv ?m" by (rule unset_delay_os[OF inv t])
  have tm: "tasks ?m t = Some (undelay d)" by simp
  show thesis
  proof (cases "JudgeKTaskStatIsSuspend d")
    case True
    then have su: "JudgeKTaskStatIsSuspend (undelay d)" by (simp add: Judge_StatGet)
    let ?f = "\<lambda>L rv. ?m\<lparr>lists := L, tasks := (tasks ?m)(t \<mapsto> ready_desc ((undelay d)\<lparr>exstatus := - ETIMEOUT\<rparr>)),
        os_assign_read_vector := rv\<rparr>"
    obtain L rv where to: "KTaskTimeout t ?m = DO_KTASK_ASSIGN (?f L rv)" and i: "os_inv (?f L rv)"
      by (rule KTaskTimeout_ok[OF im tm su]) simp_all
    let ?s' = "(?f L rv)\<lparr>isr_switch_trigger_flag := True\<rparr>"
    have "KTaskTimeout t ?m = Some ?s'"
      using to irq lock by (simp add: DO_KTASK_ASSIGN_def KTaskOsAssign_def isInIsr_def GetOsAssignLockLevel_def)
    moreover have "expiry s ?s'" using i by (simp add: expiry_def)
    ultimately show thesis using that[OF un, unfolded ul, of ?s'] True by (simp add: expire_def)
  next
    case False
    then have "KTaskTimeout t ?m = Some ?m" by (simp add: KTaskTimeout_def Let_def Judge_StatGet)
    then show thesis using that[OF un, unfolded ul, of ?m] False im by (simp add: expire_def expiry_def)
  qed
qed

lemma wake_tick_expire: "wake_tick (ts(t \<mapsto> expire d)) u = wake_tick ts u" if "ts t = Some d"
proof -
  have "map_option delay_ticks (delay (expire d)) = map_option delay_ticks (delay d)"
    by (simp add: expire_def map_option.compositionality comp_def)
  then show ?thesis using that by (cases "delay d"; cases "delay (expire d)") (auto simp: wake_tick_def)
qed

lemma CheckTaskDelay_loop_ok:
  assumes "os_inv s" and "isInIsr s" and "GetOsAssignLockLevel s = 0" and "xiaoshan_delay_head s = xs"
    and "now = heartbeat_ticks s"
  shows "\<exists>s'. CheckTaskDelay_loop now (CriticalAreaLock s) = Some (CriticalAreaLock s') \<and> expiry s s' \<and>
    xiaoshan_delay_head s' = dropWhile (due now (tasks s)) xs \<and> tasks s' = expired (takeWhile (due now (tasks s)) xs) s"
  using assms
proof (induction xs arbitrary: s)
  case Nil
  then show ?case by (subst CheckTaskDelay_loop.simps) (auto simp: expiry_def expired_def)
next
  case (Cons t ts)
  obtain d where d: "tasks s t = Some d" "delayed d" and dist: "t \<notin> set ts"
    using os_invD(3)[OF Cons.prems(1)] Cons.prems(4) by (auto simp: delay_inv_def)
  then obtain dl where dl: "delay d = Some dl" by (auto simp: delayed_def split: option.splits)
  have du: "due now (tasks s) t \<longleftrightarrow> now - delay_ticks dl < TICK_SIZE_MAX div 2"
    using d dl by (simp add: due_def wake_tick_def)
  show ?case
  proof (cases "due now (tasks s) t")
    case False
    then show ?thesis using Cons.prems d dl du
      by (subst CheckTaskDelay_loop.simps) (auto simp: expiry_def expired_def)
  next
    case True
    obtain s1 s2 where un: "KTaskUnSetDelay t (CriticalAreaLock s) = Some (EOK, s1)"
      and to: "KTaskTimeout t (CriticalAreaUnLock s1) = Some s2" and ex: "expiry s s2"
      and ts2: "tasks s2 = (tasks s)(t \<mapsto> expire d)" and h2: "xiaoshan_delay_head s2 = removeAll t (xiaoshan_delay_head s)"
      by (rule unset_timeout[OF Cons.prems(1,2,3) d(1)])
    have p2: "os_inv s2" "isInIsr s2" "GetOsAssignLockLevel s2 = 0" "xiaoshan_delay_head s2 = ts" "now = heartbeat_ticks s2"
      using ex Cons.prems(2-5) dist h2 by (simp_all add: expiry_def isInIsr_def GetOsAssignLockLevel_def)
    have eq: "due now (tasks s2) = due now (tasks s)"
      using wake_tick_expire[of "tasks s" t d] d(1) by (simp add: due_def ts2 fun_eq_iff)
    obtain s' where s': "CheckTaskDelay_loop now (CriticalAreaLock s2) = Some (CriticalAreaLock s')" "expiry s2 s'"
      "xiaoshan_delay_head s' = dropWhile (due now (tasks s)) ts" "tasks s' = expired (takeWhile (due now (tasks s)) ts) s2"
      using Cons.IH[OF p2] unfolding eq by blast
    have "CheckTaskDelay_loop now (CriticalAreaLock s) = CheckTaskDelay_loop now (CriticalAreaLock s2)"
      using Cons.prems(4,5) d dl du True un to
      by (subst CheckTaskDelay_loop.simps) (simp add: CurrentTicksGain_def)
    moreover have "expiry s s'" using ex s'(2) by (simp add: expiry_def)
    moreover have "tasks s' = expired (takeWhile (due now (tasks s)) (t # ts)) s"
      using s'(4) ts2 d(1) dist True set_takeWhileD[of _ "due now (tasks s)" ts]
      by (auto simp: expired_def fun_eq_iff)
    ultimately show ?thesis using s'(1,3) True by auto
  qed
qed

lemma CheckTaskDelay_ok:
  assumes "os_inv s" and "isInIsr s" and "GetOsAssignLockLevel s = 0"
  shows "\<exists>s'. CheckTaskDelay s = Some s' \<and> expiry s s' \<and>
    xiaoshan_delay_head s' = dropWhile (due (heartbeat_ticks s) (tasks s)) (xiaoshan_delay_head s) \<and>
    tasks s' = expired (takeWhile (due (heartbeat_ticks s) (tasks s)) (xiaoshan_delay_head s)) s"
proof -
  obtain s' where "CheckTaskDelay_loop (heartbeat_ticks s) (CriticalAreaLock s) = Some (CriticalAreaLock s')" "expiry s s'"
    "xiaoshan_delay_head s' = dropWhile (due (heartbeat_ticks s) (tasks s)) (xiaoshan_delay_head s)"
    "tasks s' = expired (takeWhile (due (heartbeat_ticks s) (tasks s)) (xiaoshan_delay_head s)) s"
    using CheckTaskDelay_loop_ok[OF assms refl refl] by blast
  then show ?thesis by (auto simp: CheckTaskDelay_def CurrentTicksGain_def)
qed

subsection \<open>Ticks before the counter wraps\<close>

text \<open>
  As long as the tick counter is in the lower half of its range and no wake-up tick is more than half
  the range ahead, the test on the wrapped difference is the comparison of the two ticks.
\<close>

lemma half_range: "unat (TICK_SIZE_MAX div 2) = 2147483647"
  by (simp add: TICK_SIZE_MAX_def)

lemma due_iff:
  assumes now: "unat now < 2147483647" and w: "unat (wake_tick ts t) \<le> unat now + 2147483648"
  shows "due now ts t \<longleftrightarrow> wake_tick ts t \<le> now"
proof (cases "wake_tick ts t \<le> now")
  case True
  then have "unat (now - wake_tick ts t) = unat now - unat (wake_tick ts t)" by (simp add: unat_sub)
  then show ?thesis using True now by (simp add: due_def word_less_nat_alt half_range)
next
  case False
  then have l: "unat now < unat (wake_tick ts t)" by (simp add: word_le_nat_alt)
  have "unat (now - wake_tick ts t) = unat now + 4294967296 - unat (wake_tick ts t)"
    using l by (subst unat_sub_if') (simp add: word_le_nat_alt)
  then show ?thesis using False w l by (simp add: due_def word_less_nat_alt half_range)
qed

lemma dropWhile_sorted:
  fixes f :: "'a \<Rightarrow> 'b :: linorder"
  assumes "sorted (map f xs)" and "x \<in> set (dropWhile (\<lambda>x. f x \<le> c) xs)"
  shows "c < f x"
  using assms
proof (induction xs)
  case (Cons y ys)
  then show ?case by (cases "f y \<le> c") (auto simp: not_le dest: order.strict_trans2)
qed simp

subsection \<open>Properties\<close>

text \<open>C6: The check of the delay list in the tick interrupt returns. It takes exactly the due tasks at the
  front of the list off it; those that were suspended become ready with a timeout as their error status,
  no other task changes, and the kernel invariant is kept.\<close>

theorem CheckTaskDelay_correct:
  assumes "os_inv s" and "isInIsr s" and "GetOsAssignLockLevel s = 0"
  shows "\<exists>s'. CheckTaskDelay s = Some s' \<and> os_inv s' \<and>
    xiaoshan_delay_head s' = dropWhile (due (heartbeat_ticks s) (tasks s)) (xiaoshan_delay_head s) \<and>
    tasks s' = expired (takeWhile (due (heartbeat_ticks s) (tasks s)) (xiaoshan_delay_head s)) s \<and>
    os_running_task s' = os_running_task s"
  using CheckTaskDelay_ok[OF assms] by (auto simp: expiry_def)

text \<open>A kernel in the tick interrupt whose task at address 30 waits for tick 7.\<close>

definition demo_waiting :: TaskDescriptor where
  "demo_waiting = demo_recycler\<lparr>delay := Some \<lparr>delay_ticks = 7, delay_status = True\<rparr>\<rparr>"

definition demo_tick :: "x_ticks_t \<Rightarrow> 'a \<Rightarrow> 'a kernel_scheme" where
  "demo_tick now m = (delay_set True 30 7 (demo_zombie m))\<lparr>heartbeat_ticks := now, isr_count := 1\<rparr>"

lemma os_inv_time [simp]:
  "os_inv (s\<lparr>heartbeat_ticks := now\<rparr>) = os_inv s" "os_inv (s\<lparr>isr_count := n\<rparr>) = os_inv s"
  by (simp_all add: os_inv_def kinv_def delay_inv_def ids_inv_def)

lemma demo_tick_inv: "os_inv (demo_tick now m)"
  unfolding demo_tick_def os_inv_time by (rule KTaskSetDelay_os(2)[OF demo_zombie_inv demo_zombie_simps(5)])

lemma demo_tick_simps:
  "isInIsr (demo_tick now m)" "GetOsAssignLockLevel (demo_tick now m) = 0" "heartbeat_ticks (demo_tick now m) = now"
  "xiaoshan_delay_head (demo_tick now m) = [30]" "tasks (demo_tick now m) 30 = Some demo_waiting"
  "wake_tick (tasks (demo_tick now m)) 30 = 7"
  by (simp_all add: demo_tick_def demo_zombie_def delay_set_def demo_kernel_def isInIsr_def GetOsAssignLockLevel_def
      demo_waiting_def insert_when_def wake_tick_def)

theorem CheckTaskDelay_correct_witness:
  "\<exists>s'. CheckTaskDelay (demo_tick 7 ()) = Some s' \<and> xiaoshan_delay_head s' = [] \<and>
     tasks s' 30 = Some (ready_desc ((undelay demo_waiting)\<lparr>exstatus := - ETIMEOUT\<rparr>))"
proof -
  have "due 7 (tasks (demo_tick 7 ())) 30" by (simp add: due_def demo_tick_simps TICK_SIZE_MAX_def)
  moreover have "KTaskStatGet demo_waiting = KTASK_SUSPEND" by (simp add: demo_waiting_def)
  then have "JudgeKTaskStatIsSuspend demo_waiting" by (simp add: Judge_StatGet)
  ultimately show ?thesis
    using CheckTaskDelay_correct[OF demo_tick_inv demo_tick_simps(1,2), of 7 "()"]
    by (auto simp: demo_tick_simps expired_def expire_def)
qed

text \<open>C7: Before the tick counter reaches half its range, no task oversleeps: with the delay list in the
  order KTaskSetDelay keeps and delays of at most half the range, after the check every task still in
  the list has a wake-up tick in the future.\<close>

theorem CheckTaskDelay_complete:
  assumes "os_inv s" and "isInIsr s" and "GetOsAssignLockLevel s = 0" and "delay_sorted s"
    and "unat (heartbeat_ticks s) < 2147483647"
    and "\<forall>t \<in> set (xiaoshan_delay_head s). unat (wake_tick (tasks s) t) \<le> unat (heartbeat_ticks s) + 2147483648"
  shows "\<exists>s'. CheckTaskDelay s = Some s' \<and>
    set (xiaoshan_delay_head s') = {t \<in> set (xiaoshan_delay_head s). heartbeat_ticks s < wake_tick (tasks s) t}"
proof -
  let ?h = "xiaoshan_delay_head s" and ?w = "wake_tick (tasks s)" and ?n = "heartbeat_ticks s"
  obtain s' where s': "CheckTaskDelay s = Some s'" "xiaoshan_delay_head s' = dropWhile (due ?n (tasks s)) ?h"
    using CheckTaskDelay_ok[OF assms(1-3)] by blast
  have "due ?n (tasks s) t = (?w t \<le> ?n)" if "t \<in> set ?h" for t using due_iff[OF assms(5)] assms(6) that by blast
  then have eq: "dropWhile (due ?n (tasks s)) ?h = dropWhile (\<lambda>t. ?w t \<le> ?n) ?h" by (intro dropWhile_cong) auto
  have "t \<in> set (dropWhile (\<lambda>t. ?w t \<le> ?n) ?h) \<longleftrightarrow> t \<in> set ?h \<and> ?n < ?w t" for t
  proof
    assume "t \<in> set (dropWhile (\<lambda>t. ?w t \<le> ?n) ?h)"
    then show "t \<in> set ?h \<and> ?n < ?w t"
      using dropWhile_sorted[OF assms(4)[unfolded delay_sorted_def]] set_dropWhileD by fast
  next
    assume t: "t \<in> set ?h \<and> ?n < ?w t"
    then have "t \<notin> set (takeWhile (\<lambda>t. ?w t \<le> ?n) ?h)" using set_takeWhileD[of t "\<lambda>t. ?w t \<le> ?n" ?h] by auto
    moreover have "t \<in> set (takeWhile (\<lambda>t. ?w t \<le> ?n) ?h @ dropWhile (\<lambda>t. ?w t \<le> ?n) ?h)" using t by simp
    ultimately show "t \<in> set (dropWhile (\<lambda>t. ?w t \<le> ?n) ?h)" unfolding set_append by blast
  qed
  then show ?thesis using s' eq by auto
qed

theorem CheckTaskDelay_complete_witness:
  "\<exists>s'. CheckTaskDelay (demo_tick 6 ()) = Some s' \<and> set (xiaoshan_delay_head s') = {30}"
  using CheckTaskDelay_complete[OF demo_tick_inv demo_tick_simps(1,2), of 6 "()"]
  by (auto simp: demo_tick_simps delay_sorted_def)

text \<open>C36: The delay list is ordered by the unsigned tick. When the sum of the current tick and the longer of
  two delays wraps around and that with the shorter one does not, the task with the longer delay is in
  front, and when the shorter delay has run out the check of the list wakes nobody.\<close>

theorem KTaskSetDelay_wraps:
  assumes "os_inv s" and "xiaoshan_delay_head s = []" and "tasks s a = Some da" and "tasks s b = Some db" and "a \<noteq> b"
    and "unat (heartbeat_ticks s) + unat i < 2 ^ 32" and "2 ^ 32 \<le> unat (heartbeat_ticks s) + unat j"
    and "unat j \<le> 2147483648" and "GetOsAssignLockLevel s = 0"
  shows "\<exists>s1 s2 s3. KTaskSetDelay True a j s = Some (EOK, s1) \<and> KTaskSetDelay True b i s1 = Some (EOK, s2) \<and>
    xiaoshan_delay_head s2 = [a, b] \<and>
    (let now = heartbeat_ticks s + i; s2 = s2\<lparr>heartbeat_ticks := now, isr_count := 1\<rparr> in
     due now (tasks s2) b \<and> CheckTaskDelay s2 = Some s3 \<and> tasks s3 = tasks s2)"
proof -
  let ?h = "heartbeat_ticks s" and ?now = "heartbeat_ticks s + i"
  define s1 where "s1 = s\<lparr>tasks := (tasks s)(a \<mapsto> da\<lparr>delay := Some \<lparr>delay_ticks = ?h + j, delay_status = True\<rparr>\<rparr>),
     xiaoshan_delay_head := [a]\<rparr>"
  have k1: "KTaskSetDelay True a j s = Some (EOK, s1)"
    using KTaskSetDelay_effect[OF assms(3) os_invD(3)[OF assms(1)], of True j] assms(2)
    by (simp add: s1_def insert_when_def)
  have i1: "os_inv s1"
    using KTaskSetDelay_os[OF assms(1,3), of True j] k1 by auto
  have b1: "tasks s1 b = Some db" using assms(4,5) by (simp add: s1_def)
  have hi: "unat (?h + i) = unat ?h + unat i" using assms(6) by (simp add: unat_word_ariths)
  have hj: "unat (?h + j) = unat ?h + unat j - 2 ^ 32"
    using assms(7) unsigned_less[of ?h, where 'a = nat] unsigned_less[of j, where 'a = nat]
    by (simp add: unat_word_ariths mod_if)
  have lt: "\<not> ?h + i < ?h + j"
    unfolding word_less_nat_alt hi hj using unsigned_less[of j, where 'a = nat] by simp
  define s2 where "s2 = s1\<lparr>tasks := (tasks s1)(b \<mapsto> db\<lparr>delay := Some \<lparr>delay_ticks = ?now, delay_status = True\<rparr>\<rparr>),
     xiaoshan_delay_head := [a, b]\<rparr>"
  have k2: "KTaskSetDelay True b i s1 = Some (EOK, s2)"
    using KTaskSetDelay_effect[OF b1 os_invD(3)[OF i1], of True i] lt assms(5)
    by (simp add: s2_def s1_def insert_when_def delay_after_def)
  have i2: "os_inv s2"
    using KTaskSetDelay_os[OF i1 b1, of True i] k2 by auto
  let ?s = "s2\<lparr>heartbeat_ticks := ?now, isr_count := 1\<rparr>"
  have wa: "wake_tick (tasks ?s) a = ?h + j" and wb: "wake_tick (tasks ?s) b = ?now"
    using assms(5) by (simp_all add: s2_def s1_def wake_tick_def)
  have db: "due ?now (tasks ?s) b" unfolding due_def wb by (simp add: TICK_SIZE_MAX_def)
  have "unat (?now - (?h + j)) = unat (i - j)" by simp
  also have "\<dots> = 2 ^ 32 + unat i - unat j"
    using assms(6,7) by (subst unat_sub_if') (simp add: word_le_nat_alt)
  finally have "\<not> ?now - (?h + j) < TICK_SIZE_MAX div 2"
    unfolding word_less_nat_alt half_range using assms(8) by simp
  then have "\<not> due ?now (tasks ?s) a" unfolding due_def wa .
  moreover have "xiaoshan_delay_head ?s = [a, b]" "heartbeat_ticks ?s = ?now" by (simp_all add: s2_def)
  ultimately have tw: "takeWhile (due (heartbeat_ticks ?s) (tasks ?s)) (xiaoshan_delay_head ?s) = []"
    by (simp only: takeWhile.simps if_False)
  have "os_inv ?s" "isInIsr ?s" "GetOsAssignLockLevel ?s = 0"
    using i2 assms(9) by (simp_all add: isInIsr_def GetOsAssignLockLevel_def s2_def s1_def)
  then obtain s3 where "CheckTaskDelay ?s = Some s3" "tasks s3 = tasks ?s"
    using CheckTaskDelay_ok[of ?s] unfolding tw expired_def by auto
  then show ?thesis using k1 k2 db unfolding Let_def by (auto simp: s2_def)
qed

theorem KTaskSetDelay_wraps_witness:
  "\<exists>s1 s2. KTaskSetDelay True 10 64 ((demo_kernel ())\<lparr>heartbeat_ticks := 0xFFFFFFF0\<rparr>) = Some (EOK, s1) \<and>
     KTaskSetDelay True 20 5 s1 = Some (EOK, s2) \<and> xiaoshan_delay_head s2 = [10, 20]"
proof -
  let ?s = "(demo_kernel ())\<lparr>heartbeat_ticks := 0xFFFFFFF0\<rparr>"
  have "os_inv ?s" by (simp only: os_inv_time demo_os_inv)
  moreover have "xiaoshan_delay_head ?s = []" "GetOsAssignLockLevel ?s = 0" "heartbeat_ticks ?s = 0xFFFFFFF0"
    "tasks ?s 10 = Some (demo_task 0 KTASK_RUNNING None 0)" "tasks ?s 20 = Some (demo_task 5 KTASK_READY (Some (ReadyVector 5)) 3)"
    by (simp_all add: demo_kernel_def GetOsAssignLockLevel_def)
  ultimately show ?thesis
    using KTaskSetDelay_wraps[of ?s 10 "demo_task 0 KTASK_RUNNING None 0" 20 "demo_task 5 KTASK_READY (Some (ReadyVector 5)) 3" 5 64]
    by auto
qed

text \<open>C31: With a round-robin policy the tick interrupt takes one tick off the slice of the running task. When
  the slice is used up it is refilled and a task switch is requested, otherwise no switch is requested
  that was not requested before; the kernel invariant is kept and no other task changes.\<close>

theorem TaskTimesliceUpdate_correct:
  assumes "os_inv s" and "isInIsr s" and "GetOsAssignLockLevel s = 0" and "os_running_task s = Some t"
    and "tasks s t = Some d" and "rest_timeslice d \<noteq> 0"
  shows "\<exists>s' d'. TaskTimesliceUpdate s = Some s' \<and> os_inv s' \<and> tasks s' = (tasks s)(t \<mapsto> d') \<and>
    (if SCHED_POLICY (cfg s) = SCHED_POLICY_FIFO then s' = s
     else if rest_timeslice d = 1
     then rest_timeslice d' = origin_timeslice d \<and> isr_switch_trigger_flag s'
     else rest_timeslice d' = rest_timeslice d - 1 \<and> isr_switch_trigger_flag s' = isr_switch_trigger_flag s)"
proof -
  have up: "os_inv (s\<lparr>tasks := (tasks s)(t \<mapsto> d\<lparr>rest_timeslice := x, advance_cnt := y\<rparr>)\<rparr>)" for x y
  proof (rule os_inv_upd[OF assms(1)])
    show "kinv (s\<lparr>tasks := (tasks s)(t \<mapsto> d\<lparr>rest_timeslice := x, advance_cnt := y\<rparr>)\<rparr>)"
      by (rule kinv_same[OF os_invD(1)[OF assms(1)] assms(5)]) (simp_all add: sched_part_def delayed_def)
    show "pend_ok (d\<lparr>rest_timeslice := x, advance_cnt := y\<rparr>)"
      using os_invD(7)[OF assms(1,5)] by (subst pend_ok_cong[of _ d]) simp_all
  qed simp
  have up': "os_inv (s\<lparr>tasks := (tasks s)(t \<mapsto> d\<lparr>rest_timeslice := x\<rparr>)\<rparr>)" for x using up[where x = x and y = "advance_cnt d"] by simp
  have up2: "os_inv (s\<lparr>tasks := (tasks s)(t \<mapsto> d\<lparr>advance_cnt := y, rest_timeslice := x\<rparr>)\<rparr>)" for x y
  proof -
    have "d\<lparr>rest_timeslice := x, advance_cnt := y\<rparr> = d\<lparr>advance_cnt := y, rest_timeslice := x\<rparr>" by simp
    then show ?thesis using up[where x = x and y = y] by (simp only:)
  qed
  have flag: "DO_KTASK_ASSIGN u = Some (u\<lparr>isr_switch_trigger_flag := True\<rparr>)" if "isr_count u = isr_count s"
    "KTaskOsAssignLockNest u = KTaskOsAssignLockNest s" for u :: "'a kernel_scheme"
    using that assms(2,3) by (simp add: DO_KTASK_ASSIGN_def KTaskOsAssign_def isInIsr_def GetOsAssignLockLevel_def)
  have one: "rest_timeslice d - 1 = 0 \<longleftrightarrow> rest_timeslice d = 1" by (rule right_minus_eq)
  show ?thesis
  proof (cases "SCHED_POLICY (cfg s)")
    case SCHED_POLICY_FIFO
    then show ?thesis using assms(1,5)
      by (intro exI[of _ s] exI[of _ d]) (simp add: TaskTimesliceUpdate_def FifoTaskTimesliceUpdate_def fun_upd_idem)
  next
    case SCHED_POLICY_RR
    then show ?thesis using assms(4,5) up' one
      by (auto simp: TaskTimesliceUpdate_def RoundRobinTaskTimesliceUpdate_def upd_task_def GetKTaskDescriptor_def flag)
  next
    case SCHED_POLICY_RR_REMAINSLICE
    then show ?thesis using assms(4,5) up2 up' one
      by (auto simp: TaskTimesliceUpdate_def RoundRobinRemainTaskTimesliceUpdate_def upd_task_def GetKTaskDescriptor_def flag)
  qed
qed

theorem TaskTimesliceUpdate_correct_witness:
  "\<exists>s' d'. TaskTimesliceUpdate ((demo_kernel ())\<lparr>isr_count := 1\<rparr>) = Some s' \<and> tasks s' 10 = Some d' \<and> rest_timeslice d' = 9"
proof -
  let ?s = "(demo_kernel ())\<lparr>isr_count := 1\<rparr>"
  have "os_inv ?s" by (simp only: os_inv_time demo_os_inv)
  moreover have "isInIsr ?s" "GetOsAssignLockLevel ?s = 0" "os_running_task ?s = Some 10"
    "tasks ?s 10 = Some (demo_task 0 KTASK_RUNNING None 0)" "SCHED_POLICY (cfg ?s) \<noteq> SCHED_POLICY_FIFO"
    by (simp_all add: isInIsr_def GetOsAssignLockLevel_def demo_kernel_def)
  moreover have "rest_timeslice (demo_task 0 KTASK_RUNNING None 0) = 10" by (simp add: demo_task_def)
  ultimately show ?thesis using TaskTimesliceUpdate_correct[of ?s 10 "demo_task 0 KTASK_RUNNING None 0"] by auto
qed

end
