(* ===== verification/Linklist.thy ===== *)
theory Linklist
  imports Heartbeat
begin

text \<open>
  The pend lists of the synchronisation objects (\<^verbatim>\<open>linklist.c\<close>): suspending the running task on a list,
  resuming the first task of a list and resuming all of them. The loop of \<^verbatim>\<open>LinklistResumeAll\<close> ends when
  the list is empty, so it is a partial function.
\<close>

definition LINKLIST_FLAG_FIFO :: uint8 where "LINKLIST_FLAG_FIFO = 0"
definition LINKLIST_FLAG_PRIO :: uint8 where "LINKLIST_FLAG_PRIO = 1"

definition LinklistSuspend :: "lhead \<Rightarrow> tid \<Rightarrow> uint8 \<Rightarrow> 'a kernel_scheme \<Rightarrow> (x_err_t \<times> 'a kernel_scheme) option" where
  "LinklistSuspend l t flag s = do {
     let s = CriticalAreaLock s;
     d \<leftarrow> tasks s t;
     (_, s) \<leftarrow> SuspendKTask (int (task_id d)) s;
     d \<leftarrow> tasks s t;
     (ret, s) \<leftarrow>
       (if flag = LINKLIST_FLAG_FIFO then do { s \<leftarrow> sched_link_back l t s; Some (EOK, s) }
        else if flag = LINKLIST_FLAG_PRIO then do {
          s \<leftarrow> sched_link_when l (\<lambda>tmp_task. cur_prio d < cur_prio tmp_task) t s; Some (EOK, s) }
        else Some (- EINVALED, s));
     Some (ret, CriticalAreaUnLock s) }"

text \<open>On an empty list \<^verbatim>\<open>LinklistResume\<close> would take the list head for a task.\<close>

definition LinklistResume :: "lhead \<Rightarrow> 'a kernel_scheme \<Rightarrow> (x_err_t \<times> 'a kernel_scheme) option" where
  "LinklistResume l s = do {
     let s = CriticalAreaLock s;
     t \<leftarrow> (case lists s l of [] \<Rightarrow> None | t # _ \<Rightarrow> Some t);
     d \<leftarrow> tasks s t;
     (_, s) \<leftarrow> KTaskWakeup (int (task_id d)) s;
     Some (EOK, CriticalAreaUnLock s) }"

partial_function (option) LinklistResumeAll_loop :: "lhead \<Rightarrow> 'a kernel_scheme \<Rightarrow> 'a kernel_scheme option" where
  "LinklistResumeAll_loop l s = (case lists s l of [] \<Rightarrow> Some s
     | t # _ \<Rightarrow> do {
         s \<leftarrow> upd_task t (\<lambda>d. d\<lparr>exstatus := - ERROR\<rparr>) s;
         d \<leftarrow> tasks s t;
         (_, s) \<leftarrow> KTaskWakeup (int (task_id d)) s;
         LinklistResumeAll_loop l s })"

definition LinklistResumeAll :: "lhead \<Rightarrow> 'a kernel_scheme \<Rightarrow> (x_err_t \<times> 'a kernel_scheme) option" where
  "LinklistResumeAll l s = do {
     let s = CriticalAreaLock s;
     s \<leftarrow> LinklistResumeAll_loop l s;
     Some (EOK, CriticalAreaUnLock s) }"

subsection \<open>Pend lists\<close>

fun is_pend :: "lhead \<Rightarrow> bool" where
  "is_pend (ReadyVector p) = False"
| "is_pend KTaskZombie = False"
| "is_pend _ = True"

lemma is_pendD: "is_pend l \<Longrightarrow> l \<noteq> ReadyVector p" "is_pend l \<Longrightarrow> l \<noteq> KTaskZombie"
  by auto

lemma pend_ok_pend: "is_pend l \<Longrightarrow> sched_link d = Some l \<Longrightarrow> pend_ok d \<longleftrightarrow> JudgeKTaskStatIsSuspend d"
  by (cases l) (auto simp: pend_ok_def)

lemma pend_member:
  assumes "os_inv s" and "is_pend l" and "t \<in> set (lists s l)"
  obtains d where "tasks s t = Some d" "sched_link d = Some l" "JudgeKTaskStatIsSuspend d"
proof -
  obtain d where d: "tasks s t = Some d" "sched_link d = Some l"
    using links_invD(2)[OF os_invD(6)[OF assms(1)]] assms(3) by blast
  then show thesis using that os_invD(7)[OF assms(1) d(1)] pend_ok_pend[OF assms(2)] by blast
qed

text \<open>
  \<open>same_rest s s'\<close>: everything of the kernel but tasks, lists, ready vector and delay list is the same.
\<close>

definition same_rest :: "'a kernel_scheme \<Rightarrow> 'a kernel_scheme \<Rightarrow> bool" where
  "same_rest s s' \<longleftrightarrow> cfg s' = cfg s \<and> os_running_task s' = os_running_task s \<and> current_priority s' = current_priority s \<and>
     KTaskOsAssignLockNest s' = KTaskOsAssignLockNest s \<and> isr_count s' = isr_count s \<and>
     isr_switch_trigger_flag s' = isr_switch_trigger_flag s \<and> heartbeat_ticks s' = heartbeat_ticks s \<and>
     xiaoshan_task_head s' = xiaoshan_task_head s \<and> k_task_id_manager s' = k_task_id_manager s \<and>
     zombie_recycle s' = zombie_recycle s \<and> global_exstatus s' = global_exstatus s \<and> kernel.more s' = kernel.more s"

lemma same_rest_refl [simp]: "same_rest s s" by (simp add: same_rest_def)

lemma same_rest_trans: "same_rest s s' \<Longrightarrow> same_rest s' s'' \<Longrightarrow> same_rest s s''"
  by (simp add: same_rest_def)

lemma wakes_same: "wakes t s s' \<Longrightarrow> same_rest s s'"
  by (auto simp: wakes_def same_rest_def)

lemma same_rest_unlock: "same_rest (CriticalAreaLock s) s' \<Longrightarrow> same_rest s (CriticalAreaUnLock s')"
  by (simp add: same_rest_def CriticalAreaLock_def CriticalAreaUnLock_def)

subsection \<open>Suspending on a list\<close>

definition pend_desc :: "lhead \<Rightarrow> TaskDescriptor \<Rightarrow> TaskDescriptor" where
  "pend_desc l d = (suspend_desc d)\<lparr>sched_link := Some l\<rparr>"

lemma pend_desc_simps [simp]:
  "KTaskStatGet (pend_desc l d) = KTASK_SUSPEND" "cur_prio (pend_desc l d) = cur_prio d"
  "\<not> delayed (pend_desc l d)" "task_id (pend_desc l d) = task_id d" "exstatus (pend_desc l d) = exstatus d"
  "sched_link (pend_desc l d) = Some l" "event_id_trigger (pend_desc l d) = event_id_trigger d"
  "event_mode (pend_desc l d) = event_mode d" "delay (pend_desc l d) = None \<longleftrightarrow> delay d = None"
  by (simp_all add: pend_desc_def delayed_def, simp_all add: suspend_desc_def map_option_case split: option.splits)

definition prio_order :: "(tid \<rightharpoonup> TaskDescriptor) \<Rightarrow> tid \<Rightarrow> uint8 \<Rightarrow> tid list \<Rightarrow> tid list" where
  "prio_order ts t p = insert_when (\<lambda>u. case ts u of None \<Rightarrow> False | Some e \<Rightarrow> p < cur_prio e) t"

definition pend_order :: "uint8 \<Rightarrow> (tid \<rightharpoonup> TaskDescriptor) \<Rightarrow> tid \<Rightarrow> uint8 \<Rightarrow> tid list \<Rightarrow> tid list" where
  "pend_order flag ts t p xs = (if flag = LINKLIST_FLAG_FIFO then xs @ [t] else prio_order ts t p xs)"

lemma mset_pend_order: "mset (pend_order flag ts t p xs) = add_mset t (mset xs)"
  by (simp add: pend_order_def prio_order_def)

text \<open>The state after suspending the running task on a list.\<close>

definition pends :: "lhead \<Rightarrow> uint8 \<Rightarrow> tid \<Rightarrow> 'a kernel_scheme \<Rightarrow> 'a kernel_scheme \<Rightarrow> bool" where
  "pends l flag t s s' \<longleftrightarrow> os_inv s' \<and> same_rest s s' \<and>
     xiaoshan_delay_head s' = removeAll t (xiaoshan_delay_head s) \<and>
     (\<exists>d. tasks s t = Some d \<and> tasks s' = (tasks s)(t \<mapsto> pend_desc l d) \<and>
       (\<forall>k. is_pend k \<longrightarrow> lists s' k = (if k = l then pend_order flag (tasks s) t (cur_prio d) (lists s k) else lists s k)))"

lemma LinklistSuspend_os:
  assumes inv: "os_inv s" and r: "os_running_task s = Some t" and t: "tasks s t = Some d" and run: "JudgeKTaskStatIsRunning d"
    and l: "is_pend l" and fl: "flag = LINKLIST_FLAG_FIFO \<or> flag = LINKLIST_FLAG_PRIO"
  obtains s' where "LinklistSuspend l t flag s = Some (EOK, s')" and "pends l flag t s s'"
proof -
  let ?s = "CriticalAreaLock s"
  let ?f = "\<lambda>L rv. ?s\<lparr>lists := L, tasks := (tasks s)(t \<mapsto> suspend_desc d), os_assign_read_vector := rv,
      xiaoshan_delay_head := removeAll t (xiaoshan_delay_head s)\<rparr>"
  have o: "os_inv ?s" "os_running_task ?s = Some t" "tasks ?s t = Some d" using inv t r by simp_all
  obtain L rv where su: "SuspendKTask (int (task_id d)) ?s = Some (EOK, ?f L rv)" and i1: "os_inv (?f L rv)"
    and up: "unpends t (lists ?s) L"
    using SuspendKTask_os[OF o run] by (metis lock_simps(1,6))
  let ?s1 = "?f L rv"
  have nin: "t \<notin> set (lists s k)" for k
    using links_invD(2)[OF os_invD(6)[OF inv], of t k] sched_invD(3)[OF os_invD(2)[OF inv] t run] t by simp
  have L: "L k = lists s k" if "is_pend k" for k
    using up is_pendD(1)[OF that] nin[of k] by (simp add: unpends_def)
  let ?ins = "pend_order flag (tasks s) t (cur_prio d)"
  let ?s2 = "?s1\<lparr>lists := L(l := ?ins (L l)), tasks := (tasks ?s1)(t \<mapsto> pend_desc l d)\<rparr>"
  have pk: "pend_ok ((suspend_desc d)\<lparr>sched_link := Some l\<rparr>)"
    using pend_ok_pend[OF l, of "(suspend_desc d)\<lparr>sched_link := Some l\<rparr>"] by (simp add: Judge_StatGet)
  have t1: "tasks ?s1 t = Some (suspend_desc d)" "sched_link (suspend_desc d) = None" by simp_all
  have ins: "sched_link_insert l ?ins t ?s1 = Some ?s2" "os_inv ?s2"
    using insert_pend[OF i1 t1 pk is_pendD(1)[OF l], of ?ins] mset_pend_order by (simp_all add: pend_desc_def)
  have cong: "insert_when (\<lambda>x. case tasks ?s1 x of None \<Rightarrow> False | Some e \<Rightarrow> cur_prio d < cur_prio e) t (L l) =
      prio_order (tasks s) t (cur_prio d) (L l)"
    unfolding prio_order_def by (rule insert_when_cong) (use nin[of l] L[OF l] in \<open>auto split: option.splits\<close>)
  have link: "(if flag = LINKLIST_FLAG_FIFO then do { s \<leftarrow> sched_link_back l t ?s1; Some (EOK, s) }
        else if flag = LINKLIST_FLAG_PRIO then do {
          s \<leftarrow> sched_link_when l (\<lambda>tmp_task. cur_prio (suspend_desc d) < cur_prio tmp_task) t ?s1; Some (EOK, s) }
        else Some (- EINVALED, ?s1)) = Some (EOK, ?s2)"
    using fl ins(1) cong
    by (auto simp: sched_link_back_def sched_link_when_def sched_link_insert_def pend_order_def LINKLIST_FLAG_FIFO_def
        LINKLIST_FLAG_PRIO_def)
  have ls: "LinklistSuspend l t flag s = Some (EOK, CriticalAreaUnLock ?s2)"
    using t su link by (simp add: LinklistSuspend_def Let_def)
  have "same_rest ?s ?s2" by (simp add: same_rest_def)
  then have "pends l flag t s (CriticalAreaUnLock ?s2)"
    unfolding pends_def using same_rest_unlock[of s ?s2] ins(2) t L by auto
  then show thesis using that ls by blast
qed

lemma pendsD:
  assumes "pends l flag t s s'"
  shows "os_inv s'" "same_rest s s'" "xiaoshan_delay_head s' = removeAll t (xiaoshan_delay_head s)"
    "\<exists>d. tasks s t = Some d \<and> tasks s' = (tasks s)(t \<mapsto> pend_desc l d)"
  using assms by (auto simp: pends_def)

subsection \<open>Resuming\<close>

lemma LinklistResume_os:
  assumes inv: "os_inv s" and l: "is_pend l" and t: "lists s l = t # ts"
  obtains s' where "LinklistResume l s = Some (EOK, s')" and "wakes t s s'"
proof -
  obtain d where d: "tasks s t = Some d" "JudgeKTaskStatIsSuspend d" using pend_member[OF inv l, of t] t by auto
  have o: "os_inv (CriticalAreaLock s)" "tasks (CriticalAreaLock s) t = Some d" using inv d by simp_all
  obtain s1 where "KTaskWakeup (int (task_id d)) (CriticalAreaLock s) = Some (EOK, s1)" "wakes t (CriticalAreaLock s) s1"
    by (rule KTaskWakeup_wakes[OF o d(2)])
  then show thesis using that wakes_lock[of t s s1] t d by (simp add: LinklistResume_def Let_def)
qed

lemma exstatus_os:
  assumes inv: "os_inv s" and t: "tasks s t = Some d"
  shows "os_inv (s\<lparr>tasks := (tasks s)(t \<mapsto> d\<lparr>exstatus := x\<rparr>)\<rparr>)"
proof (rule os_inv_upd[OF inv, where t = t and d = "d\<lparr>exstatus := x\<rparr>"])
  show "kinv (s\<lparr>tasks := (tasks s)(t \<mapsto> d\<lparr>exstatus := x\<rparr>)\<rparr>)"
    by (rule kinv_same[OF os_invD(1)[OF inv] t]) (simp_all add: sched_part_def delayed_def)
  show "pend_ok (d\<lparr>exstatus := x\<rparr>)" using os_invD(7)[OF inv t] pend_ok_cong[of "d\<lparr>exstatus := x\<rparr>" d] by simp
qed simp

text \<open>The descriptor of a task resumed because its object is going away.\<close>

definition abort_desc :: "TaskDescriptor \<Rightarrow> TaskDescriptor" where
  "abort_desc d = ready_desc (undelay (d\<lparr>exstatus := - ERROR\<rparr>))"

definition aborted :: "tid list \<Rightarrow> 'a kernel_scheme \<Rightarrow> tid \<rightharpoonup> TaskDescriptor" where
  "aborted xs s = (\<lambda>t. if t \<in> set xs then map_option abort_desc (tasks s t) else tasks s t)"

definition resumes :: "lhead \<Rightarrow> 'a kernel_scheme \<Rightarrow> 'a kernel_scheme \<Rightarrow> bool" where
  "resumes l s s' \<longleftrightarrow> os_inv s' \<and> same_rest s s' \<and> tasks s' = aborted (lists s l) s \<and>
     (\<forall>k. is_pend k \<longrightarrow> lists s' k = (if k = l then [] else lists s k))"

lemma abort_step:
  assumes inv: "os_inv s" and l: "is_pend l" and t: "lists s l = t # ts" "tasks s t = Some d"
  obtains s1 s2 where "upd_task t (\<lambda>d. d\<lparr>exstatus := - ERROR\<rparr>) s = Some s1" "tasks s1 t = Some (d\<lparr>exstatus := - ERROR\<rparr>)"
    "KTaskWakeup (int (task_id d)) s1 = Some (EOK, s2)" "os_inv s2" "same_rest s s2"
    "tasks s2 = (tasks s)(t \<mapsto> abort_desc d)" "\<forall>k. is_pend k \<longrightarrow> lists s2 k = (if k = l then ts else lists s k)"
proof -
  obtain d' where "tasks s t = Some d'" "sched_link d' = Some l" "JudgeKTaskStatIsSuspend d'"
    using pend_member[OF inv l, of t] t by auto
  then have d: "sched_link d = Some l" "JudgeKTaskStatIsSuspend d" using t by simp_all
  let ?d = "d\<lparr>exstatus := - ERROR\<rparr>"
  let ?s1 = "s\<lparr>tasks := (tasks s)(t \<mapsto> ?d)\<rparr>"
  have i1: "os_inv ?s1" by (rule exstatus_os[OF inv t(2)])
  have t1: "tasks ?s1 t = Some ?d" "JudgeKTaskStatIsSuspend ?d" using d by (simp_all add: Judge_StatGet)
  obtain s2 where w: "KTaskWakeup (int (task_id ?d)) ?s1 = Some (EOK, s2)" "wakes t ?s1 s2"
    by (rule KTaskWakeup_wakes[OF i1 t1])
  have ts2: "tasks s2 = (tasks s)(t \<mapsto> abort_desc d)" using wakesD(12)[OF w(2)] by (auto simp: abort_desc_def)
  have dist: "t \<notin> set ts" using links_invD(1)[OF os_invD(6)[OF inv], of l] t(1) by simp
  have "removeAll t (lists s k) = (if k = l then ts else lists s k)" for k
    using links_invD(2)[OF os_invD(6)[OF inv], of t k] t d dist by auto
  then have "\<forall>k. is_pend k \<longrightarrow> lists s2 k = (if k = l then ts else lists s k)"
    using wakesD(13)[OF w(2)] is_pendD(1) by auto
  moreover have "same_rest s s2" using wakes_same[OF w(2)] by (simp add: same_rest_def)
  moreover have "upd_task t (\<lambda>d. d\<lparr>exstatus := - ERROR\<rparr>) s = Some ?s1" using t by (simp add: upd_task_def)
  ultimately show thesis using that[of ?s1 s2] t1(1) w(1) wakesD(1)[OF w(2)] ts2 by simp
qed

lemma LinklistResumeAll_loop_os:
  assumes "os_inv s" and "is_pend l" and "lists s l = xs"
  shows "\<exists>s'. LinklistResumeAll_loop l s = Some s' \<and> resumes l s s'"
  using assms
proof (induction xs arbitrary: s)
  case Nil
  then show ?case by (subst LinklistResumeAll_loop.simps) (auto simp: resumes_def aborted_def)
next
  case (Cons t ts)
  obtain d where d: "tasks s t = Some d" using pend_member[OF Cons.prems(1,2), of t] Cons.prems(3) by auto
  obtain s1 s2 where st: "upd_task t (\<lambda>d. d\<lparr>exstatus := - ERROR\<rparr>) s = Some s1" "tasks s1 t = Some (d\<lparr>exstatus := - ERROR\<rparr>)"
    "KTaskWakeup (int (task_id d)) s1 = Some (EOK, s2)" and s2: "os_inv s2" "same_rest s s2"
    "tasks s2 = (tasks s)(t \<mapsto> abort_desc d)" "\<forall>k. is_pend k \<longrightarrow> lists s2 k = (if k = l then ts else lists s k)"
    by (rule abort_step[OF Cons.prems d])
  have l2: "lists s2 l = ts" using s2(4) Cons.prems(2) by simp
  obtain s' where s': "LinklistResumeAll_loop l s2 = Some s'" "resumes l s2 s'" using Cons.IH[OF s2(1) Cons.prems(2) l2] by blast
  have dist: "t \<notin> set ts" using links_invD(1)[OF os_invD(6)[OF Cons.prems(1)], of l] Cons.prems(3) by simp
  have "tasks s' = aborted (t # ts) s"
    using s'(2) l2 s2(3) d dist by (auto simp: resumes_def aborted_def fun_eq_iff)
  then have "resumes l s s'"
    using s'(2) s2(2,4) Cons.prems(3) same_rest_trans[OF s2(2)] by (auto simp: resumes_def)
  moreover have "LinklistResumeAll_loop l s = Some s'"
    using st s'(1) Cons.prems(3) by (subst LinklistResumeAll_loop.simps) simp
  ultimately show ?case by blast
qed

lemma LinklistResumeAll_os:
  assumes inv: "os_inv s" and l: "is_pend l"
  obtains s' where "LinklistResumeAll l s = Some (EOK, s')" and "resumes l s s'"
proof -
  have o: "os_inv (CriticalAreaLock s)" using inv by simp
  obtain s1 where s1: "LinklistResumeAll_loop l (CriticalAreaLock s) = Some s1" "resumes l (CriticalAreaLock s) s1"
    using LinklistResumeAll_loop_os[OF o l refl] by blast
  have "aborted xs (CriticalAreaLock s) = aborted xs s" for xs by (auto simp: aborted_def fun_eq_iff)
  then have "resumes l s (CriticalAreaUnLock s1)"
    using s1(2) same_rest_unlock[of s s1] by (simp add: resumes_def)
  then show thesis using that s1(1) by (simp add: LinklistResumeAll_def Let_def)
qed

lemmas os_inv_defs = os_inv_def kinv_def sched_inv_def ready_inv_def rv_inv_def links_inv_def delay_inv_def ids_inv_def

text \<open>A timeout given in milliseconds is a positive signed number of ticks.\<close>

lemma ticks_sint: "0 < sint (CalculteTickFromTimeMs tps ms)"
proof -
  have d: "unat ((ms * tps) div 1000) \<le> 4294967"
    using unsigned_less[of "ms * tps", where 'a = nat] by (simp add: unat_div)
  then have "unat ((ms * tps) div 1000 + 1) = unat ((ms * tps) div 1000) + 1"
    by (intro unat_add_one) simp
  then have "unat (CalculteTickFromTimeMs tps ms) < 2 ^ 31"
    using d by (auto simp: CalculteTickFromTimeMs_def MIN_TICKS_def Let_def)
  then have "sint (CalculteTickFromTimeMs tps ms) = int (unat (CalculteTickFromTimeMs tps ms))"
    by (simp add: sint_uint signed_take_bit_int_eq_self_iff uint_nat del: of_nat_unat)
  moreover have "unat (CalculteTickFromTimeMs tps ms) \<noteq> 0" using ticks_positive[of tps ms] by (simp add: unat_gt_0)
  ultimately show ?thesis by (metis of_nat_0_less_iff neq0_conv)
qed

subsection \<open>Waiting with a timeout\<close>

lemma assigned_lists: "assigned mid s' \<Longrightarrow> is_pend l \<Longrightarrow> lists s' l = lists mid l"
  using DO_KTASK_ASSIGN_lists[OF os_invD(2)[OF assignedD(2)] assignedD(1)] is_pendD(1) by blast

lemma assigned_more: "assigned mid s' \<Longrightarrow> kernel.more s' = kernel.more mid"
  using sched_step_fields(10)[OF assignedD(4)] by blast

lemma Lock_upd [simp]: "(CriticalAreaLock s)\<lparr>tasks := ts\<rparr> = CriticalAreaLock (s\<lparr>tasks := ts\<rparr>)"
  by (simp add: CriticalAreaLock_def)

lemma pends_unlock:
  assumes "pends l flag t (CriticalAreaLock s) s'"
  shows "pends l flag t s (CriticalAreaUnLock s')"
proof -
  have "same_rest s (CriticalAreaUnLock s')" using same_rest_unlock[of s s'] assms by (simp only: pends_def)
  then show ?thesis using assms unfolding pends_def os_inv_frame lock_simps unlock_simps by blast
qed

text \<open>
  The state in which the running task has been suspended on a list and, memory permitting, given a
  delay: what every blocking call leaves behind before it gives up the processor.
\<close>

definition blocks :: "lhead \<Rightarrow> uint8 \<Rightarrow> bool \<Rightarrow> x_ticks_t \<Rightarrow> tid \<Rightarrow> 'a kernel_scheme \<Rightarrow> 'a kernel_scheme \<Rightarrow> bool" where
  "blocks l flag mem ticks t s s' \<longleftrightarrow> os_inv s' \<and> same_rest s s' \<and>
     (\<exists>d x. tasks s t = Some d \<and> tasks s' = (tasks s)(t \<mapsto> (pend_desc l d)\<lparr>delay := x\<rparr>) \<and>
       (if mem \<or> delay d \<noteq> None then x = Some \<lparr>delay_ticks = heartbeat_ticks s + ticks, delay_status = True\<rparr>
        else x = None) \<and>
       (\<forall>k. is_pend k \<longrightarrow> lists s' k = (if k = l then pend_order flag (tasks s) t (cur_prio d) (lists s k) else lists s k)))"

lemma block_steps:
  assumes inv: "os_inv s" and r: "os_running_task s = Some t" and t: "tasks s t = Some d" and run: "JudgeKTaskStatIsRunning d"
    and l: "is_pend l" and fl: "flag = LINKLIST_FLAG_FIFO \<or> flag = LINKLIST_FLAG_PRIO" and lock: "GetOsAssignLockLevel s = 0"
  obtains s1 x s2 s' where "LinklistSuspend l t flag (CriticalAreaLock s) = Some (EOK, s1)"
    "KTaskSetDelay mem t ticks s1 = Some (x, s2)" "blocks l flag mem ticks t s (CriticalAreaUnLock s2)"
    "assigned (CriticalAreaUnLock s2) s'"
proof -
  have o: "os_inv (CriticalAreaLock s)" "os_running_task (CriticalAreaLock s) = Some t" "tasks (CriticalAreaLock s) t = Some d"
    using inv r t by simp_all
  obtain s1 where su: "LinklistSuspend l t flag (CriticalAreaLock s) = Some (EOK, s1)"
    and p1: "pends l flag t (CriticalAreaLock s) s1"
    by (rule LinklistSuspend_os[OF o run l fl])
  note p = pends_unlock[OF p1]
  have t1: "tasks s1 t = Some (pend_desc l d)" using pendsD(4)[OF p1] t by auto
  obtain x where sd: "KTaskSetDelay mem t ticks s1 = Some (x, delay_set mem t ticks s1)"
    using KTaskSetDelay_os(1)[OF pendsD(1)[OF p1] t1] by blast
  let ?u = "CriticalAreaUnLock s1"
  let ?m = "delay_set mem t ticks ?u"
  have tu: "tasks ?u t = Some (pend_desc l d)" using t1 by simp
  have im: "os_inv ?m" by (rule KTaskSetDelay_os(2)[OF pendsD(1)[OF p] tu])
  have sr: "same_rest s ?u" by (rule pendsD(2)[OF p])
  then have srm: "same_rest s ?m" by (simp add: same_rest_def delay_set_def split: option.splits)
  obtain y where y: "tasks ?m t = Some ((pend_desc l d)\<lparr>delay := y\<rparr>)"
    and yv: "if mem \<or> delay (pend_desc l d) \<noteq> None
      then y = Some \<lparr>delay_ticks = heartbeat_ticks ?u + ticks, delay_status = True\<rparr> else y = delay (pend_desc l d)"
    using delay_set_task[OF tu, of mem ticks] by blast
  have ts: "tasks ?m = (tasks s)(t \<mapsto> (pend_desc l d)\<lparr>delay := y\<rparr>)"
    using y p t by (auto simp: pends_def fun_eq_iff)
  have hb: "heartbeat_ticks s1 = heartbeat_ticks s" using sr by (simp add: same_rest_def)
  have yv': "if mem \<or> delay d \<noteq> None then y = Some \<lparr>delay_ticks = heartbeat_ticks s + ticks, delay_status = True\<rparr> else y = None"
    using yv hb by auto
  have ls: "\<forall>k. is_pend k \<longrightarrow> lists ?m k = (if k = l then pend_order flag (tasks s) t (cur_prio d) (lists s k) else lists s k)"
    using p t by (auto simp: pends_def)
  have "blocks l flag mem ticks t s ?m"
    unfolding blocks_def using im srm t ts yv' ls by blast
  moreover have "os_running_task ?m = Some t" "GetOsAssignLockLevel ?m = 0"
    using srm r lock by (simp_all add: same_rest_def GetOsAssignLockLevel_def)
  then obtain s' where "assigned ?m s'" by (rule assignedI[OF im])
  ultimately show thesis using that[OF su sd] by simp
qed

lemma blocksD:
  assumes "blocks l flag mem ticks t s s'"
  shows "os_inv s'" "same_rest s s'"
    "\<exists>d x. tasks s t = Some d \<and> tasks s' = (tasks s)(t \<mapsto> (pend_desc l d)\<lparr>delay := x\<rparr>) \<and>
       (if mem \<or> delay d \<noteq> None then x = Some \<lparr>delay_ticks = heartbeat_ticks s + ticks, delay_status = True\<rparr>
        else x = None)"
    "is_pend k \<Longrightarrow> k \<noteq> l \<Longrightarrow> lists s' k = lists s k"
    "is_pend l \<Longrightarrow> mset (lists s' l) = add_mset t (mset (lists s l))"
proof -
  show "os_inv s'" "same_rest s s'" using assms by (simp_all add: blocks_def)
  show "\<exists>d x. tasks s t = Some d \<and> tasks s' = (tasks s)(t \<mapsto> (pend_desc l d)\<lparr>delay := x\<rparr>) \<and>
       (if mem \<or> delay d \<noteq> None then x = Some \<lparr>delay_ticks = heartbeat_ticks s + ticks, delay_status = True\<rparr> else x = None)"
    using assms unfolding blocks_def by blast
  show "is_pend k \<Longrightarrow> k \<noteq> l \<Longrightarrow> lists s' k = lists s k" using assms by (auto simp: blocks_def)
  show "is_pend l \<Longrightarrow> mset (lists s' l) = add_mset t (mset (lists s l))"
    using assms by (auto simp: blocks_def mset_pend_order)
qed

lemma blocked_task:
  assumes b: "blocks l flag mem ticks t s mid" and a: "assigned mid s'" and t: "tasks s t = Some d"
  obtains d' where "tasks s' t = Some d'" "JudgeKTaskStatIsSuspend d'" "sched_link d' = Some l" "exstatus d' = exstatus d"
    "delayed d' \<longleftrightarrow> mem \<or> delay d \<noteq> None" "delayed d' \<longrightarrow> wake_tick (tasks s') t = heartbeat_ticks s + ticks"
proof -
  obtain x where x: "tasks mid t = Some ((pend_desc l d)\<lparr>delay := x\<rparr>)"
    and xv: "if mem \<or> delay d \<noteq> None then x = Some \<lparr>delay_ticks = heartbeat_ticks s + ticks, delay_status = True\<rparr> else x = None"
    using blocksD(3)[OF b] t by auto
  let ?d = "(pend_desc l d)\<lparr>delay := x\<rparr>"
  have su: "JudgeKTaskStatIsSuspend ?d" by (simp add: Judge_StatGet)
  have "tasks s' t = Some ?d" using assignedD(6)[OF a x] su by blast
  moreover have "delayed ?d \<longleftrightarrow> mem \<or> delay d \<noteq> None" using xv by (auto simp: delayed_def split: if_splits)
  moreover have "wake_tick (tasks s') t = heartbeat_ticks s + ticks" if "delayed ?d"
    using calculation xv that by (auto simp: wake_tick_def)
  ultimately show thesis using that su by simp
qed

subsection \<open>The objects of other components\<close>

text \<open>
  The kernel record is extended by the components built on it. None of the operations on tasks and pend
  lists touches the extension.
\<close>

lemma upd_task_more: "upd_task t f s = Some s' \<Longrightarrow> kernel.more s' = kernel.more s"
  by (auto simp: upd_task_def split: option.splits)

lemma KTaskUnSetDelay_more: "KTaskUnSetDelay t s = Some (x, s') \<Longrightarrow> kernel.more s' = kernel.more s"
  by (auto simp: KTaskUnSetDelay_def delay_link_rm_def CriticalAreaLock_def CriticalAreaUnLock_def bind_eq_Some_conv Let_def
      upd_task_def split: option.splits if_splits)

lemma KTaskSetDelay_more:
  assumes "KTaskSetDelay mem t ticks s = Some (x, s')"
  shows "kernel.more s' = kernel.more s"
proof -
  obtain d where d: "tasks s t = Some d" using assms by (auto simp: KTaskSetDelay_def bind_eq_Some_conv)
  show ?thesis
  proof (cases "delay d")
    case None
    then show ?thesis using assms d
      by (cases mem) (auto simp: KTaskSetDelay_def upd_task_def CriticalAreaLock_def CriticalAreaUnLock_def)
  next
    case (Some dl)
    then show ?thesis using assms d
      by (cases "delay_status dl")
        (auto simp: KTaskSetDelay_def upd_task_def CriticalAreaLock_def CriticalAreaUnLock_def delay_link_rm_def)
  qed
qed

lemma lock_more [simp]:
  "kernel.more (CriticalAreaLock s) = kernel.more s" "kernel.more (CriticalAreaUnLock s) = kernel.more s"
  by (simp_all add: CriticalAreaLock_def CriticalAreaUnLock_def)

lemmas step_more = sched_step_fields(10)[OF KTaskOsAssignRemoveKTask_step] sched_step_fields(10)[OF KTaskStateSet_step]
  sched_step_fields(10)[OF sched_link_rm_step] sched_step_fields(10)[OF sched_link_insert_step]
  sched_step_fields(10)[OF KTaskInsertToReadyVector_step] sched_step_fields(10)[OF DO_KTASK_ASSIGN_step]

lemma SuspendKTask_more: "SuspendKTask i s = Some (x, s') \<Longrightarrow> kernel.more s' = kernel.more s"
  by (auto simp: SuspendKTask_def do_SuspendKTask_def bind_eq_Some_conv Let_def split: if_splits
      dest!: step_more KTaskUnSetDelay_more)

lemma KTaskWakeup_more: "KTaskWakeup i s = Some (x, s') \<Longrightarrow> kernel.more s' = kernel.more s"
  by (auto simp: KTaskWakeup_def do_KTaskWakeup_def bind_eq_Some_conv Let_def split: if_splits
      dest!: step_more KTaskUnSetDelay_more)

lemma LinklistSuspend_more: "LinklistSuspend l t fl s = Some (x, s') \<Longrightarrow> kernel.more s' = kernel.more s"
  by (auto simp: LinklistSuspend_def sched_link_back_def sched_link_when_def bind_eq_Some_conv Let_def split: if_splits
      dest!: step_more SuspendKTask_more)

lemma LinklistResume_more: "LinklistResume l s = Some (x, s') \<Longrightarrow> kernel.more s' = kernel.more s"
  by (auto simp: LinklistResume_def bind_eq_Some_conv Let_def dest!: KTaskWakeup_more split: list.splits)

subsection \<open>Properties\<close>

text \<open>C23: Resuming all tasks of a pend list returns: the list is empty afterwards, every task that was in it is
  ready without a pending delay and with an error as its status, no other task and no other pend list
  changes, and the kernel invariant is kept.\<close>

theorem LinklistResumeAll_correct:
  assumes "os_inv s" and "is_pend l"
  shows "\<exists>s'. LinklistResumeAll l s = Some (EOK, s') \<and> os_inv s' \<and> lists s' l = [] \<and>
    (\<forall>k. is_pend k \<and> k \<noteq> l \<longrightarrow> lists s' k = lists s k) \<and>
    (\<forall>t d. tasks s t = Some d \<longrightarrow> (if t \<in> set (lists s l)
       then \<exists>d'. tasks s' t = Some d' \<and> JudgeKTaskStatIsReady d' \<and> \<not> delayed d' \<and> exstatus d' = - ERROR \<and>
              cur_prio d' = cur_prio d
       else tasks s' t = Some d))"
proof -
  obtain s' where s': "LinklistResumeAll l s = Some (EOK, s')" "resumes l s s'"
    by (rule LinklistResumeAll_os[OF assms])
  then show ?thesis using assms(2)
    by (auto simp: resumes_def aborted_def abort_desc_def Judge_StatGet)
qed

theorem LinklistResumeAll_correct_witness:
  "\<exists>s'. LinklistResumeAll (SemPend 0) (demo_kernel ()) = Some (EOK, s') \<and> os_inv s' \<and> lists s' (SemPend 0) = []"
  using LinklistResumeAll_correct[OF demo_os_inv, of "SemPend 0" "()"] by auto

definition waiter_prio :: "'a kernel_scheme \<Rightarrow> tid \<Rightarrow> uint8" where
  "waiter_prio s t = (case tasks s t of Some d \<Rightarrow> cur_prio d | None \<Rightarrow> 0)"

text \<open>C24: Suspending in priority order keeps a list sorted by increasing priority number. In this kernel the
  larger number is the more urgent one, so the task that is resumed first is the least urgent of the
  waiting tasks.\<close>

theorem LinklistSuspend_prio_order:
  assumes "os_inv s" and "os_running_task s = Some t" and "tasks s t = Some d" and "JudgeKTaskStatIsRunning d"
    and "is_pend l" and "sorted (map (waiter_prio s) (lists s l))"
  shows "\<exists>s'. LinklistSuspend l t LINKLIST_FLAG_PRIO s = Some (EOK, s') \<and> os_inv s' \<and>
    set (lists s' l) = insert t (set (lists s l)) \<and> sorted (map (waiter_prio s') (lists s' l)) \<and>
    (\<exists>u s''. LinklistResume l s' = Some (EOK, s'') \<and> os_inv s'' \<and> u \<in> set (lists s' l) \<and> u \<notin> set (lists s'' l) \<and>
      (\<forall>v \<in> set (lists s' l). waiter_prio s' u \<le> waiter_prio s' v))"
proof -
  obtain s' where s': "LinklistSuspend l t LINKLIST_FLAG_PRIO s = Some (EOK, s')" "pends l LINKLIST_FLAG_PRIO t s s'"
    by (rule LinklistSuspend_os[OF assms(1-5) disjI2[OF refl]])
  let ?w = "waiter_prio s"
  have ts: "tasks s' = (tasks s)(t \<mapsto> pend_desc l d)"
    and ls: "lists s' l = prio_order (tasks s) t (cur_prio d) (lists s l)"
    using s'(2) assms(3,5) by (auto simp: pends_def pend_order_def LINKLIST_FLAG_FIFO_def LINKLIST_FLAG_PRIO_def)
  have w: "waiter_prio s' = ?w" using ts assms(3) by (auto simp: waiter_prio_def fun_eq_iff)
  have mem: "\<exists>e. tasks s u = Some e" if "u \<in> set (lists s l)" for u
    using links_invD(2)[OF os_invD(6)[OF assms(1)], of u l] that by blast
  have eq: "prio_order (tasks s) t (cur_prio d) (lists s l) = insert_when (\<lambda>u. ?w t < ?w u) t (lists s l)"
    unfolding prio_order_def by (rule insert_when_cong) (use mem assms(3) in \<open>force simp: waiter_prio_def\<close>)
  have so: "sorted (map ?w (lists s' l))" unfolding ls eq by (rule sorted_insert_when[OF assms(6)])
  have st: "set (lists s' l) = insert t (set (lists s l))"
    unfolding ls using arg_cong[OF mset_pend_order[of LINKLIST_FLAG_PRIO "tasks s" t "cur_prio d" "lists s l"], of set_mset]
    by (simp add: pend_order_def LINKLIST_FLAG_FIFO_def LINKLIST_FLAG_PRIO_def)
  then obtain u us where u: "lists s' l = u # us" by (cases "lists s' l") auto
  obtain s'' where s'': "LinklistResume l s' = Some (EOK, s'')" "wakes u s' s''"
    by (rule LinklistResume_os[OF pendsD(1)[OF s'(2)] assms(5) u])
  have "u \<notin> set (lists s'' l)" using wakesD(13)[OF s''(2)] is_pendD(1)[OF assms(5)] by simp
  moreover have "\<forall>v \<in> set (lists s' l). waiter_prio s' u \<le> waiter_prio s' v" using so u unfolding w by auto
  moreover have "sorted (map (waiter_prio s') (lists s' l))" unfolding w by (rule so)
  moreover have "u \<in> set (lists s' l)" using u by simp
  ultimately show ?thesis
    using s'(1) s''(1) st pendsD(1)[OF s'(2)] wakesD(1)[OF s''(2)] by blast
qed

theorem LinklistSuspend_prio_order_witness:
  "\<exists>s'. LinklistSuspend (SemPend 0) 10 LINKLIST_FLAG_PRIO (demo_kernel ()) = Some (EOK, s') \<and> os_inv s' \<and>
     set (lists s' (SemPend 0)) = {10}"
proof -
  have "JudgeKTaskStatIsRunning (demo_task 0 KTASK_RUNNING None 0)" by (simp add: Judge_StatGet)
  moreover have "lists (demo_kernel ()) (SemPend 0) = []" by (simp add: demo_kernel_def)
  ultimately show ?thesis
    using LinklistSuspend_prio_order[OF demo_os_inv demo_simps(1,4), of "SemPend 0" "()"] by auto
qed

end
