(* ===== verification/Semaphore.thy ===== *)
theory Semaphore
  imports Linklist
begin

text \<open>
  Counting semaphores (\<^verbatim>\<open>semaphore.c\<close>). A semaphore is named by its identifier, its pend list is
  \<open>SemPend i\<close>. \<open>mem\<close> stands for the success of the allocations a call makes. A blocking call is split at
  the scheduling point: \<open>KSemaphoreObtain\<close> either returns or leaves the task waiting, in which case
  \<open>KSemaphoreObtain_resume\<close> is what it returns when the task runs again.
\<close>

record Semaphore =
  sem_value :: uint16

record semk = kernel +
  k_sem_id_manager :: "nat \<rightharpoonup> Semaphore"
  k_sem_list :: "nat list"

definition SemaphoreCreate :: "bool \<Rightarrow> uint16 \<Rightarrow> 'a semk_scheme \<Rightarrow> int \<times> 'a semk_scheme" where
  "SemaphoreCreate mem val s =
     (if \<not> mem then (- ENOMEMORY, s)
      else let s = CriticalAreaLock s in
        case id_alloc (ID_NUM_MAX (cfg s)) (k_sem_id_manager s) of
          None \<Rightarrow> (- ENOMEMORY, CriticalAreaUnLock s)
        | Some i \<Rightarrow>
            (let s = s\<lparr>k_sem_id_manager := (k_sem_id_manager s)(i \<mapsto> \<lparr>sem_value = val\<rparr>)\<rparr>;
                 s = s\<lparr>lists := (lists s)(SemPend i := [])\<rparr>;
                 s = s\<lparr>k_sem_list := i # k_sem_list s\<rparr>
             in (int i, CriticalAreaUnLock s)))"

definition SemaphoreDelete :: "nat \<Rightarrow> 'a semk_scheme \<Rightarrow> 'a semk_scheme option" where
  "SemaphoreDelete i s = do {
     let s = CriticalAreaLock s;
     (resched, s) \<leftarrow> (if lists s (SemPend i) \<noteq> [] then do { (_, s) \<leftarrow> LinklistResumeAll (SemPend i) s; Some (True, s) }
                      else Some (False, s));
     let s = s\<lparr>k_sem_id_manager := id_del (k_sem_id_manager s) (int i)\<rparr>;
     let s = s\<lparr>k_sem_list := removeAll i (k_sem_list s)\<rparr>;
     let s = CriticalAreaUnLock s;
     if resched then DO_KTASK_ASSIGN s else Some s }"

definition SemaphoreObtain :: "bool \<Rightarrow> nat \<Rightarrow> uint32 \<Rightarrow> 'a semk_scheme \<Rightarrow> (outcome \<times> 'a semk_scheme) option" where
  "SemaphoreObtain mem i msec s = do {
     let wait_time = CalculteTickFromTimeMs (TICK_PER_SECOND (cfg s)) msec;
     let s = CriticalAreaLock s;
     sem \<leftarrow> k_sem_id_manager s i;
     if sem_value sem > 0 then
       Some (Ret EOK, CriticalAreaUnLock (s\<lparr>k_sem_id_manager := (k_sem_id_manager s)(i \<mapsto> sem\<lparr>sem_value := sem_value sem - 1\<rparr>)\<rparr>))
     else if wait_time = 0 then Some (Ret (- ETIMEOUT), CriticalAreaUnLock s)
     else do {
       task \<leftarrow> GetKTaskDescriptor s;
       s \<leftarrow> upd_task task (\<lambda>d. d\<lparr>exstatus := EOK\<rparr>) s;
       (_, s) \<leftarrow> LinklistSuspend (SemPend i) task LINKLIST_FLAG_PRIO s;
       s \<leftarrow> (if sint wait_time > 0 then do { (_, s) \<leftarrow> KTaskSetDelay mem task wait_time s; Some s } else Some s);
       let s = CriticalAreaUnLock s;
       s \<leftarrow> DO_KTASK_ASSIGN s;
       Some (Wait, s) } }"

definition KSemaphoreObtain_resume :: "tid \<Rightarrow> 'a semk_scheme \<Rightarrow> x_err_t option" where
  "KSemaphoreObtain_resume task s = do { d \<leftarrow> tasks s task; Some (exstatus d) }"

definition SemaphoreAbandon :: "nat \<Rightarrow> 'a semk_scheme \<Rightarrow> (x_err_t \<times> 'a semk_scheme) option" where
  "SemaphoreAbandon i s = do {
     let s = CriticalAreaLock s;
     sem \<leftarrow> k_sem_id_manager s i;
     if lists s (SemPend i) \<noteq> [] then do {
       (_, s) \<leftarrow> LinklistResume (SemPend i) s;
       let s = CriticalAreaUnLock s;
       s \<leftarrow> DO_KTASK_ASSIGN s;
       Some (EOK, s) }
     else Some (EOK, CriticalAreaUnLock (s\<lparr>k_sem_id_manager := (k_sem_id_manager s)(i \<mapsto> sem\<lparr>sem_value := sem_value sem + 1\<rparr>)\<rparr>)) }"

definition SemaphoreSetValue :: "nat \<Rightarrow> uint16 \<Rightarrow> 'a semk_scheme \<Rightarrow> (x_err_t \<times> 'a semk_scheme) option" where
  "SemaphoreSetValue i val s = do {
     let s = CriticalAreaLock s;
     sem \<leftarrow> k_sem_id_manager s i;
     if sem_value sem = val then Some (EOK, CriticalAreaUnLock s)
     else do {
       (resched, s) \<leftarrow> (if lists s (SemPend i) \<noteq> [] then do { (_, s) \<leftarrow> LinklistResumeAll (SemPend i) s; Some (True, s) }
                        else Some (False, s));
       let s = s\<lparr>k_sem_id_manager := (k_sem_id_manager s)(i \<mapsto> sem\<lparr>sem_value := val\<rparr>)\<rparr>;
       let s = CriticalAreaUnLock s;
       s \<leftarrow> (if resched then DO_KTASK_ASSIGN s else Some s);
       Some (EOK, s) } }"

definition KSemaphoreCreate :: "bool \<Rightarrow> uint16 \<Rightarrow> 'a semk_scheme \<Rightarrow> int \<times> 'a semk_scheme" where
  "KSemaphoreCreate mem val s = SemaphoreCreate mem val s"

definition KSemaphoreDelete :: "int \<Rightarrow> 'a semk_scheme \<Rightarrow> 'a semk_scheme option" where
  "KSemaphoreDelete i s = (if i < 0 then Some s
     else case id_get (k_sem_id_manager s) i of None \<Rightarrow> Some s | Some _ \<Rightarrow> SemaphoreDelete (id_trunc i) s)"

definition KSemaphoreObtain :: "bool \<Rightarrow> int \<Rightarrow> uint32 \<Rightarrow> 'a semk_scheme \<Rightarrow> (outcome \<times> 'a semk_scheme) option" where
  "KSemaphoreObtain mem i msec s = (if i < 0 then Some (Ret (- ERROR), s)
     else case id_get (k_sem_id_manager s) i of None \<Rightarrow> Some (Ret (- ERROR), s)
     | Some _ \<Rightarrow> SemaphoreObtain mem (id_trunc i) msec s)"

definition KSemaphoreAbandon :: "int \<Rightarrow> 'a semk_scheme \<Rightarrow> (x_err_t \<times> 'a semk_scheme) option" where
  "KSemaphoreAbandon i s = (if i < 0 then Some (- ERROR, s)
     else case id_get (k_sem_id_manager s) i of None \<Rightarrow> Some (- ERROR, s)
     | Some _ \<Rightarrow> SemaphoreAbandon (id_trunc i) s)"

definition KSemaphoreSetValue :: "int \<Rightarrow> uint16 \<Rightarrow> 'a semk_scheme \<Rightarrow> (x_err_t \<times> 'a semk_scheme) option" where
  "KSemaphoreSetValue i val s = (if i < 0 then Some (- ERROR, s)
     else case id_get (k_sem_id_manager s) i of None \<Rightarrow> Some (- ERROR, s)
     | Some _ \<Rightarrow> SemaphoreSetValue (id_trunc i) val s)"

subsection \<open>The invariant\<close>

text \<open>Tasks wait only on semaphores that exist and have no units left.\<close>

definition sem_ok :: "'a semk_scheme \<Rightarrow> bool" where
  "sem_ok s \<longleftrightarrow> (\<forall>i. lists s (SemPend i) \<noteq> [] \<longrightarrow> (\<exists>sem. k_sem_id_manager s i = Some sem \<and> sem_value sem = 0))"

definition sem_inv :: "'a semk_scheme \<Rightarrow> bool" where
  "sem_inv s \<longleftrightarrow> os_inv s \<and> sem_ok s"

lemma os_inv_sem [simp]:
  "os_inv (s\<lparr>k_sem_id_manager := f\<rparr>) = os_inv s" "os_inv (s\<lparr>k_sem_list := xs\<rparr>) = os_inv s"
  by (simp_all add: os_inv_defs)

lemma sem_more:
  assumes "kernel.more s' = kernel.more s"
  shows "k_sem_id_manager s' = k_sem_id_manager s" "k_sem_list s' = k_sem_list s"
  using assms by (cases s, cases s', simp)+

lemma sem_Lock [simp]:
  "k_sem_id_manager (CriticalAreaLock s) = k_sem_id_manager s" "k_sem_list (CriticalAreaLock s) = k_sem_list s"
  "k_sem_id_manager (CriticalAreaUnLock s) = k_sem_id_manager s" "k_sem_list (CriticalAreaUnLock s) = k_sem_list s"
  "CriticalAreaUnLock ((CriticalAreaLock s)\<lparr>k_sem_id_manager := f\<rparr>) = s\<lparr>k_sem_id_manager := f\<rparr>"
  by (simp_all add: CriticalAreaLock_def CriticalAreaUnLock_def)

lemma sem_invD: "sem_inv s \<Longrightarrow> os_inv s" "sem_inv s \<Longrightarrow> sem_ok s"
  by (simp_all add: sem_inv_def)

text \<open>Steps under which tasks only leave the pend lists of semaphores keep the invariant.\<close>

lemma sem_ok_shrink:
  assumes "sem_ok s" and "k_sem_id_manager s' = k_sem_id_manager s"
    and "\<And>i. set (lists s' (SemPend i)) \<subseteq> set (lists s (SemPend i))"
  shows "sem_ok s'"
proof -
  have "lists s (SemPend i) \<noteq> []" if "lists s' (SemPend i) \<noteq> []" for i
    using assms(3)[of i] that by (cases "lists s' (SemPend i)") auto
  then show ?thesis using assms(1,2) by (auto simp: sem_ok_def)
qed

lemma sem_inv_assigned:
  assumes "assigned mid s'" and "sem_ok mid"
  shows "sem_inv s'"
  using sem_ok_shrink[OF assms(2), of s'] sem_more[OF assigned_more[OF assms(1)]] assigned_lists[OF assms(1)]
    assignedD(3)[OF assms(1)] by (simp add: sem_inv_def)

subsection \<open>What the operations do\<close>

lemma SemaphoreObtain_take:
  assumes "k_sem_id_manager s i = Some sem" and "sem_value sem \<noteq> 0"
  shows "SemaphoreObtain mem i msec s =
    Some (Ret EOK, s\<lparr>k_sem_id_manager := (k_sem_id_manager s)(i \<mapsto> sem\<lparr>sem_value := sem_value sem - 1\<rparr>)\<rparr>)"
  using assms by (simp add: SemaphoreObtain_def Let_def word_neq_0_conv)

lemma SemaphoreObtain_block:
  fixes s :: "'a semk_scheme"
  assumes inv: "os_inv s" and r: "os_running_task s = Some t" and t: "tasks s t = Some d" and run: "JudgeKTaskStatIsRunning d"
    and lock: "GetOsAssignLockLevel s = 0" and sem: "k_sem_id_manager s i = Some sem" "sem_value sem = 0"
  obtains mid s' where "SemaphoreObtain mem i msec s = Some (Wait, s')"
    "blocks (SemPend i) LINKLIST_FLAG_PRIO mem (CalculteTickFromTimeMs (TICK_PER_SECOND (cfg s)) msec) t
       (s\<lparr>tasks := (tasks s)(t \<mapsto> d\<lparr>exstatus := EOK\<rparr>)\<rparr>) mid"
    "assigned mid s'"
proof -
  let ?u = "s\<lparr>tasks := (tasks s)(t \<mapsto> d\<lparr>exstatus := EOK\<rparr>)\<rparr>" and ?d = "d\<lparr>exstatus := EOK\<rparr>"
  let ?w = "CalculteTickFromTimeMs (TICK_PER_SECOND (cfg s)) msec"
  have iu: "os_inv ?u" by (rule exstatus_os[OF inv t])
  have u: "os_running_task ?u = Some t" "tasks ?u t = Some ?d" "JudgeKTaskStatIsRunning ?d" "GetOsAssignLockLevel ?u = 0"
    using r run lock by (simp_all add: Judge_StatGet GetOsAssignLockLevel_def)
  obtain s1 x s2 s' where b: "LinklistSuspend (SemPend i) t LINKLIST_FLAG_PRIO (CriticalAreaLock ?u) = Some (EOK, s1)"
    "KTaskSetDelay mem t ?w s1 = Some (x, s2)"
    "blocks (SemPend i) LINKLIST_FLAG_PRIO mem ?w t ?u (CriticalAreaUnLock s2)" "assigned (CriticalAreaUnLock s2) s'"
    using block_steps[OF iu u(1,2,3) _ disjI2[OF refl] u(4), of "SemPend i"] by (metis is_pend.simps(3))
  have "SemaphoreObtain mem i msec s = Some (Wait, s')"
    using b(1,2) assignedD(1)[OF b(4)] sem t r ticks_sint ticks_positive[of "TICK_PER_SECOND (cfg s)" msec]
    by (simp add: SemaphoreObtain_def Let_def upd_task_def GetKTaskDescriptor_def)
  then show thesis using that b(3,4) by blast
qed

lemma SemaphoreAbandon_hand:
  fixes s :: "'a semk_scheme"
  assumes inv: "os_inv s" and r: "os_running_task s = Some r" and lock: "GetOsAssignLockLevel s = 0"
    and sem: "k_sem_id_manager s i = Some sem" and t: "lists s (SemPend i) = t # ts"
  obtains mid s' where "SemaphoreAbandon i s = Some (EOK, s')" "wakes t s mid" "assigned mid s'"
proof -
  have o: "os_inv (CriticalAreaLock s)" "lists (CriticalAreaLock s) (SemPend i) = t # ts" using inv t by simp_all
  obtain s1 where s1: "LinklistResume (SemPend i) (CriticalAreaLock s) = Some (EOK, s1)" "wakes t (CriticalAreaLock s) s1"
    using LinklistResume_os[OF o(1) _ o(2)] by auto
  let ?m = "CriticalAreaUnLock s1"
  have w: "wakes t s ?m" by (rule wakes_lock[OF s1(2)])
  obtain s' where a: "assigned ?m s'"
    using assignedI[OF wakesD(1)[OF w], of r] wakesD(3,5)[OF w] r lock by (auto simp: GetOsAssignLockLevel_def)
  have "SemaphoreAbandon i s = Some (EOK, s')"
    using sem t s1(1) assignedD(1)[OF a] by (simp add: SemaphoreAbandon_def Let_def)
  then show thesis using that w a by blast
qed

lemma SemaphoreAbandon_inc:
  assumes "k_sem_id_manager s i = Some sem" and "lists s (SemPend i) = []"
  shows "SemaphoreAbandon i s =
    Some (EOK, s\<lparr>k_sem_id_manager := (k_sem_id_manager s)(i \<mapsto> sem\<lparr>sem_value := sem_value sem + 1\<rparr>)\<rparr>)"
  using assms by (simp add: SemaphoreAbandon_def Let_def)

lemma sem_upd_empty:
  assumes "sem_inv s" and "lists s (SemPend i) = []"
  shows "sem_inv (s\<lparr>k_sem_id_manager := (k_sem_id_manager s)(i \<mapsto> sem)\<rparr>)"
  using assms by (auto simp: sem_inv_def sem_ok_def)

lemma sem_waiting_zero:
  assumes "sem_inv s" and "k_sem_id_manager s i = Some sem" and "sem_value sem \<noteq> 0"
  shows "lists s (SemPend i) = []"
  using assms by (auto simp: sem_inv_def sem_ok_def)

text \<open>Ending the wait of every task on a semaphore.\<close>

lemma resumes_sem_ok:
  assumes "resumes (SemPend i) s m" and "sem_ok s"
  shows "sem_ok m" "lists m (SemPend i) = []"
proof -
  have l: "\<And>j. lists m (SemPend j) = (if j = i then [] else lists s (SemPend j))" and r: "kernel.more m = kernel.more s"
    using assms(1) by (auto simp: resumes_def same_rest_def)
  show "lists m (SemPend i) = []" using l by simp
  show "sem_ok m" by (rule sem_ok_shrink[OF assms(2) sem_more(1)[OF r]]) (simp add: l)
qed

lemma obtain_block_inv:
  assumes inv: "sem_inv s" and sem: "k_sem_id_manager s i = Some sem" "sem_value sem = 0" and t: "tasks s t = Some d"
    and b: "blocks (SemPend i) flag mem ticks t (s\<lparr>tasks := (tasks s)(t \<mapsto> e)\<rparr>) mid" and a: "assigned mid s'"
  shows "sem_inv s'" "k_sem_id_manager s' = k_sem_id_manager s"
proof -
  have m: "k_sem_id_manager mid = k_sem_id_manager s"
    using sem_more(1)[of mid "s\<lparr>tasks := (tasks s)(t \<mapsto> e)\<rparr>"] blocksD(2)[OF b] by (simp add: same_rest_def)
  have "lists mid (SemPend j) = lists s (SemPend j)" if "j \<noteq> i" for j
    using blocksD(4)[OF b, of "SemPend j"] that by simp
  then have "sem_ok mid" using inv sem unfolding sem_inv_def sem_ok_def m by metis
  then show "sem_inv s'" by (rule sem_inv_assigned[OF a])
  show "k_sem_id_manager s' = k_sem_id_manager s" using sem_more(1)[OF assigned_more[OF a]] m by simp
qed

subsection \<open>Histories\<close>

text \<open>
  A history of one semaphore: \<open>g\<close> counts the units granted to tasks, either at once or by a task that
  gives a unit back while others wait, \<open>r\<close> the units given back. \<open>other\<close> is any step of the kernel that
  leaves the semaphores alone, such as a task switch or a timeout.
\<close>

inductive sem_run :: "nat \<Rightarrow> 'a semk_scheme \<Rightarrow> nat \<Rightarrow> nat \<Rightarrow> 'a semk_scheme \<Rightarrow> bool" for i s where
  start: "sem_run i s 0 0 s"
| take: "sem_run i s g r u \<Longrightarrow> SemaphoreObtain mem i msec u = Some (Ret EOK, u') \<Longrightarrow> sem_run i s (Suc g) r u'"
| wait: "sem_run i s g r u \<Longrightarrow> SemaphoreObtain mem i msec u = Some (Wait, u') \<Longrightarrow> sem_run i s g r u'"
| give: "sem_run i s g r u \<Longrightarrow> SemaphoreAbandon i u = Some (EOK, u') \<Longrightarrow>
    sem_run i s (if lists u (SemPend i) = [] then g else Suc g) (Suc r) u'"
| other: "sem_run i s g r u \<Longrightarrow> k_sem_id_manager u' = k_sem_id_manager u \<Longrightarrow> sem_run i s g r u'"

definition units :: "nat \<Rightarrow> 'a semk_scheme \<Rightarrow> nat" where
  "units i s = (case k_sem_id_manager s i of None \<Rightarrow> 0 | Some sem \<Rightarrow> unat (sem_value sem))"

lemma SemaphoreObtain_cases:
  assumes "SemaphoreObtain mem i msec u = Some (res, u')"
  obtains (take) sem where "k_sem_id_manager u i = Some sem" "res = Ret EOK" "sem_value sem \<noteq> 0"
      "k_sem_id_manager u' = (k_sem_id_manager u)(i \<mapsto> sem\<lparr>sem_value := sem_value sem - 1\<rparr>)"
  | (other) sem where "k_sem_id_manager u i = Some sem" "res \<noteq> Ret EOK" "k_sem_id_manager u' = k_sem_id_manager u"
proof -
  obtain sem where sem: "k_sem_id_manager u i = Some sem"
    using assms by (auto simp: SemaphoreObtain_def Let_def bind_eq_Some_conv)
  show thesis
  proof (cases "sem_value sem = 0")
    case False
    then show thesis using take[OF sem] SemaphoreObtain_take[OF sem False, of mem msec] assms by auto
  next
    case True
    then have "res \<noteq> Ret EOK \<and> kernel.more u' = kernel.more u"
      using assms sem
      by (auto simp: SemaphoreObtain_def Let_def bind_eq_Some_conv err_defs split: if_splits
          dest!: upd_task_more LinklistSuspend_more KTaskSetDelay_more step_more)
    then show thesis using other[OF sem] sem_more(1) by blast
  qed
qed

lemma SemaphoreAbandon_cases:
  assumes "SemaphoreAbandon i u = Some (res, u')"
  obtains sem where "k_sem_id_manager u i = Some sem" "res = EOK"
    "k_sem_id_manager u' = (if lists u (SemPend i) = [] then (k_sem_id_manager u)(i \<mapsto> sem\<lparr>sem_value := sem_value sem + 1\<rparr>)
       else k_sem_id_manager u)"
proof -
  obtain sem where sem: "k_sem_id_manager u i = Some sem"
    using assms by (auto simp: SemaphoreAbandon_def Let_def bind_eq_Some_conv)
  show thesis
  proof (cases "lists u (SemPend i) = []")
    case True
    then show thesis using that[OF sem] SemaphoreAbandon_inc[OF sem True] assms by auto
  next
    case False
    then have "res = EOK \<and> kernel.more u' = kernel.more u"
      using assms sem
      by (auto simp: SemaphoreAbandon_def Let_def bind_eq_Some_conv split: if_splits dest!: LinklistResume_more step_more)
    then show thesis using that[OF sem] False sem_more(1)[of u' u] by simp
  qed
qed

lemma sem_run_units:
  assumes "sem_run i s g r u" and "k_sem_id_manager s i \<noteq> None" and "units i s + r < 65536"
  shows "units i u + g = units i s + r \<and> k_sem_id_manager u i \<noteq> None"
  using assms
proof induction
  case start
  then show ?case by simp
next
  case (take g r u mem msec u')
  then have ih: "units i u + g = units i s + r" by simp
  from take.hyps(2) show ?case
  proof (cases rule: SemaphoreObtain_cases)
    case (take sem)
    then have "unat (sem_value sem - 1) = unat (sem_value sem) - 1" "unat (sem_value sem) \<noteq> 0"
      by (simp_all add: unat_minus_one unsigned_eq_0_iff)
    then show ?thesis using ih take by (simp add: units_def)
  qed simp
next
  case (wait g r u mem msec u')
  from wait.hyps(2) show ?case
    by (cases rule: SemaphoreObtain_cases) (use wait in \<open>auto simp: units_def\<close>)
next
  case (give g r u u')
  from give.hyps(2) obtain sem where sem: "k_sem_id_manager u i = Some sem"
    "k_sem_id_manager u' = (if lists u (SemPend i) = [] then (k_sem_id_manager u)(i \<mapsto> sem\<lparr>sem_value := sem_value sem + 1\<rparr>)
       else k_sem_id_manager u)"
    by (cases rule: SemaphoreAbandon_cases)
  have ih: "units i u + g = units i s + r" using give by simp
  then have "unat (sem_value sem) + 1 < 65536" using sem(1) give.prems(2) by (simp add: units_def)
  then have "unat (sem_value sem + 1) = unat (sem_value sem) + 1" by (simp add: unat_word_ariths)
  then show ?case using ih sem by (simp add: units_def)
next
  case (other g r u u')
  then show ?case by (simp add: units_def)
qed

subsection \<open>A kernel with semaphores\<close>

definition demo_sem :: "semk" where
  "demo_sem = demo_kernel \<lparr>k_sem_id_manager = [0 \<mapsto> \<lparr>sem_value = 1\<rparr>, 1 \<mapsto> \<lparr>sem_value = 0\<rparr>], k_sem_list = [1, 0]\<rparr>"

lemma demo_sem_simps:
  "k_sem_id_manager demo_sem = [0 \<mapsto> \<lparr>sem_value = 1\<rparr>, 1 \<mapsto> \<lparr>sem_value = 0\<rparr>]"
  by (simp add: demo_sem_def demo_kernel_def)

lemma demo_sem_inv: "sem_inv demo_sem"
  using demo_os_inv by (simp add: sem_inv_def sem_ok_def demo_sem_def) (simp add: demo_kernel_def)

lemma demo_run: "JudgeKTaskStatIsRunning (demo_task 0 KTASK_RUNNING None 0)"
  by (simp add: Judge_StatGet)

subsection \<open>Properties\<close>

text \<open>C11: Obtaining a semaphore keeps the invariant that tasks wait only on semaphores without units. With units
  left it takes one and returns at once. Otherwise the caller is suspended on the semaphore and, memory
  permitting, put in the delay list with the timeout converted to ticks, whatever the timeout: a timeout of
  zero waits as well. An identifier that names no semaphore is an error.\<close>

theorem KSemaphoreObtain_correct:
  assumes "sem_inv s" and "os_running_task s = Some t" and "tasks s t = Some d" and "JudgeKTaskStatIsRunning d"
    and "GetOsAssignLockLevel s = 0" and "i < 65536"
  shows "case k_sem_id_manager s i of
      None \<Rightarrow> KSemaphoreObtain mem (int i) msec s = Some (Ret (- ERROR), s)
    | Some sem \<Rightarrow>
       if sem_value sem \<noteq> 0
       then \<exists>s'. KSemaphoreObtain mem (int i) msec s = Some (Ret EOK, s') \<and> sem_inv s' \<and> tasks s' = tasks s \<and>
         k_sem_id_manager s' = (k_sem_id_manager s)(i \<mapsto> \<lparr>sem_value = sem_value sem - 1\<rparr>)
       else \<exists>s' d'. KSemaphoreObtain mem (int i) msec s = Some (Wait, s') \<and> sem_inv s' \<and>
         k_sem_id_manager s' = k_sem_id_manager s \<and> tasks s' t = Some d' \<and> JudgeKTaskStatIsSuspend d' \<and>
         t \<in> set (lists s' (SemPend i)) \<and> exstatus d' = EOK \<and>
         (mem \<longrightarrow> t \<in> set (xiaoshan_delay_head s') \<and>
            wake_tick (tasks s') t = heartbeat_ticks s + CalculteTickFromTimeMs (TICK_PER_SECOND (cfg s)) msec)"
proof (cases "k_sem_id_manager s i")
  case None
  then show ?thesis using assms(6) by (simp add: KSemaphoreObtain_def id_get_def)
next
  case (Some sem)
  have eq: "KSemaphoreObtain mem (int i) msec s = SemaphoreObtain mem i msec s"
    using Some assms(6) by (simp add: KSemaphoreObtain_def id_get_def)
  show ?thesis
  proof (cases "sem_value sem = 0")
    case False
    then show ?thesis
      using Some eq SemaphoreObtain_take[OF Some False, of mem msec] sem_upd_empty[OF assms(1) sem_waiting_zero[OF assms(1) Some False]]
      by (cases sem) simp
  next
    case True
    let ?w = "CalculteTickFromTimeMs (TICK_PER_SECOND (cfg s)) msec"
    let ?u = "s\<lparr>tasks := (tasks s)(t \<mapsto> d\<lparr>exstatus := EOK\<rparr>)\<rparr>"
    obtain mid s' where ob: "SemaphoreObtain mem i msec s = Some (Wait, s')"
      and b: "blocks (SemPend i) LINKLIST_FLAG_PRIO mem ?w t ?u mid" and a: "assigned mid s'"
      by (rule SemaphoreObtain_block[OF sem_invD(1)[OF assms(1)] assms(2-5) Some True])
    note inv = obtain_block_inv[OF assms(1) Some True assms(3) b a]
    have tu: "tasks ?u t = Some (d\<lparr>exstatus := EOK\<rparr>)" by simp
    obtain d' where d': "tasks s' t = Some d'" "JudgeKTaskStatIsSuspend d'" "sched_link d' = Some (SemPend i)"
      "exstatus d' = exstatus (d\<lparr>exstatus := EOK\<rparr>)" "delayed d' \<longleftrightarrow> mem \<or> delay (d\<lparr>exstatus := EOK\<rparr>) \<noteq> None"
      and wt: "delayed d' \<longrightarrow> wake_tick (tasks s') t = heartbeat_ticks ?u + ?w"
      by (rule blocked_task[OF b a tu])
    have "t \<in> set (lists s' (SemPend i))"
      using links_invD(2)[OF os_invD(6)[OF sem_invD(1)[OF inv(1)]]] d' by blast
    moreover have "t \<in> set (xiaoshan_delay_head s')" if mem
      using os_invD(3)[OF sem_invD(1)[OF inv(1)]] d' that by (auto simp: delay_inv_def)
    ultimately show ?thesis using Some True eq ob inv d' wt by auto
  qed
qed

theorem KSemaphoreObtain_correct_witness:
  "(\<exists>s'. KSemaphoreObtain True 0 100 demo_sem = Some (Ret EOK, s') \<and> sem_inv s') \<and>
   (\<exists>s'. KSemaphoreObtain True 1 100 demo_sem = Some (Wait, s') \<and> 10 \<in> set (lists s' (SemPend 1)))"
proof -
  note c = KSemaphoreObtain_correct[OF demo_sem_inv, of 10 "demo_task 0 KTASK_RUNNING None 0" _ True 100]
  have "os_running_task demo_sem = Some 10" "tasks demo_sem 10 = Some (demo_task 0 KTASK_RUNNING None 0)"
    "GetOsAssignLockLevel demo_sem = 0"
    by (simp_all add: demo_sem_def demo_simps)
  note c' = c[OF this(1,2) demo_run this(3), unfolded demo_sem_simps]
  show ?thesis using c'[of 0] c'[of 1] by auto
qed

text \<open>C12: Giving a unit back keeps the invariant. If tasks wait, the first of them is made ready and gets the
  unit, so the value stays zero; otherwise the value is incremented modulo 65536. An identifier that names
  no semaphore is an error.\<close>

theorem KSemaphoreAbandon_correct:
  assumes "sem_inv s" and "os_running_task s = Some r" and "GetOsAssignLockLevel s = 0" and "i < 65536"
  shows "case k_sem_id_manager s i of
      None \<Rightarrow> KSemaphoreAbandon (int i) s = Some (- ERROR, s)
    | Some sem \<Rightarrow> \<exists>s'. KSemaphoreAbandon (int i) s = Some (EOK, s') \<and> sem_inv s' \<and>
       (case lists s (SemPend i) of
          [] \<Rightarrow> tasks s' = tasks s \<and> k_sem_id_manager s' = (k_sem_id_manager s)(i \<mapsto> \<lparr>sem_value = sem_value sem + 1\<rparr>)
        | t # ts \<Rightarrow> k_sem_id_manager s' = k_sem_id_manager s \<and> lists s' (SemPend i) = ts \<and>
            (\<exists>d d'. tasks s t = Some d \<and> tasks s' t = Some d' \<and> (JudgeKTaskStatIsReady d' \<or> JudgeKTaskStatIsRunning d') \<and>
               \<not> delayed d' \<and> exstatus d' = exstatus d))"
proof (cases "k_sem_id_manager s i")
  case None
  then show ?thesis using assms(4) by (simp add: KSemaphoreAbandon_def id_get_def)
next
  case (Some sem)
  have eq: "KSemaphoreAbandon (int i) s = SemaphoreAbandon i s"
    using Some assms(4) by (simp add: KSemaphoreAbandon_def id_get_def)
  show ?thesis
  proof (cases "lists s (SemPend i)")
    case Nil
    then show ?thesis using Some eq SemaphoreAbandon_inc[OF Some Nil] sem_upd_empty[OF assms(1) Nil]
      by (cases sem) simp
  next
    case (Cons t ts)
    obtain mid s' where ab: "SemaphoreAbandon i s = Some (EOK, s')" and w: "wakes t s mid" and a: "assigned mid s'"
      by (rule SemaphoreAbandon_hand[OF sem_invD(1)[OF assms(1)] assms(2,3) Some Cons])
    have ls: "lists s' (SemPend j) = removeAll t (lists s (SemPend j))" for j
      using assigned_lists[OF a, of "SemPend j"] wakesD(13)[OF w, of "SemPend j"] by simp
    have m: "k_sem_id_manager mid = k_sem_id_manager s" by (rule sem_more(1)[OF wakesD(4)[OF w]])
    have "sem_ok mid"
      by (rule sem_ok_shrink[OF sem_invD(2)[OF assms(1)] m]) (use wakesD(13)[OF w] in auto)
    then have i: "sem_inv s'" by (rule sem_inv_assigned[OF a])
    obtain d where d: "tasks s t = Some d" "tasks mid t = Some (ready_desc (undelay d))" using wakesD(12)[OF w] by auto
    obtain d' where d': "tasks s' t = Some d'" "nsched d' = nsched (ready_desc (undelay d))"
      "JudgeKTaskStatIsReady d' \<or> JudgeKTaskStatIsRunning d'"
      using assignedD(5)[OF a d(2)] by (auto simp: Judge_StatGet)
    have "\<not> delayed d'" "exstatus d' = exstatus d" using nsched_eqD(1,4)[OF d'(2)] by simp_all
    moreover have "removeAll t ts = ts"
      using links_invD(1)[OF os_invD(6)[OF sem_invD(1)[OF assms(1)]], of "SemPend i"] Cons by simp
    moreover have "k_sem_id_manager s' = k_sem_id_manager s" using sem_more(1)[OF assigned_more[OF a]] m by simp
    ultimately show ?thesis using Some Cons eq ab i ls[of i] d d' by auto
  qed
qed

theorem KSemaphoreAbandon_correct_witness:
  "\<exists>s'. KSemaphoreAbandon 0 demo_sem = Some (EOK, s') \<and> sem_inv s' \<and>
     k_sem_id_manager s' 0 = Some \<lparr>sem_value = 2\<rparr>"
proof -
  have "os_running_task demo_sem = Some 10" "GetOsAssignLockLevel demo_sem = 0" "lists demo_sem (SemPend 0) = []"
    by (simp_all add: demo_sem_def demo_simps) (simp add: demo_kernel_def)
  then show ?thesis using KSemaphoreAbandon_correct[OF demo_sem_inv, of 10 0] by (auto simp: demo_sem_simps)
qed



end
