(* ===== verification/Mutex.thy ===== *)
theory Mutex
  imports Semaphore
begin

text \<open>
  Recursive mutexes with priority inheritance (\<^verbatim>\<open>mutex.c\<close>). A mutex is named by its identifier, its pend
  list is \<open>MutexPend i\<close>. The counter of nested obtains is 8 bits wide. As for semaphores, a blocking call is
  split at the scheduling point.
\<close>

record Mutex =
  mutex_val :: uint16
  recursive_cnt :: uint8
  mutex_origin_prio :: uint8
  holder :: "tid option"

record mutexk = semk +
  k_mutex_id_manager :: "nat \<rightharpoonup> Mutex"
  k_mutex_list :: "nat list"

definition set_mutex :: "nat \<Rightarrow> Mutex \<Rightarrow> 'a mutexk_scheme \<Rightarrow> 'a mutexk_scheme" where
  "set_mutex i m s = s\<lparr>k_mutex_id_manager := (k_mutex_id_manager s)(i \<mapsto> m)\<rparr>"

definition MutexCreate :: "bool \<Rightarrow> 'a mutexk_scheme \<Rightarrow> int \<times> 'a mutexk_scheme" where
  "MutexCreate mem s =
     (if \<not> mem then (- ENOMEMORY, s)
      else let s = CriticalAreaLock s in
        case id_alloc (ID_NUM_MAX (cfg s)) (k_mutex_id_manager s) of
          None \<Rightarrow> (- ENOMEMORY, CriticalAreaUnLock s)
        | Some i \<Rightarrow>
            (let s = s\<lparr>lists := (lists s)(MutexPend i := [])\<rparr>;
                 s = set_mutex i \<lparr>mutex_val = 1, recursive_cnt = 0, mutex_origin_prio = 0xFF, holder = None\<rparr> s;
                 s = s\<lparr>k_mutex_list := i # k_mutex_list s\<rparr>
             in (int i, CriticalAreaUnLock s)))"

definition MutexDelete :: "nat \<Rightarrow> 'a mutexk_scheme \<Rightarrow> 'a mutexk_scheme option" where
  "MutexDelete i s = do {
     (_, s) \<leftarrow> LinklistResumeAll (MutexPend i) s;
     let s = CriticalAreaLock s;
     let s = s\<lparr>k_mutex_id_manager := id_del (k_mutex_id_manager s) (int i)\<rparr>;
     let s = s\<lparr>k_mutex_list := removeAll i (k_mutex_list s)\<rparr>;
     Some (CriticalAreaUnLock s) }"

text \<open>The priority inheritance of \<^verbatim>\<open>_MutexObtain\<close>: \<open>d\<close> waits for a mutex held by \<open>e\<close>.\<close>

definition MutexObtain_inherit :: "TaskDescriptor \<Rightarrow> TaskDescriptor \<Rightarrow> 'a kernel_scheme \<Rightarrow> 'a kernel_scheme option" where
  "MutexObtain_inherit d e s =
     (if cur_prio d > cur_prio e then do { (_, s) \<leftarrow> KTaskPrioSet (int (task_id e)) (cur_prio d) s; Some s } else Some s)"

definition MutexObtain :: "bool \<Rightarrow> nat \<Rightarrow> uint32 \<Rightarrow> 'a mutexk_scheme \<Rightarrow> (outcome \<times> 'a mutexk_scheme) option" where
  "MutexObtain mem i msec s = do {
     task \<leftarrow> GetKTaskDescriptor s;
     let wait_time = CalculteTickFromTimeMs (TICK_PER_SECOND (cfg s)) msec;
     let s = CriticalAreaLock s;
     mutex \<leftarrow> k_mutex_id_manager s i;
     s \<leftarrow> upd_task task (\<lambda>d. d\<lparr>exstatus := EOK\<rparr>) s;
     d \<leftarrow> tasks s task;
     if holder mutex = Some task then
       Some (Ret EOK, CriticalAreaUnLock (set_mutex i (mutex\<lparr>recursive_cnt := recursive_cnt mutex + 1\<rparr>) s))
     else if mutex_val mutex > 0 then
       Some (Ret EOK, CriticalAreaUnLock (set_mutex i (mutex\<lparr>mutex_val := mutex_val mutex - 1, holder := Some task,
         mutex_origin_prio := cur_prio d, recursive_cnt := recursive_cnt mutex + 1\<rparr>) s))
     else if wait_time = 0 then do {
       s \<leftarrow> upd_task task (\<lambda>d. d\<lparr>exstatus := - ETIMEOUT\<rparr>) s;
       Some (Ret (- ETIMEOUT), CriticalAreaUnLock s) }
     else do {
       h \<leftarrow> holder mutex;
       e \<leftarrow> tasks s h;
       s \<leftarrow> MutexObtain_inherit d e s;
       (_, s) \<leftarrow> LinklistSuspend (MutexPend i) task LINKLIST_FLAG_PRIO s;
       s \<leftarrow> (if sint wait_time > 0 then do { (_, s) \<leftarrow> KTaskSetDelay mem task wait_time s; Some s } else Some s);
       let s = CriticalAreaUnLock s;
       s \<leftarrow> DO_KTASK_ASSIGN s;
       Some (Wait, s) } }"

text \<open>Whether the wait ended with the mutex or with an error, the error status of the task is returned.\<close>

definition MutexObtain_resume :: "tid \<Rightarrow> 'a mutexk_scheme \<Rightarrow> x_err_t option" where
  "MutexObtain_resume task s = do { d \<leftarrow> tasks s task; Some (if exstatus d \<noteq> EOK then exstatus d else EOK) }"

text \<open>The holder gets back the priority it had when it obtained the mutex.\<close>

definition MutexAbandon_restore :: "Mutex \<Rightarrow> TaskDescriptor \<Rightarrow> 'a kernel_scheme \<Rightarrow> 'a kernel_scheme option" where
  "MutexAbandon_restore mutex d s =
     (if mutex_origin_prio mutex \<noteq> cur_prio d
      then do { (_, s) \<leftarrow> KTaskPrioSet (int (task_id d)) (mutex_origin_prio mutex) s; Some s } else Some s)"

definition MutexAbandon :: "nat \<Rightarrow> 'a mutexk_scheme \<Rightarrow> (x_err_t \<times> 'a mutexk_scheme) option" where
  "MutexAbandon i s = do {
     task \<leftarrow> GetKTaskDescriptor s;
     let s = CriticalAreaLock s;
     mutex \<leftarrow> k_mutex_id_manager s i;
     if Some task \<noteq> holder mutex then do {
       s \<leftarrow> upd_task task (\<lambda>d. d\<lparr>exstatus := - ERROR\<rparr>) s;
       Some (- ERROR, CriticalAreaUnLock s) }
     else let mutex = mutex\<lparr>recursive_cnt := recursive_cnt mutex - 1\<rparr>; s = set_mutex i mutex s in
     if recursive_cnt mutex = 0 then do {
       d \<leftarrow> tasks s task;
       s \<leftarrow> MutexAbandon_restore mutex d s;
       case lists s (MutexPend i) of
         t # _ \<Rightarrow> do {
           e \<leftarrow> tasks s t;
           let s = set_mutex i (mutex\<lparr>holder := Some t, mutex_origin_prio := cur_prio e,
             recursive_cnt := recursive_cnt mutex + 1\<rparr>) s;
           (_, s) \<leftarrow> LinklistResume (MutexPend i) s;
           let s = CriticalAreaUnLock s;
           s \<leftarrow> DO_KTASK_ASSIGN s;
           Some (EOK, s) }
       | [] \<Rightarrow> Some (EOK, CriticalAreaUnLock (set_mutex i (mutex\<lparr>mutex_val := mutex_val mutex + 1, holder := None,
           mutex_origin_prio := 0xff\<rparr>) s)) }
     else Some (EOK, CriticalAreaUnLock s) }"

definition KMutexCreate :: "bool \<Rightarrow> 'a mutexk_scheme \<Rightarrow> int \<times> 'a mutexk_scheme" where
  "KMutexCreate mem s = MutexCreate mem s"

definition KMutexDelete :: "int \<Rightarrow> 'a mutexk_scheme \<Rightarrow> 'a mutexk_scheme option" where
  "KMutexDelete i s = (if i < 0 then Some s
     else case id_get (k_mutex_id_manager s) i of None \<Rightarrow> Some s | Some _ \<Rightarrow> MutexDelete (id_trunc i) s)"

definition KMutexObtain :: "bool \<Rightarrow> int \<Rightarrow> uint32 \<Rightarrow> 'a mutexk_scheme \<Rightarrow> (outcome \<times> 'a mutexk_scheme) option" where
  "KMutexObtain mem i msec s = (if i < 0 then Some (Ret (- ERROR), s)
     else case id_get (k_mutex_id_manager s) i of None \<Rightarrow> Some (Ret (- ERROR), s)
     | Some _ \<Rightarrow> MutexObtain mem (id_trunc i) msec s)"

definition KMutexAbandon :: "int \<Rightarrow> 'a mutexk_scheme \<Rightarrow> (x_err_t \<times> 'a mutexk_scheme) option" where
  "KMutexAbandon i s = (if i < 0 then Some (- ERROR, s)
     else case id_get (k_mutex_id_manager s) i of None \<Rightarrow> Some (- ERROR, s)
     | Some _ \<Rightarrow> MutexAbandon (id_trunc i) s)"

subsection \<open>The invariant\<close>

text \<open>
  A mutex is free, with no task waiting, or held by an existing task. Tasks wait only on existing mutexes.
\<close>

definition free_mutex :: "Mutex \<Rightarrow> bool" where
  "free_mutex m \<longleftrightarrow> mutex_val m = 1 \<and> holder m = None \<and> recursive_cnt m = 0"

definition held_mutex :: "'a mutexk_scheme \<Rightarrow> Mutex \<Rightarrow> bool" where
  "held_mutex s m \<longleftrightarrow> mutex_val m = 0 \<and> unat (mutex_origin_prio m) < KTASK_PRIORITY_MAX (cfg s) \<and>
     (\<exists>h. holder m = Some h \<and> tasks s h \<noteq> None)"

definition mutex_ok :: "'a mutexk_scheme \<Rightarrow> bool" where
  "mutex_ok s \<longleftrightarrow> (\<forall>i. case k_mutex_id_manager s i of
      None \<Rightarrow> lists s (MutexPend i) = []
    | Some m \<Rightarrow> free_mutex m \<and> lists s (MutexPend i) = [] \<or> held_mutex s m)"

definition mutex_inv :: "'a mutexk_scheme \<Rightarrow> bool" where
  "mutex_inv s \<longleftrightarrow> os_inv s \<and> mutex_ok s"

lemma mutex_invD: "mutex_inv s \<Longrightarrow> os_inv s" "mutex_inv s \<Longrightarrow> mutex_ok s"
  by (simp_all add: mutex_inv_def)

lemma set_mutex_simps [simp]:
  "os_inv (set_mutex i m s) = os_inv s" "tasks (set_mutex i m s) = tasks s" "lists (set_mutex i m s) = lists s"
  "cfg (set_mutex i m s) = cfg s" "os_running_task (set_mutex i m s) = os_running_task s"
  "GetOsAssignLockLevel (set_mutex i m s) = GetOsAssignLockLevel s"
  "k_mutex_id_manager (set_mutex i m s) = (k_mutex_id_manager s)(i \<mapsto> m)"
  "CriticalAreaUnLock (set_mutex i m s) = set_mutex i m (CriticalAreaUnLock s)"
  "set_mutex i m (CriticalAreaLock s) = CriticalAreaLock (set_mutex i m s)"
  "set_mutex i m (set_mutex i m' s) = set_mutex i m s"
  by (simp_all add: set_mutex_def os_inv_defs CriticalAreaLock_def CriticalAreaUnLock_def GetOsAssignLockLevel_def)

lemma mutex_more:
  assumes "kernel.more s' = kernel.more s"
  shows "k_mutex_id_manager s' = k_mutex_id_manager s" "k_mutex_list s' = k_mutex_list s"
  using assms by (cases s, cases s', simp)+

lemma mutex_Lock [simp]:
  "k_mutex_id_manager (CriticalAreaLock s) = k_mutex_id_manager s"
  "k_mutex_id_manager (CriticalAreaUnLock s) = k_mutex_id_manager s"
  by (simp_all add: CriticalAreaLock_def CriticalAreaUnLock_def)

lemma mutex_okD:
  assumes "mutex_ok s" and "k_mutex_id_manager s i = Some m"
  shows "holder m = Some h \<Longrightarrow> held_mutex s m" "holder m = None \<Longrightarrow> free_mutex m \<and> lists s (MutexPend i) = []"
    "mutex_val m \<noteq> 0 \<longleftrightarrow> holder m = None" "lists s (MutexPend i) \<noteq> [] \<Longrightarrow> held_mutex s m"
  using assms unfolding mutex_ok_def
  by (auto simp: free_mutex_def held_mutex_def split: option.splits dest!: spec[of _ i])

lemma mutex_ok_frame:
  assumes "mutex_ok s" and "k_mutex_id_manager s' = k_mutex_id_manager s" and "cfg s' = cfg s"
    and "\<forall>t. tasks s t \<noteq> None \<longrightarrow> tasks s' t \<noteq> None"
    and "\<forall>i. lists s' (MutexPend i) = [] \<or> lists s (MutexPend i) \<noteq> [] \<or> (\<exists>m h. k_mutex_id_manager s i = Some m \<and> holder m = Some h)"
  shows "mutex_ok s'"
  unfolding mutex_ok_def
proof
  fix i
  show "case k_mutex_id_manager s' i of None \<Rightarrow> lists s' (MutexPend i) = []
    | Some m \<Rightarrow> free_mutex m \<and> lists s' (MutexPend i) = [] \<or> held_mutex s' m"
  proof (cases "k_mutex_id_manager s i")
    case None
    then have "lists s (MutexPend i) = []" using assms(1) unfolding mutex_ok_def by (auto dest!: spec[of _ i])
    then show ?thesis using None assms(2) spec[OF assms(5), of i] by simp
  next
    case (Some m)
    have h: "held_mutex s m \<Longrightarrow> held_mutex s' m" using assms(3,4) by (auto simp: held_mutex_def)
    have "lists s' (MutexPend i) = [] \<or> held_mutex s m"
      using spec[OF assms(5), of i] mutex_okD(1,4)[OF assms(1) Some] Some by auto
    moreover have "free_mutex m \<or> held_mutex s m" using mutex_okD(1,2)[OF assms(1) Some] by (cases "holder m") auto
    ultimately show ?thesis using Some assms(2) h by auto
  qed
qed

lemma mutex_ok_set:
  assumes "mutex_ok s" and "free_mutex m \<and> lists s (MutexPend i) = [] \<or> held_mutex s m"
  shows "mutex_ok (set_mutex i m s)"
  unfolding mutex_ok_def
proof
  fix j
  have h: "held_mutex (set_mutex i m s) m' = held_mutex s m'" for m' by (simp add: held_mutex_def)
  have "case k_mutex_id_manager s j of None \<Rightarrow> lists s (MutexPend j) = []
    | Some m \<Rightarrow> free_mutex m \<and> lists s (MutexPend j) = [] \<or> held_mutex s m"
    using assms(1) by (simp add: mutex_ok_def)
  then show "case k_mutex_id_manager (set_mutex i m s) j of None \<Rightarrow> lists (set_mutex i m s) (MutexPend j) = []
    | Some m' \<Rightarrow> free_mutex m' \<and> lists (set_mutex i m s) (MutexPend j) = [] \<or> held_mutex (set_mutex i m s) m'"
    using assms(2) h by (auto split: option.splits)
qed

lemma assigned_mutex_inv:
  assumes "assigned mid s'" and "mutex_ok mid"
  shows "mutex_inv s'" "k_mutex_id_manager s' = k_mutex_id_manager mid"
proof -
  show k: "k_mutex_id_manager s' = k_mutex_id_manager mid" by (rule mutex_more(1)[OF assigned_more[OF assms(1)]])
  have "map_option nsched (tasks s' t) = map_option nsched (tasks mid t)" for t
    using assignedD(4)[OF assms(1)] by (simp add: sched_step_def)
  then have "tasks mid t \<noteq> None \<longrightarrow> tasks s' t \<noteq> None" for t by (metis map_option_is_None)
  then have "mutex_ok s'"
    using mutex_ok_frame[OF assms(2) k] assignedD(4)[OF assms(1)] assigned_lists[OF assms(1)]
    by (simp add: sched_step_def)
  then show "mutex_inv s'" using assignedD(3)[OF assms(1)] by (simp add: mutex_inv_def)
qed

subsection \<open>What the operations do\<close>

definition eok_status :: "tid \<Rightarrow> TaskDescriptor \<Rightarrow> 'a kernel_scheme \<Rightarrow> 'a kernel_scheme" where
  "eok_status t d s = s\<lparr>tasks := (tasks s)(t \<mapsto> d\<lparr>exstatus := EOK\<rparr>)\<rparr>"

lemma eok_status_simps [simp]:
  "tasks (eok_status t d s) = (tasks s)(t \<mapsto> d\<lparr>exstatus := EOK\<rparr>)" "lists (eok_status t d s) = lists s"
  "cfg (eok_status t d s) = cfg s" "os_running_task (eok_status t d s) = os_running_task s"
  "GetOsAssignLockLevel (eok_status t d s) = GetOsAssignLockLevel s"
  "k_mutex_id_manager (eok_status t d (u :: 'a mutexk_scheme)) = k_mutex_id_manager u"
  "heartbeat_ticks (eok_status t d s) = heartbeat_ticks s"
  by (simp_all add: eok_status_def GetOsAssignLockLevel_def)

lemma eok_status_mutex:
  assumes "mutex_inv s" and "tasks s t = Some d"
  shows "mutex_inv (eok_status t d s)"
  using exstatus_os[OF mutex_invD(1)[OF assms(1)] assms(2), of EOK] mutex_ok_frame[OF mutex_invD(2)[OF assms(1)], of "eok_status t d s"]
  by (auto simp: mutex_inv_def eok_status_def)

lemma MutexObtain_again:
  assumes "os_running_task s = Some t" and "tasks s t = Some d" and "k_mutex_id_manager s i = Some m" and "holder m = Some t"
  shows "MutexObtain mem i msec s = Some (Ret EOK, set_mutex i (m\<lparr>recursive_cnt := recursive_cnt m + 1\<rparr>) (eok_status t d s))"
  using assms by (simp add: MutexObtain_def Let_def upd_task_def GetKTaskDescriptor_def eok_status_def)

lemma MutexObtain_take:
  assumes "os_running_task s = Some t" and "tasks s t = Some d" and "k_mutex_id_manager s i = Some m" and "holder m = None"
    and "mutex_val m \<noteq> 0"
  shows "MutexObtain mem i msec s = Some (Ret EOK, set_mutex i (m\<lparr>mutex_val := mutex_val m - 1, holder := Some t,
         mutex_origin_prio := cur_prio d, recursive_cnt := recursive_cnt m + 1\<rparr>) (eok_status t d s))"
  using assms by (simp add: MutexObtain_def Let_def upd_task_def GetKTaskDescriptor_def eok_status_def word_neq_0_conv)

text \<open>The holder after it has inherited the priority of a waiting task.\<close>

definition inherit_state :: "tid \<Rightarrow> TaskDescriptor \<Rightarrow> uint8 \<Rightarrow> 'a kernel_scheme \<Rightarrow> 'a kernel_scheme" where
  "inherit_state h e p s = (if p > cur_prio e \<and> \<not> strncmp_eq ''ktaskidle'' (task_name e) 9
     then s\<lparr>tasks := (tasks s)(h \<mapsto> prio_desc (cfg s) p e)\<rparr> else s)"

lemma inherit_state_simps [simp]:
  "lists (inherit_state h e p s) = lists s" "cfg (inherit_state h e p s) = cfg s"
  "os_running_task (inherit_state h e p s) = os_running_task s" "heartbeat_ticks (inherit_state h e p s) = heartbeat_ticks s"
  "GetOsAssignLockLevel (inherit_state h e p s) = GetOsAssignLockLevel s"
  "kernel.more (inherit_state h e p s) = kernel.more s" "t \<noteq> h \<Longrightarrow> tasks (inherit_state h e p s) t = tasks s t"
  "inherit_state h e p (CriticalAreaLock s) = CriticalAreaLock (inherit_state h e p s)"
  by (simp_all add: inherit_state_def GetOsAssignLockLevel_def)

lemma inherit_os:
  assumes "os_inv s" and "tasks s h = Some e" and "cur_prio e < p \<longrightarrow> JudgeKTaskStatIsSuspend e"
    and "unat p < KTASK_PRIORITY_MAX (cfg s)" and "p = cur_prio d"
  shows "MutexObtain_inherit d e s = Some (inherit_state h e p s)"
    and "os_inv (inherit_state h e p s)"
proof -
  have nr: "\<not> JudgeKTaskStatIsReady e" "\<not> JudgeKTaskStatIsClose e" if "cur_prio e < p"
    using assms(3) that by (simp_all add: Judge_StatGet)
  show "MutexObtain_inherit d e s = Some (inherit_state h e p s)"
    using KTaskPrioSet_effect[OF assms(1,2) nr(1) assms(4)] nr assms(3,5) by (auto simp: inherit_state_def MutexObtain_inherit_def)
  show "os_inv (inherit_state h e p s)"
    using set_prio(2)[OF assms(1,2) nr(1) assms(4)] assms(1) by (simp add: inherit_state_def)
qed

lemma running_prio:
  assumes "os_inv s" and "tasks s t = Some d"
  shows "unat (cur_prio d) < KTASK_PRIORITY_MAX (cfg s)"
  using ready_invD(5)[OF os_invD(5)[OF assms(1)] assms(2)] by (simp add: task_inv_def task_ok_def)

lemma MutexObtain_block:
  fixes s :: "'a mutexk_scheme"
  assumes inv: "os_inv s" and r: "os_running_task s = Some t" and t: "tasks s t = Some d" and run: "JudgeKTaskStatIsRunning d"
    and lock: "GetOsAssignLockLevel s = 0" and m: "k_mutex_id_manager s i = Some m" "mutex_val m = 0"
    and h: "holder m = Some h" "h \<noteq> t" "tasks s h = Some e" and low: "cur_prio e < cur_prio d \<longrightarrow> JudgeKTaskStatIsSuspend e"
  obtains mid s' where "MutexObtain mem i msec s = Some (Wait, s')"
    "blocks (MutexPend i) LINKLIST_FLAG_PRIO mem (CalculteTickFromTimeMs (TICK_PER_SECOND (cfg s)) msec) t
       (inherit_state h e (cur_prio d) (eok_status t d s)) mid"
    "assigned mid s'"
proof -
  let ?u = "eok_status t d s" and ?d = "d\<lparr>exstatus := EOK\<rparr>" and ?w = "CalculteTickFromTimeMs (TICK_PER_SECOND (cfg s)) msec"
  let ?v = "inherit_state h e (cur_prio d) ?u"
  have iu: "os_inv ?u" unfolding eok_status_def by (rule exstatus_os[OF inv t])
  have hu: "tasks ?u h = Some e" "unat (cur_prio d) < KTASK_PRIORITY_MAX (cfg ?u)" using h running_prio[OF inv t] by simp_all
  have il: "os_inv (CriticalAreaLock ?u)" "tasks (CriticalAreaLock ?u) h = Some e"
    "unat (cur_prio d) < KTASK_PRIORITY_MAX (cfg (CriticalAreaLock ?u))" using iu hu by simp_all
  have inh: "MutexObtain_inherit ?d e (CriticalAreaLock ?u) = Some (CriticalAreaLock ?v)"
    using inherit_os(1)[OF il(1,2) low il(3), of ?d] by simp
  have iv: "os_inv ?v" by (rule inherit_os(2)[OF iu hu(1) low hu(2) refl])
  have v: "os_running_task ?v = Some t" "tasks ?v t = Some ?d" "JudgeKTaskStatIsRunning ?d" "GetOsAssignLockLevel ?v = 0"
    using r run lock h(2) by (simp_all add: Judge_StatGet)
  obtain s1 x s2 s' where b: "LinklistSuspend (MutexPend i) t LINKLIST_FLAG_PRIO (CriticalAreaLock ?v) = Some (EOK, s1)"
    "KTaskSetDelay mem t ?w s1 = Some (x, s2)"
    "blocks (MutexPend i) LINKLIST_FLAG_PRIO mem ?w t ?v (CriticalAreaUnLock s2)" "assigned (CriticalAreaUnLock s2) s'"
    using block_steps[OF iv v(1,2,3) _ disjI2[OF refl] v(4), of "MutexPend i"] by (metis is_pend.simps(4))
  have up: "upd_task t (\<lambda>d. d\<lparr>exstatus := EOK\<rparr>) (CriticalAreaLock s) = Some (CriticalAreaLock ?u)"
    using t by (simp add: upd_task_def eok_status_def)
  have "MutexObtain mem i msec s = Some (Wait, s')"
    using b(1,2) inh up assignedD(1)[OF b(4)] m h t r ticks_sint ticks_positive[of "TICK_PER_SECOND (cfg s)" msec]
    by (auto simp: MutexObtain_def Let_def GetKTaskDescriptor_def)
  then show thesis using that b(3,4) by blast
qed

definition restore_state :: "tid \<Rightarrow> TaskDescriptor \<Rightarrow> uint8 \<Rightarrow> 'a kernel_scheme \<Rightarrow> 'a kernel_scheme" where
  "restore_state t d p s = (if p \<noteq> cur_prio d \<and> \<not> strncmp_eq ''ktaskidle'' (task_name d) 9
     then s\<lparr>tasks := (tasks s)(t \<mapsto> prio_desc (cfg s) p d)\<rparr> else s)"

lemma restore_state_simps [simp]:
  "lists (restore_state t d p s) = lists s" "cfg (restore_state t d p s) = cfg s"
  "os_running_task (restore_state t d p s) = os_running_task s"
  "GetOsAssignLockLevel (restore_state t d p s) = GetOsAssignLockLevel s"
  "kernel.more (restore_state t d p s) = kernel.more s" "u \<noteq> t \<Longrightarrow> tasks (restore_state t d p s) u = tasks s u"
  "restore_state t d p (CriticalAreaLock s) = CriticalAreaLock (restore_state t d p s)"
  by (simp_all add: restore_state_def GetOsAssignLockLevel_def)

lemma restore_state_mutex [simp]:
  "restore_state t d p (set_mutex i m s) = set_mutex i m (restore_state t d p s)"
  "k_mutex_id_manager (restore_state t d p (s :: 'a mutexk_scheme)) = k_mutex_id_manager s"
  by (simp_all add: restore_state_def set_mutex_def)

lemma restore_os:
  assumes "os_inv s" and "tasks s t = Some d" and "JudgeKTaskStatIsRunning d"
    and "unat (mutex_origin_prio m) < KTASK_PRIORITY_MAX (cfg s)"
  shows "MutexAbandon_restore m d s = Some (restore_state t d (mutex_origin_prio m) s)"
    and "os_inv (restore_state t d (mutex_origin_prio m) s)"
proof -
  have nr: "\<not> JudgeKTaskStatIsReady d" "\<not> JudgeKTaskStatIsClose d" using assms(3) by (simp_all add: Judge_StatGet)
  show "MutexAbandon_restore m d s = Some (restore_state t d (mutex_origin_prio m) s)"
    using KTaskPrioSet_effect[OF assms(1,2) nr(1) assms(4)] nr assms(3) by (auto simp: restore_state_def MutexAbandon_restore_def)
  show "os_inv (restore_state t d (mutex_origin_prio m) s)"
    using set_prio(2)[OF assms(1,2) nr(1) assms(4)] assms(1) by (simp add: restore_state_def)
qed

lemma MutexAbandon_refused:
  assumes "os_running_task s = Some t" and "tasks s t = Some d" and "k_mutex_id_manager s i = Some m" and "holder m \<noteq> Some t"
  shows "MutexAbandon i s = Some (- ERROR, s\<lparr>tasks := (tasks s)(t \<mapsto> d\<lparr>exstatus := - ERROR\<rparr>)\<rparr>)"
  using assms by (auto simp: MutexAbandon_def Let_def upd_task_def GetKTaskDescriptor_def)

lemma MutexAbandon_nested:
  assumes "os_running_task s = Some t" and "k_mutex_id_manager s i = Some m" and "holder m = Some t" and "recursive_cnt m \<noteq> 1"
  shows "MutexAbandon i s = Some (EOK, set_mutex i (m\<lparr>recursive_cnt := recursive_cnt m - 1\<rparr>) s)"
  using assms by (simp add: MutexAbandon_def Let_def GetKTaskDescriptor_def)

text \<open>The last release, up to the look at the pend list.\<close>

lemma MutexAbandon_last:
  fixes s :: "'a mutexk_scheme"
  assumes inv: "os_inv s" and r: "os_running_task s = Some t" and t: "tasks s t = Some d" "JudgeKTaskStatIsRunning d"
    and m: "k_mutex_id_manager s i = Some m" "holder m = Some t" "recursive_cnt m = 1"
    and p: "unat (mutex_origin_prio m) < KTASK_PRIORITY_MAX (cfg s)"
  shows "lists s (MutexPend i) = [] \<Longrightarrow> MutexAbandon i s = Some (EOK, set_mutex i
      \<lparr>mutex_val = mutex_val m + 1, recursive_cnt = 0, mutex_origin_prio = 0xff, holder = None\<rparr>
      (restore_state t d (mutex_origin_prio m) s))"
    and "lists s (MutexPend i) = u # us \<Longrightarrow> MutexAbandon i s =
      (let v = restore_state t d (mutex_origin_prio m) s in do {
         e \<leftarrow> tasks v u;
         (_, s) \<leftarrow> LinklistResume (MutexPend i) (CriticalAreaLock
           (set_mutex i \<lparr>mutex_val = mutex_val m, recursive_cnt = 1, mutex_origin_prio = cur_prio e, holder = Some u\<rparr> v));
         s \<leftarrow> DO_KTASK_ASSIGN (CriticalAreaUnLock s);
         Some (EOK, s) })"
proof -
  let ?m = "m\<lparr>recursive_cnt := 0\<rparr>" and ?s = "set_mutex i (m\<lparr>recursive_cnt := 0\<rparr>) s"
  have o: "os_inv (CriticalAreaLock ?s)" "tasks (CriticalAreaLock ?s) t = Some d"
    "unat (mutex_origin_prio ?m) < KTASK_PRIORITY_MAX (cfg (CriticalAreaLock ?s))"
    using inv t p by simp_all
  note re = restore_os(1)[OF o(1,2) t(2) o(3), unfolded restore_state_simps restore_state_mutex]
  show "lists s (MutexPend i) = [] \<Longrightarrow> MutexAbandon i s = Some (EOK, set_mutex i
      \<lparr>mutex_val = mutex_val m + 1, recursive_cnt = 0, mutex_origin_prio = 0xff, holder = None\<rparr>
      (restore_state t d (mutex_origin_prio m) s))"
    using r t(1) m re by (cases m) (simp add: MutexAbandon_def Let_def GetKTaskDescriptor_def)
  show "lists s (MutexPend i) = u # us \<Longrightarrow> MutexAbandon i s =
      (let v = restore_state t d (mutex_origin_prio m) s in do {
         e \<leftarrow> tasks v u;
         (_, s) \<leftarrow> LinklistResume (MutexPend i) (CriticalAreaLock
           (set_mutex i \<lparr>mutex_val = mutex_val m, recursive_cnt = 1, mutex_origin_prio = cur_prio e, holder = Some u\<rparr> v));
         s \<leftarrow> DO_KTASK_ASSIGN (CriticalAreaUnLock s);
         Some (EOK, s) })"
    using r t(1) m re by (cases m) (simp add: MutexAbandon_def Let_def GetKTaskDescriptor_def)
qed

lemma MutexAbandon_hand:
  fixes s :: "'a mutexk_scheme"
  assumes inv: "os_inv s" and r: "os_running_task s = Some t" and t: "tasks s t = Some d" "JudgeKTaskStatIsRunning d"
    and lock: "GetOsAssignLockLevel s = 0"
    and m: "k_mutex_id_manager s i = Some m" "holder m = Some t" "recursive_cnt m = 1"
    and p: "unat (mutex_origin_prio m) < KTASK_PRIORITY_MAX (cfg s)"
    and us: "lists s (MutexPend i) = u # us" and u: "tasks s u = Some e"
  obtains mid s' where "MutexAbandon i s = Some (EOK, s')"
    "wakes u (set_mutex i \<lparr>mutex_val = mutex_val m, recursive_cnt = 1, mutex_origin_prio = cur_prio e, holder = Some u\<rparr>
       (restore_state t d (mutex_origin_prio m) s)) mid"
    "assigned mid s'" "JudgeKTaskStatIsSuspend e" "u \<noteq> t"
proof -
  let ?v = "set_mutex i \<lparr>mutex_val = mutex_val m, recursive_cnt = 1, mutex_origin_prio = cur_prio e, holder = Some u\<rparr>
       (restore_state t d (mutex_origin_prio m) s)"
  have su: "JudgeKTaskStatIsSuspend e" using pend_member[OF inv, of "MutexPend i" u] us u by auto
  then have ut: "u \<noteq> t" using t u by (auto simp: Judge_StatGet)
  have o: "os_inv (CriticalAreaLock ?v)" "lists (CriticalAreaLock ?v) (MutexPend i) = u # us"
    using restore_os(2)[OF inv t p] us by simp_all
  obtain s1 where s1: "LinklistResume (MutexPend i) (CriticalAreaLock ?v) = Some (EOK, s1)" "wakes u (CriticalAreaLock ?v) s1"
    using LinklistResume_os[OF o(1) _ o(2)] by auto
  let ?m = "CriticalAreaUnLock s1"
  have w: "wakes u ?v ?m" by (rule wakes_lock[OF s1(2)])
  have "os_running_task ?m = Some t" using wakesD(3)[OF w] r by simp
  moreover have "GetOsAssignLockLevel ?m = GetOsAssignLockLevel ?v" using wakesD(5)[OF w] by (simp only: GetOsAssignLockLevel_def)
  then have "GetOsAssignLockLevel ?m = 0" using lock by simp
  ultimately obtain s' where a: "assigned ?m s'" by (rule assignedI[OF wakesD(1)[OF w]])
  have "MutexAbandon i s = Some (EOK, s')"
    using MutexAbandon_last(2)[OF inv r t m p us] u ut s1(1) assignedD(1)[OF a] by (simp add: Let_def)
  then show thesis using that w a su ut by blast
qed

lemma inherit_mutex:
  assumes "mutex_ok s" and "tasks s h = Some e"
  shows "mutex_ok (inherit_state h e p s)"
  using mutex_ok_frame[OF assms(1) mutex_more(1)[of "inherit_state h e p s"]] assms(2) by (auto simp: inherit_state_def)

lemma restore_mutex:
  assumes "mutex_ok s" and "tasks s t = Some d"
  shows "mutex_ok (restore_state t d p s)"
  using mutex_ok_frame[OF assms(1) mutex_more(1)[of "restore_state t d p s"]] assms(2) by (auto simp: restore_state_def)

lemma blocks_mutex:
  assumes ok: "mutex_ok v" and m: "k_mutex_id_manager v i = Some m" "holder m = Some h"
    and b: "blocks (MutexPend i) flag mem ticks t v mid"
  shows "mutex_ok mid" "k_mutex_id_manager mid = k_mutex_id_manager v"
proof -
  have sr: "same_rest v mid" by (rule blocksD(2)[OF b])
  show k: "k_mutex_id_manager mid = k_mutex_id_manager v" using mutex_more(1)[of mid v] sr by (simp add: same_rest_def)
  have "lists mid (MutexPend j) = lists v (MutexPend j)" if "j \<noteq> i" for j
    using blocksD(4)[OF b, of "MutexPend j"] that by simp
  then have "lists mid (MutexPend j) = [] \<or> lists v (MutexPend j) \<noteq> [] \<or>
      (\<exists>m h. k_mutex_id_manager v j = Some m \<and> holder m = Some h)" for j
    using m by (cases "j = i") auto
  then show "mutex_ok mid"
    using mutex_ok_frame[OF ok k] sr blocksD(3)[OF b] by (auto simp: same_rest_def)
qed

lemma eok_set_mutex:
  assumes "mutex_inv s" and "tasks s t = Some d" and "holder m = Some t" and "mutex_val m = 0"
    and "unat (mutex_origin_prio m) < KTASK_PRIORITY_MAX (cfg s)"
  shows "mutex_inv (set_mutex i m (eok_status t d s))"
  using eok_status_mutex[OF assms(1,2)] mutex_ok_set[of "eok_status t d s" m i] assms(3-5)
  by (simp add: mutex_inv_def held_mutex_def)

lemma inherit_prio:
  assumes "tasks s h = Some e"
  shows "\<exists>e'. tasks (inherit_state h e p s) h = Some e' \<and>
    (strncmp_eq ''ktaskidle'' (task_name e) 9 \<or> cur_prio e' = max (cur_prio e) p)"
proof (cases "cur_prio e < p \<and> \<not> strncmp_eq ''ktaskidle'' (task_name e) 9")
  case True
  then show ?thesis by (auto simp: inherit_state_def max_def)
next
  case False
  then show ?thesis using assms by (auto simp: inherit_state_def max_def)
qed

lemma MutexObtain_wait:
  fixes s :: "'a mutexk_scheme"
  assumes inv: "mutex_inv s" and r: "os_running_task s = Some t" and t: "tasks s t = Some d" and run: "JudgeKTaskStatIsRunning d"
    and lock: "GetOsAssignLockLevel s = 0" and m: "k_mutex_id_manager s i = Some m"
    and h: "holder m = Some h" "h \<noteq> t" "tasks s h = Some e" and low: "cur_prio e < cur_prio d \<longrightarrow> JudgeKTaskStatIsSuspend e"
  obtains s' d' e' where "MutexObtain mem i msec s = Some (Wait, s')" "mutex_inv s'"
    "k_mutex_id_manager s' = k_mutex_id_manager s" "tasks s' t = Some d'" "JudgeKTaskStatIsSuspend d'"
    "t \<in> set (lists s' (MutexPend i))" "tasks s' h = Some e'"
    "strncmp_eq ''ktaskidle'' (task_name e) 9 \<or> cur_prio e' = max (cur_prio e) (cur_prio d)"
proof -
  let ?u = "eok_status t d s" let ?v = "inherit_state h e (cur_prio d) ?u"
  have v0: "mutex_val m = 0" using mutex_okD(3)[OF mutex_invD(2)[OF inv] m] h(1) by auto
  obtain mid s' where ob: "MutexObtain mem i msec s = Some (Wait, s')"
    and b: "blocks (MutexPend i) LINKLIST_FLAG_PRIO mem (CalculteTickFromTimeMs (TICK_PER_SECOND (cfg s)) msec) t ?v mid"
    and a: "assigned mid s'"
    by (rule MutexObtain_block[OF mutex_invD(1)[OF inv] r t run lock m v0 h low])
  have hu: "tasks ?u h = Some e" using h by simp
  have kv: "k_mutex_id_manager ?v = k_mutex_id_manager s" using mutex_more(1)[of ?v ?u] by simp
  have okv: "mutex_ok ?v" by (rule inherit_mutex[OF mutex_invD(2)[OF eok_status_mutex[OF inv t]] hu])
  have mv: "k_mutex_id_manager ?v i = Some m" using kv m by simp
  note bm = blocks_mutex[OF okv mv h(1) b] and am = assigned_mutex_inv[OF a blocks_mutex(1)[OF okv mv h(1) b]]
  have tv: "tasks ?v t = Some (d\<lparr>exstatus := EOK\<rparr>)" using h(2) by simp
  obtain d' where d': "tasks s' t = Some d'" "JudgeKTaskStatIsSuspend d'" "sched_link d' = Some (MutexPend i)"
    by (rule blocked_task[OF b a tv])
  then have tl: "t \<in> set (lists s' (MutexPend i))"
    using links_invD(2)[OF os_invD(6)[OF mutex_invD(1)[OF am(1)]]] by blast
  obtain e1 where e1: "tasks ?v h = Some e1"
    "strncmp_eq ''ktaskidle'' (task_name e) 9 \<or> cur_prio e1 = max (cur_prio e) (cur_prio d)"
    using inherit_prio[OF hu] by blast
  then have "tasks mid h = Some e1" using blocksD(3)[OF b] h(2) by auto
  then have "map_option nsched (tasks s' h) = Some (nsched e1)"
    using assignedD(4)[OF a] by (simp add: sched_step_def)
  then obtain e' where e': "tasks s' h = Some e'" "nsched e' = nsched e1" by auto
  have "cur_prio e' = cur_prio e1" using arg_cong[OF e'(2), of cur_prio] by (simp add: nsched_def)
  then show thesis using that[OF ob am(1) _ d'(1,2) tl e'(1)] am(2) bm(2) kv e1(2) by simp
qed

lemma restore_prio:
  assumes "tasks s t = Some d"
  shows "\<exists>d'. tasks (restore_state t d p s) t = Some d' \<and> (strncmp_eq ''ktaskidle'' (task_name d) 9 \<or> cur_prio d' = p)"
  using assms by (cases "p \<noteq> cur_prio d \<and> \<not> strncmp_eq ''ktaskidle'' (task_name d) 9") (auto simp: restore_state_def)

lemma restored_set:
  fixes m :: Mutex
  assumes "mutex_inv s" and "tasks s t = Some d" and "JudgeKTaskStatIsRunning d" and "unat (mutex_origin_prio m) < KTASK_PRIORITY_MAX (cfg s)"
    and "free_mutex m' \<and> lists s (MutexPend i) = [] \<or>
      mutex_val m' = 0 \<and> unat (mutex_origin_prio m') < KTASK_PRIORITY_MAX (cfg s) \<and> holder m' = Some u \<and> tasks s u \<noteq> None"
  shows "mutex_inv (set_mutex i m' (restore_state t d (mutex_origin_prio m) s))"
proof -
  let ?v = "restore_state t d (mutex_origin_prio m) s"
  have "tasks ?v u \<noteq> None" if "tasks s u \<noteq> None" using that restore_prio[OF assms(2)] by (cases "u = t") auto
  then have "mutex_ok (set_mutex i m' ?v)"
    using mutex_ok_set[OF restore_mutex[OF mutex_invD(2)[OF assms(1)] assms(2)], where m = m' and i = i] assms(5) by (auto simp: held_mutex_def)
  then show ?thesis using restore_os(2)[OF mutex_invD(1)[OF assms(1)] assms(2-4)] by (simp add: mutex_inv_def)
qed

lemma wakes_mutex:
  assumes "mutex_ok s" and "wakes u s mid"
  shows "mutex_ok mid" "k_mutex_id_manager mid = k_mutex_id_manager s"
proof -
  show k: "k_mutex_id_manager mid = k_mutex_id_manager s" by (rule mutex_more(1)[OF wakesD(4)[OF assms(2)]])
  have "lists mid (MutexPend j) = [] \<or> lists s (MutexPend j) \<noteq> []" for j
    using wakesD(13)[OF assms(2), of "MutexPend j"] by auto
  moreover have "tasks s x \<noteq> None \<longrightarrow> tasks mid x \<noteq> None" for x using wakesD(12)[OF assms(2)] by auto
  ultimately show "mutex_ok mid" using mutex_ok_frame[OF assms(1) k wakesD(2)[OF assms(2)]] by blast
qed

text \<open>The last release when a task waits.\<close>

lemma MutexAbandon_pass:
  fixes s :: "'a mutexk_scheme"
  assumes inv: "mutex_inv s" and r: "os_running_task s = Some t" and t: "tasks s t = Some d" "JudgeKTaskStatIsRunning d"
    and lock: "GetOsAssignLockLevel s = 0"
    and m: "k_mutex_id_manager s i = Some m" "holder m = Some t" "recursive_cnt m = 1" and us: "lists s (MutexPend i) = u # us"
  obtains s' d' e e' where "MutexAbandon i s = Some (EOK, s')" "mutex_inv s'" "tasks s' t = Some d'"
    "strncmp_eq ''ktaskidle'' (task_name d) 9 \<or> cur_prio d' = mutex_origin_prio m" "lists s' (MutexPend i) = us"
    "tasks s u = Some e" "tasks s' u = Some e'" "JudgeKTaskStatIsReady e' \<or> JudgeKTaskStatIsRunning e'" "exstatus e' = exstatus e"
    "k_mutex_id_manager s' = (k_mutex_id_manager s)
       (i \<mapsto> \<lparr>mutex_val = 0, recursive_cnt = 1, mutex_origin_prio = cur_prio e, holder = Some u\<rparr>)"
proof -
  have h: "mutex_val m = 0" "unat (mutex_origin_prio m) < KTASK_PRIORITY_MAX (cfg s)"
    using mutex_okD(1)[OF mutex_invD(2)[OF inv] m(1,2)] by (simp_all add: held_mutex_def)
  note o = mutex_invD(1)[OF inv]
  obtain e where e: "tasks s u = Some e" using pend_member[OF o, of "MutexPend i" u] us by auto
  let ?m = "\<lparr>mutex_val = mutex_val m, recursive_cnt = 1, mutex_origin_prio = cur_prio e, holder = Some u\<rparr>"
  let ?v = "set_mutex i ?m (restore_state t d (mutex_origin_prio m) s)"
  obtain mid s' where ab: "MutexAbandon i s = Some (EOK, s')" and w: "wakes u ?v mid" and a: "assigned mid s'"
    and su: "JudgeKTaskStatIsSuspend e" "u \<noteq> t"
    by (rule MutexAbandon_hand[OF o r t lock m h(2) us e])
  have vi: "mutex_inv ?v"
    by (rule restored_set[OF inv t h(2), where u = u]) (use h e running_prio[OF o e] in simp)
  note wm = wakes_mutex[OF mutex_invD(2)[OF vi] w]
  note am = assigned_mutex_inv[OF a wm(1)]
  have nin: "u \<notin> set us" using links_invD(1)[OF os_invD(6)[OF o], of "MutexPend i"] us by simp
  have ls: "lists s' (MutexPend i) = us"
    using assigned_lists[OF a, of "MutexPend i"] wakesD(13)[OF w, of "MutexPend i"] us nin by simp
  have ts: "tasks mid = (tasks ?v)(u \<mapsto> ready_desc (undelay e))" using wakesD(12)[OF w] su(2) e by auto
  obtain e' where e': "tasks s' u = Some e'" "nsched e' = nsched (ready_desc (undelay e))" "JudgeKTaskStatIsReady e' \<or> JudgeKTaskStatIsRunning e'"
    using assignedD(5)[OF a, of u "ready_desc (undelay e)"] ts by (auto simp: Judge_StatGet)
  have ex: "exstatus e' = exstatus e" using nsched_eqD(4)[OF e'(2)] by simp
  obtain d1 where d1: "tasks mid t = Some d1" "strncmp_eq ''ktaskidle'' (task_name d) 9 \<or> cur_prio d1 = mutex_origin_prio m"
    using restore_prio[OF t(1), of "mutex_origin_prio m"] ts su(2) by auto
  have "map_option nsched (tasks s' t) = Some (nsched d1)" using assignedD(4)[OF a] d1(1) by (simp add: sched_step_def)
  then obtain d' where d': "tasks s' t = Some d'" "nsched d' = nsched d1" by auto
  have "cur_prio d' = cur_prio d1" using arg_cong[OF d'(2), of cur_prio] by (simp add: nsched_def)
  then show thesis using that[OF ab am(1) d'(1) _ ls e e'(1,3) ex] d1(2) am(2) wm(2) h(1) by simp
qed

subsection \<open>Histories\<close>

text \<open>
  A history of one mutex, seen by the tasks: \<open>held t\<close> counts the obtains of the task \<open>t\<close> that it has not yet
  released. A task that waits is granted the mutex when it is the first of the pend list at the last release of
  another task. \<open>other\<close> is any step that leaves the mutexes alone. Obtains are nested at most 255 deep.
\<close>

inductive mutex_run :: "nat \<Rightarrow> 'a mutexk_scheme \<Rightarrow> (tid \<Rightarrow> nat) \<Rightarrow> 'a mutexk_scheme \<Rightarrow> bool" for i s where
  start: "mutex_run i s (\<lambda>_. 0) s"
| take: "mutex_run i s held u \<Longrightarrow> os_running_task u = Some t \<Longrightarrow> held t < 255 \<Longrightarrow>
    MutexObtain mem i msec u = Some (Ret EOK, u') \<Longrightarrow> mutex_run i s (held(t := Suc (held t))) u'"
| wait: "mutex_run i s held u \<Longrightarrow> MutexObtain mem i msec u = Some (Wait, u') \<Longrightarrow> mutex_run i s held u'"
| give: "mutex_run i s held u \<Longrightarrow> os_inv u \<Longrightarrow> os_running_task u = Some t \<Longrightarrow> tasks u t = Some d \<Longrightarrow>
    JudgeKTaskStatIsRunning d \<Longrightarrow> MutexAbandon i u = Some (EOK, u') \<Longrightarrow> held' = held(t := held t - 1) \<Longrightarrow>
    mutex_run i s (case lists u (MutexPend i) of
        v # _ \<Rightarrow> if held t = 1 then held'(v := Suc (held' v)) else held'
      | [] \<Rightarrow> held') u'"
| other: "mutex_run i s held u \<Longrightarrow> k_mutex_id_manager u' = k_mutex_id_manager u \<Longrightarrow> mutex_run i s held u'"

text \<open>The counter of the mutex is the count of its holder, and no other task counts.\<close>

definition held_by :: "(tid \<Rightarrow> nat) \<Rightarrow> Mutex \<Rightarrow> bool" where
  "held_by held m \<longleftrightarrow> (case holder m of
      None \<Rightarrow> mutex_val m = 1 \<and> recursive_cnt m = 0 \<and> held = (\<lambda>_. 0)
    | Some h \<Rightarrow> mutex_val m = 0 \<and> 0 < held h \<and> held h \<le> 255 \<and> unat (recursive_cnt m) = held h \<and>
        (\<forall>t. t \<noteq> h \<longrightarrow> held t = 0))"

lemma BitmapSiteMask_frame: "BitmapSiteMask t s = Some s' \<Longrightarrow> kernel.more s' = kernel.more s \<and> lists s' = lists s"
  by (auto simp: BitmapSiteMask_def upd_task_def Let_def bind_eq_Some_conv split: option.splits if_splits)

lemma KTaskPrioSet_more: "KTaskPrioSet i p s = Some (x, s') \<Longrightarrow> kernel.more s' = kernel.more s"
  by (auto simp: KTaskPrioSet_def do_KTaskPrioSet_def bind_eq_Some_conv Let_def split: if_splits
      dest!: step_more upd_task_more BitmapSiteMask_frame)

lemma restore_frame:
  assumes "MutexAbandon_restore m d s = Some s'" and "os_inv s" and "tasks s t = Some d" and "JudgeKTaskStatIsRunning d"
  shows "kernel.more s' = kernel.more s" "lists s' = lists s"
proof -
  show "kernel.more s' = kernel.more s"
    using assms(1) by (auto simp: MutexAbandon_restore_def bind_eq_Some_conv split: if_splits dest!: KTaskPrioSet_more)
  have "lists s'' = lists s" if "KTaskPrioSet (int (task_id d)) p s = Some (x, s'')" for p x s''
    using that ids_inv_get[OF os_invD(4)[OF assms(2)] assms(3)] assms(3,4)
    by (auto simp: KTaskPrioSet_def do_KTaskPrioSet_def Judge_StatGet bind_eq_Some_conv Let_def upd_task_def
        split: if_splits dest!: BitmapSiteMask_frame)
  then show "lists s' = lists s" using assms(1) by (auto simp: MutexAbandon_restore_def bind_eq_Some_conv split: if_splits)
qed

lemma MutexObtain_cases:
  assumes "MutexObtain mem i msec u = Some (res, u')" and "os_running_task u = Some t"
  obtains (again) m where "k_mutex_id_manager u i = Some m" "res = Ret EOK" "holder m = Some t"
      "k_mutex_id_manager u' = (k_mutex_id_manager u)(i \<mapsto> m\<lparr>recursive_cnt := recursive_cnt m + 1\<rparr>)"
  | (take) m p where "k_mutex_id_manager u i = Some m" "res = Ret EOK" "holder m \<noteq> Some t" "mutex_val m \<noteq> 0"
      "k_mutex_id_manager u' = (k_mutex_id_manager u)(i \<mapsto> m\<lparr>mutex_val := mutex_val m - 1, holder := Some t,
         mutex_origin_prio := p, recursive_cnt := recursive_cnt m + 1\<rparr>)"
  | (other) m where "k_mutex_id_manager u i = Some m" "res \<noteq> Ret EOK" "k_mutex_id_manager u' = k_mutex_id_manager u"
proof -
  obtain m d where m: "k_mutex_id_manager u i = Some m" and d: "tasks u t = Some d"
    using assms by (auto simp: MutexObtain_def Let_def bind_eq_Some_conv GetKTaskDescriptor_def upd_task_def split: option.splits)
  consider "holder m = Some t" | "holder m \<noteq> Some t" "mutex_val m \<noteq> 0" | "holder m \<noteq> Some t" "mutex_val m = 0" by blast
  then show thesis
  proof cases
    case 1
    then show thesis using again[OF m] MutexObtain_again[OF assms(2) d m, of mem msec] assms(1) by auto
  next
    case 2
    then show thesis using take[OF m _ 2(1), of "cur_prio d"] assms d m
      by (auto simp: MutexObtain_def Let_def upd_task_def GetKTaskDescriptor_def word_neq_0_conv)
  next
    case 3
    then have "res \<noteq> Ret EOK \<and> kernel.more u' = kernel.more u"
      using assms m d
      by (auto simp: MutexObtain_def MutexObtain_inherit_def Let_def bind_eq_Some_conv err_defs GetKTaskDescriptor_def split: if_splits
          dest!: upd_task_more LinklistSuspend_more KTaskSetDelay_more KTaskPrioSet_more step_more)
    then show thesis using other[OF m] mutex_more(1) by blast
  qed
qed

lemma MutexAbandon_cases:
  fixes u :: "'a mutexk_scheme"
  assumes ab: "MutexAbandon i u = Some (EOK, u')" and inv: "os_inv u" and r: "os_running_task u = Some t"
    and t: "tasks u t = Some d" "JudgeKTaskStatIsRunning d"
  obtains (nested) m where "k_mutex_id_manager u i = Some m" "holder m = Some t" "recursive_cnt m \<noteq> 1"
      "k_mutex_id_manager u' = (k_mutex_id_manager u)(i \<mapsto> m\<lparr>recursive_cnt := recursive_cnt m - 1\<rparr>)"
  | (free) m p where "k_mutex_id_manager u i = Some m" "holder m = Some t" "recursive_cnt m = 1" "lists u (MutexPend i) = []"
      "k_mutex_id_manager u' = (k_mutex_id_manager u)(i \<mapsto>
         \<lparr>mutex_val = mutex_val m + 1, recursive_cnt = 0, mutex_origin_prio = p, holder = None\<rparr>)"
  | (pass) m p v vs where "k_mutex_id_manager u i = Some m" "holder m = Some t" "recursive_cnt m = 1" "lists u (MutexPend i) = v # vs"
      "k_mutex_id_manager u' = (k_mutex_id_manager u)(i \<mapsto>
         \<lparr>mutex_val = mutex_val m, recursive_cnt = 1, mutex_origin_prio = p, holder = Some v\<rparr>)"
proof -
  obtain m where m: "k_mutex_id_manager u i = Some m" and h: "holder m = Some t"
    using ab r t(1) by (auto simp: MutexAbandon_def Let_def bind_eq_Some_conv GetKTaskDescriptor_def upd_task_def err_defs split: if_splits)
  show thesis
  proof (cases "recursive_cnt m = 1")
    case False
    then show thesis using nested[OF m h] MutexAbandon_nested[OF r m h] ab by auto
  next
    case True
    let ?m = "m\<lparr>recursive_cnt := 0\<rparr>" let ?u = "CriticalAreaLock (set_mutex i ?m u)"
    have o: "os_inv ?u" "tasks ?u t = Some d" using inv t by simp_all
    obtain v where v: "MutexAbandon_restore ?m d ?u = Some v"
      and rest: "(case lists v (MutexPend i) of
         t # _ \<Rightarrow> do {
           e \<leftarrow> tasks v t;
           let s = set_mutex i (?m\<lparr>holder := Some t, mutex_origin_prio := cur_prio e, recursive_cnt := 1\<rparr>) v;
           (_, s) \<leftarrow> LinklistResume (MutexPend i) s;
           let s = CriticalAreaUnLock s;
           s \<leftarrow> DO_KTASK_ASSIGN s;
           Some (EOK, s) }
       | [] \<Rightarrow> Some (EOK, CriticalAreaUnLock (set_mutex i (?m\<lparr>mutex_val := mutex_val m + 1, holder := None,
           mutex_origin_prio := 0xff\<rparr>) v))) = Some (EOK, u')"
      using ab m h r t True by (auto simp: MutexAbandon_def Let_def bind_eq_Some_conv GetKTaskDescriptor_def cong: list.case_cong)
    note f = restore_frame[OF v o t(2)]
    have k: "k_mutex_id_manager v = (k_mutex_id_manager u)(i \<mapsto> ?m)" using mutex_more(1)[OF f(1)] by simp
    show thesis
    proof (cases "lists u (MutexPend i)")
      case Nil
      then show thesis using free[OF m h True Nil] rest f(2) k by (cases m) auto
    next
      case (Cons w ws)
      then have "lists v (MutexPend i) = w # ws" using f(2) by simp
      then obtain e s1 where "tasks v w = Some e" and more: "kernel.more u' = kernel.more s1"
        and s1: "s1 = set_mutex i (?m\<lparr>holder := Some w, mutex_origin_prio := cur_prio e, recursive_cnt := 1\<rparr>) v"
        using rest by (auto simp: bind_eq_Some_conv Let_def dest!: LinklistResume_more step_more)
      then show thesis using pass[OF m h True Cons] mutex_more(1)[OF more] k by (cases m) auto
    qed
  qed
qed

lemma unat_inc8: "unat (c :: uint8) < 255 \<Longrightarrow> unat (c + 1) = Suc (unat c)"
  by (simp add: unat_word_ariths)

lemma unat_dec8: "(c :: uint8) \<noteq> 0 \<Longrightarrow> unat (c - 1) = unat c - 1"
  by (simp add: unat_minus_one)

lemma held_by_give:
  assumes h: "held_by held m" "holder m = Some t"
  shows "recursive_cnt m = 1 \<longleftrightarrow> held t = 1"
    and "recursive_cnt m \<noteq> 1 \<Longrightarrow> held_by (held(t := held t - 1)) (m\<lparr>recursive_cnt := recursive_cnt m - 1\<rparr>)"
proof -
  have c: "mutex_val m = 0" "0 < held t" "held t \<le> 255" "unat (recursive_cnt m) = held t" "\<forall>u. u \<noteq> t \<longrightarrow> held u = 0"
    using h by (simp_all add: held_by_def)
  show one: "recursive_cnt m = 1 \<longleftrightarrow> held t = 1"
  proof
    assume "recursive_cnt m = 1"
    then show "held t = 1" using c(4) by simp
  next
    assume "held t = 1"
    then have "unat (recursive_cnt m) = unat (1 :: uint8)" using c(4) by simp
    then show "recursive_cnt m = 1" by (simp only: word_unat_eq_iff)
  qed
  have "recursive_cnt m \<noteq> 0" using c(2,4) by auto
  then have "unat (recursive_cnt m - 1) = held t - 1" using unat_dec8 c(4) by simp
  then show "recursive_cnt m \<noteq> 1 \<Longrightarrow> held_by (held(t := held t - 1)) (m\<lparr>recursive_cnt := recursive_cnt m - 1\<rparr>)"
    using one c h(2) by (auto simp: held_by_def)
qed

lemma mutex_run_held:
  assumes "mutex_run i s held u" and "k_mutex_id_manager s i = Some m0" and "free_mutex m0"
  shows "\<exists>m. k_mutex_id_manager u i = Some m \<and> held_by held m"
  using assms
proof induction
  case start
  then show ?case by (auto simp: held_by_def free_mutex_def)
next
  case (take held u t mem msec u')
  then obtain m where m: "k_mutex_id_manager u i = Some m" "held_by held m" by blast
  from take.hyps(4,2) show ?case
  proof (cases rule: MutexObtain_cases)
    case (again n)
    then have n: "n = m" using m by simp
    then have "held_by (held(t := Suc (held t))) (m\<lparr>recursive_cnt := recursive_cnt m + 1\<rparr>)"
      using again(3) m(2) take.hyps(3) unat_inc8[of "recursive_cnt m"] by (auto simp: held_by_def)
    moreover have "k_mutex_id_manager u' i = Some (m\<lparr>recursive_cnt := recursive_cnt m + 1\<rparr>)" using again(4) n by simp
    ultimately show ?thesis by blast
  next
    case (take n p)
    then have n: "n = m" "holder m = None" using m by (auto simp: held_by_def split: option.splits)
    then have "held_by (held(t := Suc (held t))) (m\<lparr>mutex_val := mutex_val m - 1, holder := Some t,
         mutex_origin_prio := p, recursive_cnt := recursive_cnt m + 1\<rparr>)"
      using m(2) by (auto simp: held_by_def)
    moreover have "k_mutex_id_manager u' i = Some (m\<lparr>mutex_val := mutex_val m - 1, holder := Some t,
         mutex_origin_prio := p, recursive_cnt := recursive_cnt m + 1\<rparr>)" using take(5) n by simp
    ultimately show ?thesis by blast
  next
    case (other n)
    then show ?thesis by simp
  qed
next
  case (wait held u mem msec u')
  then obtain m where m: "k_mutex_id_manager u i = Some m" "held_by held m" by blast
  obtain t where "os_running_task u = Some t"
    using wait.hyps(2) by (auto simp: MutexObtain_def GetKTaskDescriptor_def bind_eq_Some_conv)
  from wait.hyps(2) this show ?case by (cases rule: MutexObtain_cases) (use m in auto)
next
  case (give held u t d u' held')
  then obtain m where m: "k_mutex_id_manager u i = Some m" "held_by held m" by blast
  from give.hyps(6,2-5) show ?case
  proof (cases rule: MutexAbandon_cases)
    case (nested n)
    then have n: "n = m" "holder m = Some t" "recursive_cnt m \<noteq> 1" using m by auto
    then show ?thesis using held_by_give[OF m(2) n(2)] nested(4) give.hyps(7) by (auto split: list.splits)
  next
    case (free n p)
    then have n: "n = m" "holder m = Some t" using m by auto
    then have "held t = 1" using held_by_give(1)[OF m(2)] free(3) by simp
    then have "held' = (\<lambda>_. 0)" using m(2) n(2) give.hyps(7) by (auto simp: held_by_def fun_eq_iff)
    then show ?thesis using free n m(2) by (auto simp: held_by_def)
  next
    case (pass n p v vs)
    then have n: "n = m" "holder m = Some t" using m by auto
    then have one: "held t = 1" using held_by_give(1)[OF m(2)] pass(3) by simp
    then have "held' = (\<lambda>_. 0)" using m(2) n(2) give.hyps(7) by (auto simp: held_by_def fun_eq_iff)
    then show ?thesis using pass n m(2) one by (auto simp: held_by_def)
  qed
next
  case (other held u u')
  then show ?case by simp
qed

subsection \<open>Properties\<close>

definition demo_mutex :: "Mutex \<Rightarrow> mutexk" where
  "demo_mutex m = demo_kernel \<lparr>k_sem_id_manager = Map.empty, k_sem_list = [],
     k_mutex_id_manager = [0 \<mapsto> m], k_mutex_list = [0]\<rparr>"

lemma demo_mutex_simps:
  "k_mutex_id_manager (demo_mutex m) = [0 \<mapsto> m]" "os_running_task (demo_mutex m) = Some 10"
  "tasks (demo_mutex m) 10 = Some (demo_task 0 KTASK_RUNNING None 0)" "GetOsAssignLockLevel (demo_mutex m) = 0"
  "lists (demo_mutex m) (MutexPend i) = []" "tasks (demo_mutex m) 20 = Some (demo_task 5 KTASK_READY (Some (ReadyVector 5)) 3)"
  "KTASK_PRIORITY_MAX (cfg (demo_mutex m)) = 32"
  by (simp_all add: demo_mutex_def demo_simps) (simp_all add: demo_kernel_def)

lemma demo_mutex_inv:
  assumes "free_mutex m \<or> mutex_val m = 0 \<and> unat (mutex_origin_prio m) < 32 \<and> (holder m = Some 10 \<or> holder m = Some 20)"
  shows "mutex_inv (demo_mutex m)"
proof -
  have "os_inv (demo_mutex m)" unfolding demo_mutex_def by (rule demo_os_inv)
  moreover have "held_mutex (demo_mutex m) m \<or> free_mutex m"
    using assms by (auto simp: held_mutex_def demo_mutex_simps)
  ultimately show ?thesis by (auto simp: mutex_inv_def mutex_ok_def demo_mutex_simps)
qed



text \<open>C14: Releasing a mutex keeps the invariant. Only the holder may release it. While obtains are nested the
  counter goes down; the last release gives the caller back its priority and passes the mutex to the first waiting
  task, which becomes ready, or frees the mutex when no task waits.\<close>

theorem KMutexAbandon_correct:
  fixes s :: "'a mutexk_scheme"
  assumes "mutex_inv s" and "os_running_task s = Some t" and "tasks s t = Some d" and "JudgeKTaskStatIsRunning d"
    and "GetOsAssignLockLevel s = 0" and "i < 65536"
  shows "case k_mutex_id_manager s i of
      None \<Rightarrow> KMutexAbandon (int i) s = Some (- ERROR, s)
    | Some m \<Rightarrow>
      if holder m \<noteq> Some t
      then KMutexAbandon (int i) s = Some (- ERROR, s\<lparr>tasks := (tasks s)(t \<mapsto> d\<lparr>exstatus := - ERROR\<rparr>)\<rparr>)
      else \<exists>s'. KMutexAbandon (int i) s = Some (EOK, s') \<and> mutex_inv s' \<and>
        (if recursive_cnt m \<noteq> 1
         then tasks s' = tasks s \<and> k_mutex_id_manager s' = (k_mutex_id_manager s)(i \<mapsto> m\<lparr>recursive_cnt := recursive_cnt m - 1\<rparr>)
         else (\<exists>d'. tasks s' t = Some d' \<and> (strncmp_eq ''ktaskidle'' (task_name d) 9 \<or> cur_prio d' = mutex_origin_prio m)) \<and>
           (case lists s (MutexPend i) of
              [] \<Rightarrow> k_mutex_id_manager s' = (k_mutex_id_manager s)
                (i \<mapsto> \<lparr>mutex_val = 1, recursive_cnt = 0, mutex_origin_prio = 0xff, holder = None\<rparr>)
            | u # us \<Rightarrow> lists s' (MutexPend i) = us \<and> (\<exists>e e'. tasks s u = Some e \<and> tasks s' u = Some e' \<and>
                (JudgeKTaskStatIsReady e' \<or> JudgeKTaskStatIsRunning e') \<and> exstatus e' = exstatus e \<and>
                k_mutex_id_manager s' = (k_mutex_id_manager s)
                  (i \<mapsto> \<lparr>mutex_val = 0, recursive_cnt = 1, mutex_origin_prio = cur_prio e, holder = Some u\<rparr>))))"
proof (cases "k_mutex_id_manager s i")
  case None
  then show ?thesis using assms(6) by (simp add: KMutexAbandon_def id_get_def)
next
  case (Some m)
  have eq: "KMutexAbandon (int i) s = MutexAbandon i s" using Some assms(6) by (simp add: KMutexAbandon_def id_get_def)
  show ?thesis
  proof (cases "holder m = Some t")
    case False
    then show ?thesis using Some eq MutexAbandon_refused[OF assms(2,3) Some False] by simp
  next
    case h: True
    have hm: "mutex_val m = 0" "unat (mutex_origin_prio m) < KTASK_PRIORITY_MAX (cfg s)" "tasks s t \<noteq> None"
      using mutex_okD(1)[OF mutex_invD(2)[OF assms(1)] Some h] h by (simp_all add: held_mutex_def)
    show ?thesis
    proof (cases "recursive_cnt m = 1")
      case False
      have "mutex_ok (set_mutex i (m\<lparr>recursive_cnt := recursive_cnt m - 1\<rparr>) s)"
        by (rule mutex_ok_set[OF mutex_invD(2)[OF assms(1)]]) (use hm h in \<open>simp add: held_mutex_def\<close>)
      then show ?thesis using Some h False eq MutexAbandon_nested[OF assms(2) Some h False] mutex_invD(1)[OF assms(1)]
        by (simp add: mutex_inv_def)
    next
      case True
      note o = mutex_invD(1)[OF assms(1)]
      show ?thesis
      proof (cases "lists s (MutexPend i)")
        case Nil
        let ?f = "\<lparr>mutex_val = 1, recursive_cnt = 0, mutex_origin_prio = 0xff, holder = None\<rparr>"
        have "mutex_inv (set_mutex i ?f (restore_state t d (mutex_origin_prio m) s))"
          by (rule restored_set[OF assms(1,3,4) hm(2)]) (use Nil in \<open>simp add: free_mutex_def\<close>)
        then show ?thesis using Some h True Nil eq hm(1) MutexAbandon_last(1)[OF o assms(2-4) Some h True hm(2) Nil]
            restore_prio[OF assms(3), of "mutex_origin_prio m"] by simp
      next
        case (Cons u us)
        obtain s' d' e e' where "MutexAbandon i s = Some (EOK, s')" "mutex_inv s'" "tasks s' t = Some d'"
          "strncmp_eq ''ktaskidle'' (task_name d) 9 \<or> cur_prio d' = mutex_origin_prio m" "lists s' (MutexPend i) = us"
          "tasks s u = Some e" "tasks s' u = Some e'" "JudgeKTaskStatIsReady e' \<or> JudgeKTaskStatIsRunning e'" "exstatus e' = exstatus e"
          "k_mutex_id_manager s' = (k_mutex_id_manager s)
             (i \<mapsto> \<lparr>mutex_val = 0, recursive_cnt = 1, mutex_origin_prio = cur_prio e, holder = Some u\<rparr>)"
          by (rule MutexAbandon_pass[OF assms(1-5) Some h True Cons])
        then show ?thesis using Some h True Cons eq by auto
      qed
    qed
  qed
qed

theorem KMutexAbandon_correct_witness:
  "\<exists>s'. KMutexAbandon 0 (demo_mutex \<lparr>mutex_val = 0, recursive_cnt = 1, mutex_origin_prio = 7, holder = Some 10\<rparr>) = Some (EOK, s') \<and>
     mutex_inv s' \<and> k_mutex_id_manager s' 0 = Some \<lparr>mutex_val = 1, recursive_cnt = 0, mutex_origin_prio = 0xff, holder = None\<rparr>"
proof -
  let ?m = "\<lparr>mutex_val = 0, recursive_cnt = 1, mutex_origin_prio = 7, holder = Some 10\<rparr>"
  have i: "mutex_inv (demo_mutex ?m)" by (rule demo_mutex_inv) simp
  show ?thesis using KMutexAbandon_correct[OF i demo_mutex_simps(2,3) demo_run demo_mutex_simps(4), of 0]
    by (auto simp: demo_mutex_simps)
qed

text \<open>C2: Mutual exclusion: in every history of a mutex that starts with the mutex free and nests obtains
  at most 255 deep, at most one task holds the mutex at a time, and it is the holder the mutex records.\<close>

theorem mutex_exclusion:
  assumes "mutex_run i s held u" and "k_mutex_id_manager s i = Some m0" and "free_mutex m0"
    and "0 < held a"
  shows "(0 < held b \<longrightarrow> b = a) \<and> (\<exists>m. k_mutex_id_manager u i = Some m \<and> holder m = Some a \<and> unat (recursive_cnt m) = held a)"
proof -
  obtain m where m: "k_mutex_id_manager u i = Some m" "held_by held m" using mutex_run_held[OF assms(1-3)] by blast
  have "holder m = Some a"
  proof (cases "holder m")
    case None
    then show ?thesis using m(2) assms(4) by (simp add: held_by_def)
  next
    case (Some h)
    then show ?thesis using m(2) assms(4) by (cases "a = h") (auto simp: held_by_def)
  qed
  then show ?thesis using m by (auto simp: held_by_def)
qed

theorem mutex_exclusion_witness:
  "\<exists>u. mutex_run 0 (demo_mutex \<lparr>mutex_val = 1, recursive_cnt = 0, mutex_origin_prio = 0xFF, holder = None\<rparr>)
     ((\<lambda>_. 0)(10 := 1)) u \<and> (\<exists>m. k_mutex_id_manager u 0 = Some m \<and> holder m = Some 10)"
proof -
  let ?m = "\<lparr>mutex_val = 1, recursive_cnt = 0, mutex_origin_prio = 0xFF, holder = None\<rparr>"
  have k: "k_mutex_id_manager (demo_mutex ?m) 0 = Some ?m" "free_mutex ?m" by (simp_all add: demo_mutex_simps free_mutex_def)
  obtain u where u: "MutexObtain True 0 100 (demo_mutex ?m) = Some (Ret EOK, u)"
    using MutexObtain_take[OF demo_mutex_simps(2,3) k(1), of True 100] by simp
  have run: "mutex_run 0 (demo_mutex ?m) ((\<lambda>_. 0)(10 := 1)) u"
    using mutex_run.take[OF mutex_run.start demo_mutex_simps(2) _ u] by simp
  then show ?thesis using mutex_exclusion[OF run k, of 10 10] by auto
qed

text \<open>C39: The counter of nested obtains wraps: a task that obtains a mutex twice more when the counter is at its
  maximum of 255 then frees the mutex with a single release, while 256 of its obtains are not released.\<close>

theorem mutex_recursion_wraps:
  fixes s :: "'a mutexk_scheme"
  assumes "mutex_inv s" and "os_running_task s = Some t" and "tasks s t = Some d" and "JudgeKTaskStatIsRunning d"
    and "k_mutex_id_manager s i = Some m" and "holder m = Some t" and "recursive_cnt m = 255" and "lists s (MutexPend i) = []"
  shows "\<exists>s1 s2 s3. MutexObtain mem i msec s = Some (Ret EOK, s1) \<and> MutexObtain mem i msec s1 = Some (Ret EOK, s2) \<and>
    MutexAbandon i s2 = Some (EOK, s3) \<and> (\<exists>m'. k_mutex_id_manager s3 i = Some m' \<and> free_mutex m')"
proof -
  have hm: "mutex_val m = 0" "unat (mutex_origin_prio m) < KTASK_PRIORITY_MAX (cfg s)"
    using mutex_okD(1)[OF mutex_invD(2)[OF assms(1)] assms(5,6)] by (simp_all add: held_mutex_def)
  have z: "recursive_cnt m + 1 = 0" using assms(7) by simp
  let ?d = "d\<lparr>exstatus := EOK\<rparr>" and ?m1 = "m\<lparr>recursive_cnt := 0\<rparr>" and ?m2 = "m\<lparr>recursive_cnt := 1\<rparr>"
  let ?s1 = "set_mutex i ?m1 (eok_status t d s)"
  let ?s2 = "set_mutex i ?m2 (eok_status t ?d ?s1)"
  have s1: "MutexObtain mem i msec s = Some (Ret EOK, ?s1)"
    using MutexObtain_again[OF assms(2,3,5,6), of mem msec] z by (simp only:)
  have s2: "MutexObtain mem i msec ?s1 = Some (Ret EOK, ?s2)"
    using MutexObtain_again[of ?s1 t ?d i ?m1 mem msec] assms(2,6) by simp
  have i1: "mutex_inv ?s1" by (rule eok_set_mutex[OF assms(1,3)]) (use hm assms(6) in simp_all)
  have "mutex_inv ?s2" by (rule eok_set_mutex[OF i1]) (use hm assms(6) in simp_all)
  then have "os_inv ?s2" by (rule mutex_invD(1))
  moreover have "os_running_task ?s2 = Some t" "tasks ?s2 t = Some ?d" "JudgeKTaskStatIsRunning ?d"
    "k_mutex_id_manager ?s2 i = Some ?m2" "holder ?m2 = Some t" "recursive_cnt ?m2 = 1"
    "unat (mutex_origin_prio ?m2) < KTASK_PRIORITY_MAX (cfg ?s2)" "lists ?s2 (MutexPend i) = []"
    using assms hm by (simp_all add: Judge_StatGet)
  note MutexAbandon_last(1)[OF calculation this]
  then show ?thesis using s1 s2 hm(1) by (auto simp: free_mutex_def)
qed

theorem mutex_recursion_wraps_witness:
  "\<exists>s1 s2 s3. MutexObtain True 0 100 (demo_mutex \<lparr>mutex_val = 0, recursive_cnt = 255, mutex_origin_prio = 7, holder = Some 10\<rparr>)
      = Some (Ret EOK, s1) \<and> MutexObtain True 0 100 s1 = Some (Ret EOK, s2) \<and> MutexAbandon 0 s2 = Some (EOK, s3) \<and>
    (\<exists>m. k_mutex_id_manager s3 0 = Some m \<and> free_mutex m)"
proof -
  let ?m = "\<lparr>mutex_val = 0, recursive_cnt = 255, mutex_origin_prio = 7, holder = Some 10\<rparr>"
  have i: "mutex_inv (demo_mutex ?m)" by (rule demo_mutex_inv) simp
  show ?thesis by (rule mutex_recursion_wraps[OF i demo_mutex_simps(2,3) demo_run, where m = ?m]) (simp_all add: demo_mutex_simps)
qed

end
