(* ===== verification/Event.thy ===== *)
theory Event
  imports Mutex
begin

text \<open>
  Event flags (\<^verbatim>\<open>event.c\<close>). An event has 29 flags in a bit field; a task waits in \<open>EventPend i\<close> until all
  or any of the flags it names are set. The flags a task waits for and its mode are in its descriptor.
  The loop of \<^verbatim>\<open>_EventTrigger\<close> reads the successor of a task before it wakes the task, and waking unlinks
  only that task, so the loop visits the pend list as it was on entry.
\<close>

definition EVENT_EVENTS_MASK :: uint32 where "EVENT_EVENTS_MASK = 0x1FFFFFFF"
definition EVENT_OPTIONS_MASK :: uint32 where "EVENT_OPTIONS_MASK = 7"
definition EVENT_AND :: uint32 where "EVENT_AND = 1"
definition EVENT_OR :: uint32 where "EVENT_OR = 2"
definition EVENT_AUTOCLEAN :: uint32 where "EVENT_AUTOCLEAN = 4"

record Event =
  event_options :: uint32
  events :: uint32

record eventk = mutexk +
  k_event_id_manager :: "nat \<rightharpoonup> Event"
  k_event_list :: "nat list"

text \<open>An assignment to the bit field of 29 bits keeps the low bits.\<close>

definition set_events :: "nat \<Rightarrow> Event \<Rightarrow> uint32 \<Rightarrow> 'a eventk_scheme \<Rightarrow> 'a eventk_scheme" where
  "set_events i ev x s = s\<lparr>k_event_id_manager := (k_event_id_manager s)(i \<mapsto> ev\<lparr>events := x AND 0x1FFFFFFF\<rparr>)\<rparr>"

definition EventCreate :: "bool \<Rightarrow> uint32 \<Rightarrow> 'a eventk_scheme \<Rightarrow> int \<times> 'a eventk_scheme" where
  "EventCreate mem options s =
     (if \<not> mem then (- ENOMEMORY, s)
      else let s = CriticalAreaLock s in
        case id_alloc (ID_NUM_MAX (cfg s)) (k_event_id_manager s) of
          None \<Rightarrow> (- ENOMEMORY, CriticalAreaUnLock s)
        | Some i \<Rightarrow>
            (let s = s\<lparr>k_event_id_manager := (k_event_id_manager s)(i \<mapsto> \<lparr>event_options = options AND 7, events = 0\<rparr>)\<rparr>;
                 s = s\<lparr>lists := (lists s)(EventPend i := [])\<rparr>;
                 s = s\<lparr>k_event_list := i # k_event_list s\<rparr>
             in (int i, CriticalAreaUnLock s)))"

definition EventDelete :: "nat \<Rightarrow> 'a eventk_scheme \<Rightarrow> 'a eventk_scheme option" where
  "EventDelete i s = do {
     (resched, s) \<leftarrow> (if lists s (EventPend i) \<noteq> [] then do { (_, s) \<leftarrow> LinklistResumeAll (EventPend i) s; Some (True, s) }
                      else Some (False, s));
     let s = CriticalAreaLock s;
     let s = s\<lparr>k_event_id_manager := id_del (k_event_id_manager s) (int i)\<rparr>;
     let s = s\<lparr>k_event_list := removeAll i (k_event_list s)\<rparr>;
     let s = CriticalAreaUnLock s;
     if resched then DO_KTASK_ASSIGN s else Some s }"

text \<open>Whether the flags satisfy a waiting task; a task that waits for any flag is told which ones were set.\<close>

definition EventTrigger_match :: "uint32 \<Rightarrow> TaskDescriptor \<Rightarrow> uint32 option" where
  "EventTrigger_match e d =
     (if event_mode d AND EVENT_AND \<noteq> 0 then
        if event_id_trigger d AND (e AND EVENT_EVENTS_MASK) = event_id_trigger d then Some (event_id_trigger d) else None
      else if event_mode d AND EVENT_OR \<noteq> 0 then
        if event_id_trigger d AND (e AND EVENT_EVENTS_MASK) \<noteq> 0
        then Some (event_id_trigger d AND (e AND EVENT_EVENTS_MASK)) else None
      else None)"

fun EventTrigger_loop :: "nat \<Rightarrow> tid list \<Rightarrow> bool \<Rightarrow> 'a eventk_scheme \<Rightarrow> (bool \<times> 'a eventk_scheme) option" where
  "EventTrigger_loop i [] resched s = Some (resched, s)"
| "EventTrigger_loop i (t # n) resched s = do {
     d \<leftarrow> tasks s t;
     ev \<leftarrow> k_event_id_manager s i;
     case EventTrigger_match (events ev) d of
       None \<Rightarrow> EventTrigger_loop i n resched s
     | Some g \<Rightarrow> do {
         s \<leftarrow> upd_task t (\<lambda>d. d\<lparr>event_id_trigger := g\<rparr>) s;
         let s = (if event_mode d AND EVENT_AUTOCLEAN \<noteq> 0 then set_events i ev (events ev AND NOT g) s else s);
         (_, s) \<leftarrow> KTaskWakeup (int (task_id d)) s;
         EventTrigger_loop i n True s } }"

definition EventTrigger :: "nat \<Rightarrow> uint32 \<Rightarrow> 'a eventk_scheme \<Rightarrow> (x_err_t \<times> 'a eventk_scheme) option" where
  "EventTrigger i evs s =
     (if evs = 0 then Some (- ERROR, s)
      else do {
        let s = CriticalAreaLock s;
        ev \<leftarrow> k_event_id_manager s i;
        let s = set_events i ev (events ev OR evs) s;
        if lists s (EventPend i) = [] then Some (EOK, CriticalAreaUnLock s)
        else do {
          (resched, s) \<leftarrow> EventTrigger_loop i (lists s (EventPend i)) False s;
          let s = CriticalAreaUnLock s;
          s \<leftarrow> (if resched then DO_KTASK_ASSIGN s else Some s);
          Some (EOK, s) } })"

text \<open>
  The value written through \<^verbatim>\<open>processed\<close> comes with the outcome: at once it is the set of flags found, after a
  wait it is read from the descriptor.
\<close>

definition EventProcess :: "bool \<Rightarrow> nat \<Rightarrow> uint32 \<Rightarrow> uint32 \<Rightarrow> uint32 \<Rightarrow> 'a eventk_scheme \<Rightarrow>
    (outcome \<times> uint32 option \<times> 'a eventk_scheme) option" where
  "EventProcess mem i evs options msec s =
     (if evs = 0 then Some (Ret (- ERROR), None, s)
      else do {
        task \<leftarrow> GetKTaskDescriptor s;
        s \<leftarrow> upd_task task (\<lambda>d. d\<lparr>exstatus := EOK\<rparr>) s;
        let timeout = CalculteTickFromTimeMs (TICK_PER_SECOND (cfg s)) msec;
        let s = CriticalAreaLock s;
        ev \<leftarrow> k_event_id_manager s i;
        found \<leftarrow> (if options AND EVENT_AND \<noteq> 0 then Some (events ev AND evs = evs)
                 else if options AND EVENT_OR \<noteq> 0 then Some (events ev AND evs \<noteq> 0) else None);
        if found then
          Some (Ret EOK, Some (events ev AND evs), CriticalAreaUnLock
            (if options AND EVENT_AUTOCLEAN \<noteq> 0 then set_events i ev (events ev AND NOT evs) s else s))
        else if timeout = 0 then do {
          s \<leftarrow> upd_task task (\<lambda>d. d\<lparr>exstatus := - ETIMEOUT\<rparr>) s;
          Some (Ret (- ETIMEOUT), None, CriticalAreaUnLock s) }
        else do {
          s \<leftarrow> upd_task task (\<lambda>d. d\<lparr>event_id_trigger := evs AND EVENT_EVENTS_MASK, event_mode := options AND EVENT_OPTIONS_MASK\<rparr>) s;
          (_, s) \<leftarrow> LinklistSuspend (EventPend i) task (ucast (event_options ev)) s;
          s \<leftarrow> (if sint timeout > 0 then do { (_, s) \<leftarrow> KTaskSetDelay mem task timeout s; Some s } else Some s);
          let s = CriticalAreaUnLock s;
          s \<leftarrow> DO_KTASK_ASSIGN s;
          Some (Wait, None, s) } })"

definition EventProcess_resume :: "tid \<Rightarrow> 'a eventk_scheme \<Rightarrow> (x_err_t \<times> uint32 option) option" where
  "EventProcess_resume task s = do { d \<leftarrow> tasks s task;
     Some (if exstatus d \<noteq> EOK then (exstatus d, None) else (exstatus d, Some (event_id_trigger d))) }"

definition FindEventById :: "int \<Rightarrow> 'a eventk_scheme \<Rightarrow> nat option" where
  "FindEventById i s = (if i < 0 then None
     else case id_get (k_event_id_manager s) i of None \<Rightarrow> None | Some _ \<Rightarrow> Some (id_trunc i))"

definition KEventCreate :: "bool \<Rightarrow> uint32 \<Rightarrow> 'a eventk_scheme \<Rightarrow> int \<times> 'a eventk_scheme" where
  "KEventCreate mem options s = EventCreate mem options s"

definition KEventDelete :: "int \<Rightarrow> 'a eventk_scheme \<Rightarrow> 'a eventk_scheme option" where
  "KEventDelete i s = (case FindEventById i s of None \<Rightarrow> Some s | Some e \<Rightarrow> EventDelete e s)"

definition KEventTrigger :: "int \<Rightarrow> uint32 \<Rightarrow> 'a eventk_scheme \<Rightarrow> (x_err_t \<times> 'a eventk_scheme) option" where
  "KEventTrigger i evs s = (case FindEventById i s of None \<Rightarrow> Some (- ERROR, s) | Some e \<Rightarrow> EventTrigger e evs s)"

text \<open>An unknown identifier reaches the null check of \<^verbatim>\<open>_EventProcess\<close>, which does not return.\<close>

definition KEventProcess :: "bool \<Rightarrow> int \<Rightarrow> uint32 \<Rightarrow> uint32 \<Rightarrow> uint32 \<Rightarrow> 'a eventk_scheme \<Rightarrow>
    (outcome \<times> uint32 option \<times> 'a eventk_scheme) option" where
  "KEventProcess mem i evs options msec s =
     (case FindEventById i s of None \<Rightarrow> None | Some e \<Rightarrow> EventProcess mem e evs options msec s)"

subsection \<open>Frames\<close>

lemma set_events_simps [simp]:
  "os_inv (set_events i ev x s) = os_inv s" "tasks (set_events i ev x s) = tasks s" "lists (set_events i ev x s) = lists s"
  "cfg (set_events i ev x s) = cfg s" "os_running_task (set_events i ev x s) = os_running_task s"
  "GetOsAssignLockLevel (set_events i ev x s) = GetOsAssignLockLevel s"
  "KTaskOsAssignLockNest (set_events i ev x s) = KTaskOsAssignLockNest s"
  "k_event_id_manager (set_events i ev x s) = (k_event_id_manager s)(i \<mapsto> ev\<lparr>events := x AND 0x1FFFFFFF\<rparr>)"
  "CriticalAreaUnLock (set_events i ev x s) = set_events i ev x (CriticalAreaUnLock s)"
  "set_events i ev x (CriticalAreaLock s) = CriticalAreaLock (set_events i ev x s)"
  by (simp_all add: set_events_def os_inv_defs CriticalAreaLock_def CriticalAreaUnLock_def GetOsAssignLockLevel_def)

lemma event_more:
  assumes "kernel.more s' = kernel.more s"
  shows "k_event_id_manager s' = k_event_id_manager s" "k_event_list s' = k_event_list s"
  using assms by (cases s, cases s', simp)+

lemma event_Lock [simp]:
  "k_event_id_manager (CriticalAreaLock s) = k_event_id_manager s"
  "k_event_id_manager (CriticalAreaUnLock s) = k_event_id_manager s"
  by (simp_all add: CriticalAreaLock_def CriticalAreaUnLock_def)

lemma event_task_os:
  assumes inv: "os_inv s" and t: "tasks s t = Some d"
  shows "os_inv (s\<lparr>tasks := (tasks s)(t \<mapsto> d\<lparr>event_id_trigger := g, event_mode := m\<rparr>)\<rparr>)"
proof (rule os_inv_upd[OF inv, where t = t and d = "d\<lparr>event_id_trigger := g, event_mode := m\<rparr>"])
  show "kinv (s\<lparr>tasks := (tasks s)(t \<mapsto> d\<lparr>event_id_trigger := g, event_mode := m\<rparr>)\<rparr>)"
    by (rule kinv_same[OF os_invD(1)[OF inv] t]) (simp_all add: sched_part_def delayed_def)
  show "pend_ok (d\<lparr>event_id_trigger := g, event_mode := m\<rparr>)"
    using os_invD(7)[OF inv t] pend_ok_cong[of "d\<lparr>event_id_trigger := g, event_mode := m\<rparr>" d] by simp
qed simp

subsection \<open>Triggering\<close>

text \<open>
  The reference for the loop: which of the waiting tasks are woken with which flags, and the flags left. Tasks that
  ask for it clear the flags they were woken by.
\<close>

fun scan :: "(tid \<rightharpoonup> TaskDescriptor) \<Rightarrow> uint32 \<Rightarrow> tid list \<Rightarrow> uint32 \<times> (tid \<rightharpoonup> uint32)" where
  "scan ts e [] = (e, Map.empty)"
| "scan ts e (t # xs) =
     (case ts t of None \<Rightarrow> scan ts e xs
      | Some d \<Rightarrow> case EventTrigger_match e d of None \<Rightarrow> scan ts e xs
        | Some g \<Rightarrow> apsnd (\<lambda>w. w(t \<mapsto> g))
            (scan ts (if event_mode d AND EVENT_AUTOCLEAN \<noteq> 0 then (e AND NOT g) AND 0x1FFFFFFF else e) xs))"

lemma scan_dom: "t \<notin> set xs \<Longrightarrow> snd (scan ts e xs) t = None"
  by (induction xs arbitrary: e) (auto split: option.splits)

lemma scan_cong: "(\<And>t. t \<in> set xs \<Longrightarrow> ts' t = ts t) \<Longrightarrow> scan ts' e xs = scan ts e xs"
proof (induction xs arbitrary: e)
  case (Cons t xs)
  then show ?case by (simp cong: option.case_cong)
qed simp

text \<open>Without automatic clearing the tasks woken are exactly those whose condition holds.\<close>

lemma scan_noclean:
  assumes "\<And>t d. t \<in> set xs \<Longrightarrow> ts t = Some d \<Longrightarrow> event_mode d AND EVENT_AUTOCLEAN = 0"
  shows "fst (scan ts e xs) = e \<and>
    (\<forall>t. snd (scan ts e xs) t = (if t \<in> set xs then Option.bind (ts t) (EventTrigger_match e) else None))"
  using assms
proof (induction xs)
  case (Cons a xs)
  have ih: "fst (scan ts e xs) = e \<and>
    (\<forall>t. snd (scan ts e xs) t = (if t \<in> set xs then Option.bind (ts t) (EventTrigger_match e) else None))"
    by (rule Cons.IH) (use Cons.prems in auto)
  have "event_mode d AND EVENT_AUTOCLEAN = 0" if "ts a = Some d" for d using Cons.prems[of a d] that by simp
  then show ?case using ih by (auto split: option.splits)
qed simp

definition woken_desc :: "uint32 \<Rightarrow> TaskDescriptor \<Rightarrow> TaskDescriptor" where
  "woken_desc g d = ready_desc (undelay (d\<lparr>event_id_trigger := g\<rparr>))"

definition woken :: "(tid \<rightharpoonup> uint32) \<Rightarrow> (tid \<rightharpoonup> TaskDescriptor) \<Rightarrow> (tid \<rightharpoonup> TaskDescriptor)" where
  "woken w ts = (\<lambda>t. case w t of None \<Rightarrow> ts t | Some g \<Rightarrow> map_option (woken_desc g) (ts t))"

lemma woken_none [simp]: "woken Map.empty ts = ts"
  by (simp add: woken_def)

text \<open>What the loop has done to a set of tasks in the pend list.\<close>

definition triggered :: "nat \<Rightarrow> Event \<Rightarrow> uint32 \<Rightarrow> (tid \<rightharpoonup> uint32) \<Rightarrow> 'a eventk_scheme \<Rightarrow> 'a eventk_scheme \<Rightarrow> bool" where
  "triggered i ev e w s s' \<longleftrightarrow> os_inv s' \<and> cfg s' = cfg s \<and> os_running_task s' = os_running_task s \<and>
     KTaskOsAssignLockNest s' = KTaskOsAssignLockNest s \<and>
     tasks s' = woken w (tasks s) \<and> k_event_id_manager s' = (k_event_id_manager s)(i \<mapsto> ev\<lparr>events := e\<rparr>) \<and>
     (\<forall>k. is_pend k \<longrightarrow> lists s' k = filter (\<lambda>t. w t = None) (lists s k))"

lemma removeAll_upd: "removeAll t xs = filter (\<lambda>x. [t \<mapsto> g] x = None) xs"
  by (induction xs) auto

lemma EventTrigger_step:
  fixes s :: "'a eventk_scheme"
  assumes inv: "os_inv s" and t: "tasks s t = Some d" "JudgeKTaskStatIsSuspend d" and ev: "k_event_id_manager s i = Some ev"
    and lowe: "events ev AND 0x1FFFFFFF = events ev"
  obtains s1 s2 e where "upd_task t (\<lambda>d. d\<lparr>event_id_trigger := g\<rparr>) s = Some s1"
    "KTaskWakeup (int (task_id d)) (if event_mode d AND EVENT_AUTOCLEAN \<noteq> 0 then set_events i ev (events ev AND NOT g) s1 else s1) = Some (EOK, s2)"
    "e = (if event_mode d AND EVENT_AUTOCLEAN \<noteq> 0 then (events ev AND NOT g) AND 0x1FFFFFFF else events ev)"
    "triggered i ev e [t \<mapsto> g] s s2"
proof -
  let ?d = "d\<lparr>event_id_trigger := g\<rparr>"
  define s1 where "s1 = s\<lparr>tasks := (tasks s)(t \<mapsto> ?d)\<rparr>"
  define e where "e = (if event_mode d AND EVENT_AUTOCLEAN \<noteq> 0 then (events ev AND NOT g) AND 0x1FFFFFFF else events ev)"
  define v where "v = (if event_mode d AND EVENT_AUTOCLEAN \<noteq> 0 then set_events i ev (events ev AND NOT g) s1 else s1)"
  have up: "upd_task t (\<lambda>d. d\<lparr>event_id_trigger := g\<rparr>) s = Some s1" using t by (simp add: upd_task_def s1_def)
  have "os_inv s1" using event_task_os[OF inv t(1), where g = g and m = "event_mode d"] by (simp add: s1_def)
  then have iv: "os_inv v" by (simp add: v_def)
  have tv: "tasks v t = Some ?d" "JudgeKTaskStatIsSuspend ?d" using t(2) by (simp_all add: v_def s1_def Judge_StatGet)
  obtain s2 where w: "KTaskWakeup (int (task_id ?d)) v = Some (EOK, s2)" "wakes t v s2" by (rule KTaskWakeup_wakes[OF iv tv])
  have v: "lists v = lists s" "cfg v = cfg s" "os_running_task v = os_running_task s"
    "KTaskOsAssignLockNest v = KTaskOsAssignLockNest s" "tasks v = (tasks s)(t \<mapsto> ?d)"
    by (simp_all add: v_def s1_def)
  have kv: "k_event_id_manager v = (k_event_id_manager s)(i \<mapsto> ev\<lparr>events := e\<rparr>)"
    using ev by (auto simp: v_def s1_def e_def)
  have "tasks s2 = woken [t \<mapsto> g] (tasks s)"
    using wakesD(12)[OF w(2)] v(5) t(1) by (auto simp: woken_def woken_desc_def fun_eq_iff)
  moreover have "lists s2 k = filter (\<lambda>x. [t \<mapsto> g] x = None) (lists s k)" if "is_pend k" for k
    using wakesD(13)[OF w(2), of k] is_pendD(1)[OF that] v(1) removeAll_upd[of t _ g] by simp
  ultimately have "triggered i ev e [t \<mapsto> g] s s2"
    using wakesD(1,2,3,5)[OF w(2)] v event_more(1)[OF wakesD(4)[OF w(2)]] kv by (simp add: triggered_def)
  then show thesis using that[OF up _ e_def] w(1) by (simp add: v_def)
qed

lemma triggered_trans:
  assumes a: "triggered i ev e [t \<mapsto> g] s s1" and b: "triggered i (ev\<lparr>events := e\<rparr>) e' w s1 s2" and t: "w t = None"
  shows "triggered i ev e' (w(t \<mapsto> g)) s s2"
proof -
  have "woken w (woken [t \<mapsto> g] (tasks s)) = woken (w(t \<mapsto> g)) (tasks s)" using t by (auto simp: woken_def fun_eq_iff split: option.splits)
  moreover have "filter (\<lambda>x. w x = None) (filter (\<lambda>x. [t \<mapsto> g] x = None) xs) = filter (\<lambda>x. (w(t \<mapsto> g)) x = None) xs" for xs
    by (induction xs) (auto simp: t)
  ultimately show ?thesis using a b unfolding triggered_def by simp
qed

lemma EventTrigger_loop_scan:
  fixes s :: "'a eventk_scheme"
  assumes "os_inv s" and "distinct xs" and "\<forall>t \<in> set xs. \<exists>d. tasks s t = Some d \<and> JudgeKTaskStatIsSuspend d"
    and "k_event_id_manager s i = Some ev" and "events ev AND 0x1FFFFFFF = events ev"
  shows "\<exists>s'. EventTrigger_loop i xs b s = Some (b \<or> snd (scan (tasks s) (events ev) xs) \<noteq> Map.empty, s') \<and>
    triggered i ev (fst (scan (tasks s) (events ev) xs)) (snd (scan (tasks s) (events ev) xs)) s s'"
  using assms
proof (induction xs arbitrary: b s ev)
  case Nil
  then show ?case by (auto simp: triggered_def)
next
  case (Cons t xs)
  obtain d where d: "tasks s t = Some d" "JudgeKTaskStatIsSuspend d" using Cons.prems(3) by auto
  show ?case
  proof (cases "EventTrigger_match (events ev) d")
    case None
    then show ?thesis using Cons.IH[OF Cons.prems(1) _ _ Cons.prems(4,5), of b] Cons.prems(2-4) d by simp
  next
    case (Some g)
    obtain s1 s2 e where st: "upd_task t (\<lambda>d. d\<lparr>event_id_trigger := g\<rparr>) s = Some s1"
      "KTaskWakeup (int (task_id d)) (if event_mode d AND EVENT_AUTOCLEAN \<noteq> 0 then set_events i ev (events ev AND NOT g) s1 else s1) = Some (EOK, s2)"
      and e: "e = (if event_mode d AND EVENT_AUTOCLEAN \<noteq> 0 then (events ev AND NOT g) AND 0x1FFFFFFF else events ev)"
      and tr: "triggered i ev e [t \<mapsto> g] s s2"
      by (rule EventTrigger_step[OF Cons.prems(1) d Cons.prems(4,5)])
    have s2: "os_inv s2" "tasks s2 = woken [t \<mapsto> g] (tasks s)" "k_event_id_manager s2 i = Some (ev\<lparr>events := e\<rparr>)"
      using tr by (simp_all add: triggered_def)
    have same: "tasks s2 x = tasks s x" if "x \<in> set xs" for x
      using that Cons.prems(2) s2(2) by (auto simp: woken_def)
    have low: "events (ev\<lparr>events := e\<rparr>) AND 0x1FFFFFFF = events (ev\<lparr>events := e\<rparr>)"
      using e Cons.prems(5) by (simp add: and.assoc)
    have su: "\<forall>t \<in> set xs. \<exists>d. tasks s2 t = Some d \<and> JudgeKTaskStatIsSuspend d" using Cons.prems(3) same by simp
    have sc: "scan (tasks s2) e xs = scan (tasks s) e xs" by (rule scan_cong) (rule same)
    obtain s' where s': "EventTrigger_loop i xs True s2 = Some (True, s')"
      "triggered i (ev\<lparr>events := e\<rparr>) (fst (scan (tasks s) e xs)) (snd (scan (tasks s) e xs)) s2 s'"
      using Cons.IH[OF s2(1) _ su s2(3) low, of True] Cons.prems(2) sc by auto
    have "snd (scan (tasks s) e xs) t = None" using scan_dom Cons.prems(2) by simp
    note tt = triggered_trans[OF tr s'(2) this]
    have "scan (tasks s) (events ev) (t # xs) = apsnd (\<lambda>w. w(t \<mapsto> g)) (scan (tasks s) e xs)"
      using d Some e by simp
    moreover have "EventTrigger_loop i (t # xs) b s = Some (True, s')"
      using d Some Cons.prems(4) st s'(1) by (simp add: Let_def)
    ultimately show ?thesis using tt by (simp del: fun_upd_apply)
  qed
qed

lemma triggered_unlock:
  assumes "triggered i (ev\<lparr>events := x\<rparr>) e w (CriticalAreaLock (set_events i ev y s)) s1"
  shows "triggered i ev e w s (CriticalAreaUnLock s1)"
  using assms unfolding triggered_def by (auto simp: CriticalAreaLock_def CriticalAreaUnLock_def)

text \<open>Triggering in terms of the reference.\<close>

lemma EventTrigger_effect:
  fixes s :: "'a eventk_scheme"
  assumes inv: "os_inv s" and r: "os_running_task s = Some r" and lock: "GetOsAssignLockLevel s = 0"
    and ev: "k_event_id_manager s i = Some ev" and evs: "evs \<noteq> 0"
    and sc: "scan (tasks s) ((events ev OR evs) AND 0x1FFFFFFF) (lists s (EventPend i)) = (e, w)"
  obtains mid s' where "EventTrigger i evs s = Some (EOK, s')" "triggered i ev e w s mid" "if w = Map.empty then s' = mid else assigned mid s'"
proof -
  let ?x = "events ev OR evs" and ?xs = "lists s (EventPend i)"
  let ?u = "set_events i ev ?x s" let ?ev = "ev\<lparr>events := ?x AND 0x1FFFFFFF\<rparr>"
  have o: "os_inv (CriticalAreaLock ?u)" "k_event_id_manager (CriticalAreaLock ?u) i = Some ?ev"
    "events ?ev AND 0x1FFFFFFF = events ?ev" "distinct ?xs"
    using inv links_invD(1)[OF os_invD(6)[OF inv]] by (simp_all add: and.assoc)
  have "\<forall>t \<in> set ?xs. \<exists>d. tasks (CriticalAreaLock ?u) t = Some d \<and> JudgeKTaskStatIsSuspend d"
    using pend_member[OF inv, of "EventPend i"] by (metis is_pend.simps(5) lock_simps(1) set_events_simps(2))
  from EventTrigger_loop_scan[OF o(1,4) this o(2,3), of False]
  obtain s1 where s1: "EventTrigger_loop i ?xs False (CriticalAreaLock ?u) = Some (w \<noteq> Map.empty, s1)"
    "triggered i ?ev e w (CriticalAreaLock ?u) s1"
    using sc by auto
  let ?m = "CriticalAreaUnLock s1"
  have tm: "triggered i ev e w s ?m" by (rule triggered_unlock[OF s1(2)])
  have ru: "os_inv ?m" "os_running_task ?m = Some r" "GetOsAssignLockLevel ?m = 0"
    using tm r lock by (simp_all add: triggered_def GetOsAssignLockLevel_def)
  obtain s2 where a: "assigned ?m s2" by (rule assignedI[OF ru])
  have e: "EventTrigger i evs s = Some (EOK, if w = Map.empty then ?m else s2)"
  proof (cases "?xs = []")
    case True
    then have "w = Map.empty" "s1 = CriticalAreaLock ?u" using sc s1(1) by auto
    then show ?thesis using True evs ev by (simp add: EventTrigger_def Let_def)
  next
    case False
    then show ?thesis using evs ev s1(1) assignedD(1)[OF a] by (simp add: EventTrigger_def Let_def)
  qed
  show thesis using that[OF e tm] a by simp
qed

subsection \<open>Waiting\<close>

text \<open>The descriptor of a task that is about to wait for an event.\<close>

definition await_desc :: "uint32 \<Rightarrow> uint32 \<Rightarrow> TaskDescriptor \<Rightarrow> TaskDescriptor" where
  "await_desc evs options d = d\<lparr>exstatus := EOK, event_id_trigger := evs AND EVENT_EVENTS_MASK,
     event_mode := options AND EVENT_OPTIONS_MASK\<rparr>"

definition event_found :: "uint32 \<Rightarrow> uint32 \<Rightarrow> uint32 \<Rightarrow> bool" where
  "event_found evs options e \<longleftrightarrow> (if options AND EVENT_AND \<noteq> 0 then e AND evs = evs else e AND evs \<noteq> 0)"

lemma await_os:
  assumes inv: "os_inv s" and t: "tasks s t = Some d"
  shows "os_inv (s\<lparr>tasks := (tasks s)(t \<mapsto> await_desc evs options d)\<rparr>)"
  using event_task_os[OF exstatus_os[OF inv t, of EOK], of t "d\<lparr>exstatus := EOK\<rparr>", where g = "evs AND EVENT_EVENTS_MASK" and m = "options AND EVENT_OPTIONS_MASK"]
  by (simp add: await_desc_def)

lemma EventProcess_found:
  fixes s :: "'a eventk_scheme"
  assumes "os_running_task s = Some t" and "tasks s t = Some d" and "k_event_id_manager s i = Some ev" and "evs \<noteq> 0"
    and "options AND EVENT_AND \<noteq> 0 \<or> options AND EVENT_OR \<noteq> 0" and "event_found evs options (events ev)"
  shows "EventProcess mem i evs options msec s = Some (Ret EOK, Some (events ev AND evs),
    (let u = s\<lparr>tasks := (tasks s)(t \<mapsto> d\<lparr>exstatus := EOK\<rparr>)\<rparr> in
     if options AND EVENT_AUTOCLEAN \<noteq> 0 then set_events i ev (events ev AND NOT evs) u else u))"
  using assms by (auto simp: EventProcess_def event_found_def upd_task_def GetKTaskDescriptor_def Let_def)

text \<open>The waiting branch up to the suspension.\<close>

lemma EventProcess_wait:
  fixes s :: "'a eventk_scheme"
  assumes r: "os_running_task s = Some t" and t: "tasks s t = Some d" and ev: "k_event_id_manager s i = Some ev" and evs: "evs \<noteq> 0"
    and opt: "options AND EVENT_AND \<noteq> 0 \<or> options AND EVENT_OR \<noteq> 0" and nf: "\<not> event_found evs options (events ev)"
    and su: "LinklistSuspend (EventPend i) t (ucast (event_options ev))
      (CriticalAreaLock (s\<lparr>tasks := (tasks s)(t \<mapsto> await_desc evs options d)\<rparr>)) = Some (y, s1)"
    and sd: "KTaskSetDelay mem t (CalculteTickFromTimeMs (TICK_PER_SECOND (cfg s)) msec) s1 = Some (x, s2)"
    and a: "assigned (CriticalAreaUnLock s2) s'"
  shows "EventProcess mem i evs options msec s = Some (Wait, None, s')"
proof -
  have f: "(if options AND EVENT_AND \<noteq> 0 then Some (events ev AND evs = evs)
                 else if options AND EVENT_OR \<noteq> 0 then Some (events ev AND evs \<noteq> 0) else None) = Some False"
    using opt nf by (auto simp: event_found_def)
  have "CalculteTickFromTimeMs (TICK_PER_SECOND (cfg s)) msec \<noteq> 0"
    using ticks_positive[of "TICK_PER_SECOND (cfg s)" msec] by auto
  then show ?thesis
    using f r t ev evs su sd assignedD(1)[OF a] ticks_sint[of "TICK_PER_SECOND (cfg s)" msec]
    by (simp add: EventProcess_def upd_task_def GetKTaskDescriptor_def Let_def await_desc_def)
qed

text \<open>What a waiting task has left behind when another one runs.\<close>

definition awaits :: "uint32 \<Rightarrow> uint32 \<Rightarrow> lhead option \<Rightarrow> tid \<Rightarrow> 'a eventk_scheme \<Rightarrow> 'a eventk_scheme \<Rightarrow> bool" where
  "awaits evs options l t s s' \<longleftrightarrow> os_inv s' \<and> k_event_id_manager s' = k_event_id_manager s \<and>
     (\<exists>d'. tasks s' t = Some d' \<and> JudgeKTaskStatIsSuspend d' \<and> sched_link d' = l \<and>
        event_id_trigger d' = evs AND EVENT_EVENTS_MASK \<and> event_mode d' = options AND EVENT_OPTIONS_MASK)"

lemma awaitsI:
  assumes "assigned mid s'" and "kernel.more mid = kernel.more s" and "tasks mid t = Some e" and "JudgeKTaskStatIsSuspend e"
    and "sched_link e = l" and "event_id_trigger e = evs AND EVENT_EVENTS_MASK" and "event_mode e = options AND EVENT_OPTIONS_MASK"
  shows "awaits evs options l t s s'"
  using assignedD(3)[OF assms(1)] assignedD(6)[OF assms(1,3)] event_more(1)[of s' s] assigned_more[OF assms(1)] assms(2-)
  unfolding awaits_def by simp

lemma LinklistSuspend_unlinked:
  assumes inv: "os_inv s" and r: "os_running_task s = Some t" and t: "tasks s t = Some d" and run: "JudgeKTaskStatIsRunning d"
    and lock: "GetOsAssignLockLevel s = 0" and fl: "flag \<noteq> LINKLIST_FLAG_FIFO" "flag \<noteq> LINKLIST_FLAG_PRIO"
  obtains s1 x s2 s' y where "LinklistSuspend l t flag (CriticalAreaLock s) = Some (- EINVALED, s1)"
    "KTaskSetDelay mem t ticks s1 = Some (x, s2)" "assigned (CriticalAreaUnLock s2) s'"
    "kernel.more s2 = kernel.more s" "tasks s2 t = Some ((suspend_desc d)\<lparr>delay := y\<rparr>)"
proof -
  let ?s = "CriticalAreaLock (CriticalAreaLock s)"
  have o: "os_inv ?s" "os_running_task ?s = Some t" "tasks ?s t = Some d" using inv t r by simp_all
  obtain L rv where su: "SuspendKTask (int (task_id d)) ?s = Some (EOK, ?s\<lparr>lists := L, tasks := (tasks ?s)(t \<mapsto> suspend_desc d),
      os_assign_read_vector := rv, xiaoshan_delay_head := removeAll t (xiaoshan_delay_head ?s)\<rparr>)"
    and i1: "os_inv (?s\<lparr>lists := L, tasks := (tasks ?s)(t \<mapsto> suspend_desc d),
      os_assign_read_vector := rv, xiaoshan_delay_head := removeAll t (xiaoshan_delay_head ?s)\<rparr>)"
    by (rule SuspendKTask_os[OF o run])
  define v where "v = CriticalAreaUnLock (?s\<lparr>lists := L, tasks := (tasks ?s)(t \<mapsto> suspend_desc d),
      os_assign_read_vector := rv, xiaoshan_delay_head := removeAll t (xiaoshan_delay_head ?s)\<rparr>)"
  have v: "os_inv v" "tasks v t = Some (suspend_desc d)" "os_running_task v = Some t" "kernel.more v = kernel.more s"
    "KTaskOsAssignLockNest v = KTaskOsAssignLockNest s + 1"
    using i1 r by (simp_all add: v_def) (simp_all add: CriticalAreaLock_def CriticalAreaUnLock_def)
  have ls: "LinklistSuspend l t flag (CriticalAreaLock s) = Some (- EINVALED, v)"
    using su t fl by (simp add: LinklistSuspend_def Let_def v_def)
  let ?w = "delay_set mem t ticks v"
  obtain x where sd: "KTaskSetDelay mem t ticks v = Some (x, ?w)" using KTaskSetDelay_os(1)[OF v(1,2)] by blast
  obtain y where y: "tasks ?w t = Some ((suspend_desc d)\<lparr>delay := y\<rparr>)" using delay_set_task[OF v(2)] by blast
  have w: "os_inv ?w" "os_running_task ?w = Some t" "kernel.more ?w = kernel.more s" "KTaskOsAssignLockNest ?w = KTaskOsAssignLockNest s + 1"
    using KTaskSetDelay_os(2)[OF v(1,2)] v by (simp_all add: delay_set_def)
  have "os_inv (CriticalAreaUnLock ?w)" "os_running_task (CriticalAreaUnLock ?w) = Some t" "GetOsAssignLockLevel (CriticalAreaUnLock ?w) = 0"
    using w lock by (simp_all add: GetOsAssignLockLevel_def CriticalAreaUnLock_def)
  then obtain s' where "assigned (CriticalAreaUnLock ?w) s'" by (rule assignedI)
  then show thesis using that[OF ls sd _ w(3) y] by blast
qed

lemma EventProcess_awaits:
  fixes s :: "'a eventk_scheme"
  assumes inv: "os_inv s" and r: "os_running_task s = Some t" and t: "tasks s t = Some d" and run: "JudgeKTaskStatIsRunning d"
    and lock: "GetOsAssignLockLevel s = 0" and ev: "k_event_id_manager s i = Some ev" and evs: "evs \<noteq> 0"
    and opt: "options AND EVENT_AND \<noteq> 0 \<or> options AND EVENT_OR \<noteq> 0" and nf: "\<not> event_found evs options (events ev)"
  obtains s' where "EventProcess mem i evs options msec s = Some (Wait, None, s')"
    "awaits evs options (if ucast (event_options ev) = LINKLIST_FLAG_FIFO \<or> ucast (event_options ev) = LINKLIST_FLAG_PRIO
       then Some (EventPend i) else None) t s s'"
proof -
  let ?d = "await_desc evs options d" and ?fl = "ucast (event_options ev) :: uint8"
  let ?u = "s\<lparr>tasks := (tasks s)(t \<mapsto> ?d)\<rparr>" and ?w = "CalculteTickFromTimeMs (TICK_PER_SECOND (cfg s)) msec"
  have u: "os_inv ?u" "os_running_task ?u = Some t" "tasks ?u t = Some ?d" "JudgeKTaskStatIsRunning ?d" "GetOsAssignLockLevel ?u = 0"
    using await_os[OF inv t] r run lock by (simp_all add: Judge_StatGet GetOsAssignLockLevel_def) (simp add: await_desc_def KTaskStatGet_def)
  have d: "event_id_trigger ?d = evs AND EVENT_EVENTS_MASK" "event_mode ?d = options AND EVENT_OPTIONS_MASK" by (simp_all add: await_desc_def)
  note wait = EventProcess_wait[OF r t ev evs opt nf]
  show thesis
  proof (cases "?fl = LINKLIST_FLAG_FIFO \<or> ?fl = LINKLIST_FLAG_PRIO")
    case True
    obtain s1 x s2 s' where b: "LinklistSuspend (EventPend i) t ?fl (CriticalAreaLock ?u) = Some (EOK, s1)"
      "KTaskSetDelay mem t ?w s1 = Some (x, s2)" "blocks (EventPend i) ?fl mem ?w t ?u (CriticalAreaUnLock s2)"
      "assigned (CriticalAreaUnLock s2) s'"
      using block_steps[OF u(1-4) _ True u(5), of "EventPend i"] by (metis is_pend.simps(5))
    obtain y where y: "tasks (CriticalAreaUnLock s2) t = Some ((pend_desc (EventPend i) ?d)\<lparr>delay := y\<rparr>)"
      using blocksD(3)[OF b(3)] by auto
    have "awaits evs options (Some (EventPend i)) t s s'"
      by (rule awaitsI[OF b(4) _ y]) (use blocksD(2)[OF b(3)] d in \<open>simp_all add: same_rest_def Judge_StatGet\<close>)
    then show thesis using that[OF wait[OF b(1,2,4)]] True by simp
  next
    case False
    then have fl: "?fl \<noteq> LINKLIST_FLAG_FIFO" "?fl \<noteq> LINKLIST_FLAG_PRIO" by simp_all
    obtain s1 x s2 s' y where b: "LinklistSuspend (EventPend i) t ?fl (CriticalAreaLock ?u) = Some (- EINVALED, s1)"
      "KTaskSetDelay mem t ?w s1 = Some (x, s2)" "assigned (CriticalAreaUnLock s2) s'"
      "kernel.more s2 = kernel.more ?u" "tasks s2 t = Some ((suspend_desc ?d)\<lparr>delay := y\<rparr>)"
      by (rule LinklistSuspend_unlinked[OF u fl])
    have "awaits evs options None t s s'"
      by (rule awaitsI[OF b(3), where e = "(suspend_desc ?d)\<lparr>delay := y\<rparr>"]) (use b(4,5) d in \<open>simp_all add: Judge_StatGet\<close>)
    then show thesis using that[OF wait[OF b(1-3)]] False by simp
  qed
qed

lemma ucast_small: "(x :: uint32) < 8 \<Longrightarrow> (ucast x :: uint8) = ucast y \<longleftrightarrow> x = y" if "(y :: uint32) < 8"
proof -
  assume x: "x < 8"
  have u: "unat (ucast z :: uint8) = unat z" if "z < 8" for z :: uint32
    using that by (simp add: unsigned_ucast_eq take_bit_nat_eq_self word_less_nat_alt)
  show ?thesis using u[OF x] u[OF that] by (simp add: word_unat_eq_iff)
qed

subsection \<open>Properties\<close>

definition demo_event :: "uint32 \<Rightarrow> eventk" where
  "demo_event e = demo_kernel \<lparr>k_sem_id_manager = Map.empty, k_sem_list = [], k_mutex_id_manager = Map.empty, k_mutex_list = [],
     k_event_id_manager = [0 \<mapsto> \<lparr>event_options = 0, events = e\<rparr>], k_event_list = [0]\<rparr>"

lemma demo_event_simps:
  "k_event_id_manager (demo_event e) = [0 \<mapsto> \<lparr>event_options = 0, events = e\<rparr>]" "os_running_task (demo_event e) = Some 10"
  "tasks (demo_event e) 10 = Some (demo_task 0 KTASK_RUNNING None 0)" "GetOsAssignLockLevel (demo_event e) = 0"
  "lists (demo_event e) (EventPend i) = []"
  by (simp_all add: demo_event_def demo_simps) (simp_all add: demo_kernel_def)



text \<open>C16: Waiting for an event returns at once with the flags found, clearing them when asked to, if all
  (or any) of the flags are set. Otherwise the caller is suspended with its flags and mode in the descriptor. It is
  linked in the pend list only if the options of the event are a list order, first-in first-out or by priority; for an event
  created with any other option, such as the trigger mode the comment of the creation asks for, it is in no
  list, so no trigger finds it.\<close>

theorem KEventProcess_correct:
  fixes s :: "'a eventk_scheme"
  assumes "os_inv s" and "os_running_task s = Some t" and "tasks s t = Some d" and "JudgeKTaskStatIsRunning d"
    and "GetOsAssignLockLevel s = 0" and "i < 65536" and "k_event_id_manager s i = Some ev" and "evs \<noteq> 0"
    and "options AND EVENT_AND \<noteq> 0 \<or> options AND EVENT_OR \<noteq> 0" and "event_options ev < 8"
  shows "if event_found evs options (events ev)
    then \<exists>s'. KEventProcess mem (int i) evs options msec s = Some (Ret EOK, Some (events ev AND evs), s') \<and> os_inv s' \<and>
      k_event_id_manager s' = (if options AND EVENT_AUTOCLEAN \<noteq> 0
        then (k_event_id_manager s)(i \<mapsto> ev\<lparr>events := (events ev AND NOT evs) AND 0x1FFFFFFF\<rparr>) else k_event_id_manager s)
    else \<exists>s' d'. KEventProcess mem (int i) evs options msec s = Some (Wait, None, s') \<and> os_inv s' \<and>
      k_event_id_manager s' = k_event_id_manager s \<and> tasks s' t = Some d' \<and> JudgeKTaskStatIsSuspend d' \<and>
      event_id_trigger d' = evs AND EVENT_EVENTS_MASK \<and> event_mode d' = options AND EVENT_OPTIONS_MASK \<and>
      (if event_options ev = 0 \<or> event_options ev = 1 then t \<in> set (lists s' (EventPend i))
       else \<forall>l. t \<notin> set (lists s' l))"
proof -
  have eq: "KEventProcess mem (int i) evs options msec s = EventProcess mem i evs options msec s"
    using assms(6,7) by (simp add: KEventProcess_def FindEventById_def id_get_def)
  show ?thesis
  proof (cases "event_found evs options (events ev)")
    case True
    show ?thesis
      using True eq EventProcess_found[OF assms(2,3,7-9) True, of mem msec] exstatus_os[OF assms(1,3), of EOK]
      by (simp add: Let_def)
  next
    case False
    obtain s' where w: "EventProcess mem i evs options msec s = Some (Wait, None, s')"
      "awaits evs options (if ucast (event_options ev) = LINKLIST_FLAG_FIFO \<or> ucast (event_options ev) = LINKLIST_FLAG_PRIO
         then Some (EventPend i) else None) t s s'"
      by (rule EventProcess_awaits[OF assms(1-5,7-9) False])
    have fl: "ucast (event_options ev) = LINKLIST_FLAG_FIFO \<longleftrightarrow> event_options ev = 0" "ucast (event_options ev) = LINKLIST_FLAG_PRIO \<longleftrightarrow> event_options ev = 1"
      using ucast_small[OF _ assms(10), of 0] ucast_small[OF _ assms(10), of 1] by (simp_all add: LINKLIST_FLAG_FIFO_def LINKLIST_FLAG_PRIO_def)
    have link: "t \<in> set (lists s' l) \<longleftrightarrow> sched_link d' = Some l" if "tasks s' t = Some d'" for l d'
      using links_invD(2)[OF os_invD(6), of s' t l] w(2) that by (auto simp: awaits_def)
    show ?thesis using False eq w link unfolding awaits_def fl by (auto split: if_splits)
  qed
qed

theorem KEventProcess_correct_witness:
  "(\<exists>s'. KEventProcess True 0 1 EVENT_AND 100 (demo_event 1) = Some (Ret EOK, Some 1, s')) \<and>
   (\<exists>s'. KEventProcess True 0 2 EVENT_AND 100 (demo_event 1) = Some (Wait, None, s') \<and> 10 \<in> set (lists s' (EventPend 0)))"
proof -
  have i: "os_inv (demo_event 1)" unfolding demo_event_def by (rule demo_os_inv)
  let ?ev = "\<lparr>event_options = 0, events = 1 :: uint32\<rparr>"
  have e: "k_event_id_manager (demo_event 1) 0 = Some ?ev" "event_options ?ev < 8" by (simp_all add: demo_event_simps)
  have o: "EVENT_AND AND EVENT_AND \<noteq> 0 \<or> EVENT_AND AND EVENT_OR \<noteq> 0" "(0 :: nat) < 65536" by (simp_all add: EVENT_AND_def)
  note c = KEventProcess_correct[OF i demo_event_simps(2,3) demo_run demo_event_simps(4) o(2) e(1) _ o(1) e(2), where mem = True and msec = 100]
  have f: "event_found 1 EVENT_AND (events ?ev)" "\<not> event_found 2 EVENT_AND (events ?ev)" by (simp_all add: event_found_def EVENT_AND_def)
  show ?thesis using c[of 1] c[of 2] f by auto
qed

end
