(* ===== verification/CircularArea.thy ===== *)
theory CircularArea
  imports Prelude
begin

text \<open>
  Circular byte buffers (\<^verbatim>\<open>circular_area.c\<close>, \<^verbatim>\<open>xs_circular_area.h\<close>), with the indices and lengths at the
  widths of the structure: the indices are 8 bits wide, the length is 32 bits wide. The buffer memory is
  a list; a \<^verbatim>\<open>memcpy\<close> that would leave it has no result, and neither has a failing \<^verbatim>\<open>CHECK\<close> or a
  remainder by zero. The locale \<open>byte_fifo\<close> is the contract of a bounded first-in first-out buffer.
\<close>

record CircularArea =
  data_buffer :: "uint8 list"
  readidx :: uint8
  writeidx :: uint8
  area_length :: uint32
  b_status :: bool

definition memcpy_from :: "uint8 list \<Rightarrow> nat \<Rightarrow> nat \<Rightarrow> uint8 list option" where
  "memcpy_from buf off n = (if off + n \<le> length buf then Some (take n (drop off buf)) else None)"

definition memcpy_to :: "uint8 list \<Rightarrow> nat \<Rightarrow> uint8 list \<Rightarrow> uint8 list option" where
  "memcpy_to buf off xs =
     (if off + length xs \<le> length buf then Some (take off buf @ xs @ drop (off + length xs) buf) else None)"

definition CircularAreaIsFull :: "CircularArea \<Rightarrow> bool" where
  "CircularAreaIsFull ca \<longleftrightarrow> readidx ca = writeidx ca \<and> b_status ca"

definition CircularAreaIsEmpty :: "CircularArea \<Rightarrow> bool" where
  "CircularAreaIsEmpty ca \<longleftrightarrow> readidx ca = writeidx ca \<and> \<not> b_status ca"

definition CircularAreaReset :: "CircularArea \<Rightarrow> CircularArea" where
  "CircularAreaReset ca = ca\<lparr>writeidx := 0, readidx := 0, b_status := False\<rparr>"

definition CircularAreaGetMaxLength :: "CircularArea \<Rightarrow> uint32" where
  "CircularAreaGetMaxLength ca = area_length ca"

definition CircularAreaGetDataLength :: "CircularArea \<Rightarrow> uint32 option" where
  "CircularAreaGetDataLength ca =
     (if CircularAreaIsFull ca then Some (area_length ca)
      else if area_length ca = 0 then None
      else Some ((ucast (writeidx ca) - ucast (readidx ca) + area_length ca) mod area_length ca))"

definition CircularAreaDivideRdData :: "CircularArea \<Rightarrow> uint32 \<Rightarrow> bool" where
  "CircularAreaDivideRdData ca data_length = (\<not> ucast (readidx ca) + data_length \<le> area_length ca)"

definition CircularAreaDivideWrData :: "CircularArea \<Rightarrow> uint32 \<Rightarrow> bool" where
  "CircularAreaDivideWrData ca data_length = (\<not> ucast (writeidx ca) + data_length \<le> area_length ca)"

text \<open>The copying of a read and of a write, in one or two parts; the new index comes with the result.\<close>

definition CircularAreaRead_copy :: "uint32 \<Rightarrow> CircularArea \<Rightarrow> (uint8 list \<times> uint8) option" where
  "CircularAreaRead_copy data_length ca =
     (if CircularAreaDivideRdData ca data_length then
        let read_len_up = area_length ca - ucast (readidx ca);
            read_len_down = data_length - read_len_up
        in do {
          a \<leftarrow> memcpy_from (data_buffer ca) (unat (readidx ca)) (unat read_len_up);
          b \<leftarrow> memcpy_from (data_buffer ca) 0 (unat read_len_down);
          Some (a @ b, ucast read_len_down) }
      else do {
        a \<leftarrow> memcpy_from (data_buffer ca) (unat (readidx ca)) (unat data_length);
        Some (a, ucast ((ucast (readidx ca) + data_length) mod area_length ca)) })"

definition CircularAreaRead :: "uint32 \<Rightarrow> CircularArea \<Rightarrow> (x_err_t \<times> uint8 list \<times> CircularArea) option" where
  "CircularAreaRead data_length ca =
     (if data_length = 0 then None
      else if CircularAreaIsEmpty ca then Some (ERROR, [], ca)
      else do {
        len \<leftarrow> CircularAreaGetDataLength ca;
        (out, idx) \<leftarrow> CircularAreaRead_copy (if data_length > len then len else data_length) ca;
        Some (EOK, out, ca\<lparr>readidx := idx, b_status := False\<rparr>) })"

text \<open>\<open>input\<close> is the memory at the input pointer, which has to hold what is copied.\<close>

definition CircularAreaWrite_copy :: "uint8 list \<Rightarrow> uint32 \<Rightarrow> CircularArea \<Rightarrow> (uint8 list \<times> uint8) option" where
  "CircularAreaWrite_copy input data_length ca =
     (if CircularAreaDivideWrData ca data_length then
        let write_len_up = area_length ca - ucast (writeidx ca);
            write_len_down = data_length - write_len_up
        in do {
          a \<leftarrow> memcpy_from input 0 (unat write_len_up);
          buf \<leftarrow> memcpy_to (data_buffer ca) (unat (writeidx ca)) a;
          b \<leftarrow> memcpy_from input (unat write_len_up) (unat write_len_down);
          buf \<leftarrow> memcpy_to buf 0 b;
          Some (buf, ucast write_len_down) }
      else do {
        a \<leftarrow> memcpy_from input 0 (unat data_length);
        buf \<leftarrow> memcpy_to (data_buffer ca) (unat (writeidx ca)) a;
        Some (buf, ucast ((ucast (writeidx ca) + data_length) mod area_length ca)) })"

definition CircularAreaWrite :: "uint8 list \<Rightarrow> uint32 \<Rightarrow> bool \<Rightarrow> CircularArea \<Rightarrow> (x_err_t \<times> CircularArea) option" where
  "CircularAreaWrite input data_length b_force ca =
     (if data_length = 0 then None
      else if CircularAreaIsFull ca \<and> \<not> b_force then Some (ERROR, ca)
      else do {
        len \<leftarrow> CircularAreaGetDataLength ca;
        let write_data_length = area_length ca - len;
        (buf, idx) \<leftarrow> CircularAreaWrite_copy input
           (if data_length > write_data_length then write_data_length else data_length) ca;
        let ca = ca\<lparr>data_buffer := buf, writeidx := idx, b_status := True\<rparr>;
        Some (EOK, if b_force then ca\<lparr>readidx := writeidx ca\<rparr> else ca) })"

text \<open>\<open>mem\<close> and \<open>buf\<close> are the results of the two allocations; \<open>buf\<close> is what the new memory holds.\<close>

definition CircularAreaInit :: "nat \<Rightarrow> bool \<Rightarrow> uint8 list option \<Rightarrow> uint32 \<Rightarrow> CircularArea option option" where
  "CircularAreaInit MEM_ALIGN_SIZE mem buf circular_area_length =
     (if circular_area_length = 0 then None
      else let len = word_of_nat (ALIGN_MEN_DOWN (unat circular_area_length) MEM_ALIGN_SIZE)
           in if \<not> mem then Some None
              else case buf of None \<Rightarrow> Some None
              | Some b \<Rightarrow> Some (Some \<lparr>data_buffer = b, readidx = 0, writeidx = 0, area_length = len, b_status = False\<rparr>))"

text \<open>After a release the memory of the buffer is gone.\<close>

definition CircularAreaRelease :: "CircularArea \<Rightarrow> CircularArea" where
  "CircularAreaRelease ca =
     ca\<lparr>readidx := 0, writeidx := 0, b_status := False, area_length := 0, data_buffer := []\<rparr>"

subsection \<open>A first-in first-out buffer\<close>

locale byte_fifo =
  fixes most :: nat and inv :: "'s \<Rightarrow> bool" and view :: "'s \<Rightarrow> 'b list" and cap :: "'s \<Rightarrow> nat"
    and put :: "'b list \<Rightarrow> 's \<Rightarrow> 's option" and get :: "nat \<Rightarrow> 's \<Rightarrow> ('b list \<times> 's) option"
  assumes put_law: "inv s \<Longrightarrow> xs \<noteq> [] \<Longrightarrow> length xs \<le> most \<Longrightarrow> length (view s) < cap s \<Longrightarrow>
      \<exists>s'. put xs s = Some s' \<and> inv s' \<and> cap s' = cap s \<and> view s' = view s @ take (cap s - length (view s)) xs"
    and get_law: "inv t \<Longrightarrow> 0 < n \<Longrightarrow> n \<le> most \<Longrightarrow> view t \<noteq> [] \<Longrightarrow>
      \<exists>t'. get n t = Some (take n (view t), t') \<and> inv t' \<and> cap t' = cap t \<and> view t' = drop n (view t)"
begin

text \<open>What goes into an empty buffer in two parts comes out in the same order.\<close>

lemma put_put_get_get:
  assumes "inv s" and "view s = []" and "xs \<noteq> []" and "ys \<noteq> []" and "length xs + length ys \<le> cap s"
    and "length xs \<le> most" and "length ys \<le> most"
  shows "\<exists>s1 s2 s3 s4. put xs s = Some s1 \<and> put ys s1 = Some s2 \<and>
    get (length xs) s2 = Some (xs, s3) \<and> get (length ys) s3 = Some (ys, s4) \<and> inv s4 \<and> view s4 = []"
proof -
  have "0 < cap s" using assms(3,5) by (cases xs) auto
  then obtain s1 where s1: "put xs s = Some s1" "inv s1" "cap s1 = cap s" "view s1 = xs"
    using put_law[OF assms(1,3,6)] assms(2,5) by auto
  have "length (view s1) < cap s1" using s1 assms(4,5) by (cases ys) auto
  then obtain s2 where s2: "put ys s1 = Some s2" "inv s2" "view s2 = xs @ ys"
    using put_law[OF s1(2) assms(4,7)] s1 assms(5) by auto
  obtain s3 where s3: "get (length xs) s2 = Some (xs, s3)" "inv s3" "view s3 = ys"
    using get_law[OF s2(2), of "length xs"] s2(3) assms(3,6) by auto
  obtain s4 where "get (length ys) s3 = Some (ys, s4)" "inv s4" "view s4 = []"
    using get_law[OF s3(2), of "length ys"] s3(3) assms(4,7) by auto
  then show ?thesis using s1 s2 s3 by blast
qed

end

subsection \<open>The contents of an area\<close>

text \<open>An area is well formed when its indices lie inside a buffer of at most 256 bytes, the range of an index.\<close>

definition area_ok :: "CircularArea \<Rightarrow> bool" where
  "area_ok ca \<longleftrightarrow> 0 < area_length ca \<and> unat (area_length ca) \<le> 256 \<and> length (data_buffer ca) = unat (area_length ca) \<and>
     unat (readidx ca) < unat (area_length ca) \<and> unat (writeidx ca) < unat (area_length ca)"

definition area_used :: "CircularArea \<Rightarrow> nat" where
  "area_used ca = (if readidx ca = writeidx ca then if b_status ca then unat (area_length ca) else 0
     else (unat (writeidx ca) + unat (area_length ca) - unat (readidx ca)) mod unat (area_length ca))"

definition area_view :: "CircularArea \<Rightarrow> uint8 list" where
  "area_view ca = take (area_used ca) (rotate (unat (readidx ca)) (data_buffer ca))"

lemma unat_ucast_8_32: "unat (ucast (w :: uint8) :: uint32) = unat w"
proof -
  have "unat w < 2 ^ 32" using unsigned_less[of w, where 'a = nat] by simp
  then show ?thesis by (simp add: unsigned_ucast_eq take_bit_nat_eq_self)
qed

lemma rotate_take_drop: "m \<le> length xs \<Longrightarrow> rotate m xs = drop m xs @ take m xs"
  by (cases "m = length xs") (simp_all add: rotate_drop_take)

lemma area_okD:
  assumes "area_ok ca"
  shows "0 < unat (area_length ca)" "unat (area_length ca) \<le> 256" "length (data_buffer ca) = unat (area_length ca)"
    "unat (readidx ca) < unat (area_length ca)" "unat (writeidx ca) < unat (area_length ca)"
  using assms unfolding area_ok_def by (auto simp: word_less_nat_alt)

lemma area_used_le: "area_ok ca \<Longrightarrow> area_used ca \<le> unat (area_length ca)"
  using area_okD(1)[of ca] by (auto simp: area_used_def intro: less_imp_le)

lemma length_area_view: "area_ok ca \<Longrightarrow> length (area_view ca) = area_used ca"
  by (simp add: area_view_def area_used_le area_okD)

text \<open>The write index is where the contents end.\<close>

lemma writeidx_used:
  assumes "area_ok ca"
  shows "unat (writeidx ca) = (unat (readidx ca) + area_used ca) mod unat (area_length ca)"
proof (cases "readidx ca = writeidx ca")
  case True
  then show ?thesis using area_okD[OF assms] by (simp add: area_used_def)
next
  case False
  have "(unat (readidx ca) + (unat (writeidx ca) + unat (area_length ca) - unat (readidx ca))) mod unat (area_length ca)
      = unat (writeidx ca)"
    using area_okD[OF assms] by simp
  then show ?thesis using False by (simp add: area_used_def mod_add_right_eq)
qed

lemma ring_distance:
  fixes r w n m :: nat
  assumes "r < n" and "m \<le> n" and "w = (r + m) mod n" and "m = n \<longrightarrow> st" and "m = 0 \<longrightarrow> \<not> st"
  shows "(if r = w then if st then n else 0 else (w + n - r) mod n) = m"
proof (cases "r + m < n")
  case True
  then show ?thesis using assms by auto
next
  case False
  then have "w = r + m - n" using assms by (simp add: mod_if)
  then show ?thesis using assms False by (cases "m = n") auto
qed

lemma area_used_eq:
  assumes "area_ok ca" and "m \<le> unat (area_length ca)" and "m = unat (area_length ca) \<longrightarrow> b_status ca"
    and "m = 0 \<longrightarrow> \<not> b_status ca"
    and "unat (writeidx ca) = (unat (readidx ca) + m) mod unat (area_length ca)"
  shows "area_used ca = m"
  using ring_distance[OF area_okD(4)[OF assms(1)] assms(2,5,3,4)]
  by (simp add: area_used_def word_unat_eq_iff)

lemma CircularAreaGetDataLength_used:
  assumes "area_ok ca"
  shows "CircularAreaGetDataLength ca = Some (word_of_nat (area_used ca))"
proof (cases "readidx ca = writeidx ca")
  case True
  then show ?thesis using area_okD[OF assms]
    by (auto simp: CircularAreaGetDataLength_def CircularAreaIsFull_def area_used_def)
next
  case False
  note ok = area_okD[OF assms]
  let ?w = "ucast (writeidx ca) :: uint32" and ?r = "ucast (readidx ca) :: uint32"
  have u: "unat ?w = unat (writeidx ca)" "unat ?r = unat (readidx ca)" by (rule unat_ucast_8_32)+
  have "unat (?w + area_length ca) = unat (writeidx ca) + unat (area_length ca)"
    using ok u by (simp add: unat_word_ariths)
  moreover have "?r \<le> ?w + area_length ca" using ok u calculation by (simp add: word_le_nat_alt)
  ultimately have "unat (?w - ?r + area_length ca) = unat (writeidx ca) + unat (area_length ca) - unat (readidx ca)"
    using u unat_sub[of ?r "?w + area_length ca"] by (simp add: algebra_simps)
  then have "unat ((?w - ?r + area_length ca) mod area_length ca) = area_used ca"
    using False by (simp add: area_used_def unat_mod)
  then have "(?w - ?r + area_length ca) mod area_length ca = word_of_nat (area_used ca)"
    using area_used_le[OF assms] ok(2) by (simp add: word_unat_eq_iff unat_of_nat)
  then show ?thesis using False ok(1)
    by (auto simp: CircularAreaGetDataLength_def CircularAreaIsFull_def)
qed

lemma unat_ucast_32_8: "unat (x :: uint32) < 256 \<Longrightarrow> unat (ucast x :: uint8) = unat x"
  by (simp add: unsigned_ucast_eq take_bit_nat_eq_self)

text \<open>The read index after a read, and the bytes read, without and with wrap-around.\<close>

lemma read_range:
  assumes ok: "area_ok ca" and m: "unat d = m" "0 < m" "m \<le> unat (area_length ca)"
  shows "\<exists>idx. CircularAreaRead_copy d ca = Some (take m (rotate (unat (readidx ca)) (data_buffer ca)), idx) \<and>
    unat idx = (unat (readidx ca) + m) mod unat (area_length ca)"
proof -
  note ok = area_okD[OF ok]
  let ?r = "ucast (readidx ca) :: uint32"
  have u: "unat ?r = unat (readidx ca)" by (rule unat_ucast_8_32)
  have add: "unat (?r + d) = unat (readidx ca) + m" using ok u m by (simp add: unat_word_ariths)
  have div: "CircularAreaDivideRdData ca d \<longleftrightarrow> unat (area_length ca) < unat (readidx ca) + m"
    using add by (simp add: CircularAreaDivideRdData_def word_le_nat_alt not_le)
  have up: "unat (area_length ca - ?r) = unat (area_length ca) - unat (readidx ca)"
    using ok u by (simp add: unat_sub word_le_nat_alt)
  show ?thesis
  proof (cases "unat (area_length ca) < unat (readidx ca) + m")
    case True
    then have down: "unat (d - (area_length ca - ?r)) = m - (unat (area_length ca) - unat (readidx ca))"
      using up m by (simp add: unat_sub word_le_nat_alt)
    have "unat (ucast (d - (area_length ca - ?r)) :: uint8) = m - (unat (area_length ca) - unat (readidx ca))"
      using down ok m by (subst unat_ucast_32_8) auto
    then show ?thesis using True div up down ok m
      by (auto simp: CircularAreaRead_copy_def memcpy_from_def rotate_take_drop mod_if Let_def)
  next
    case False
    have "unat ((?r + d) mod area_length ca) = (unat (readidx ca) + m) mod unat (area_length ca)"
      using add by (simp add: unat_mod)
    moreover have "(unat (readidx ca) + m) mod unat (area_length ca) < 256"
      using ok(2) mod_less_divisor[OF ok(1), of "unat (readidx ca) + m"] by linarith
    ultimately have "unat (ucast ((?r + d) mod area_length ca) :: uint8) = (unat (readidx ca) + m) mod unat (area_length ca)"
      by (simp add: unat_ucast_32_8)
    then show ?thesis using False div ok m
      by (auto simp: CircularAreaRead_copy_def memcpy_from_def rotate_take_drop)
  qed
qed

lemma area_view_read:
  assumes ok: "area_ok ca" and m: "0 < m" "m \<le> area_used ca"
    and idx: "unat idx = (unat (readidx ca) + m) mod unat (area_length ca)"
    and ca': "ca' = ca\<lparr>readidx := idx, b_status := False\<rparr>"
  shows "area_ok ca'" and "area_view ca' = drop m (area_view ca)"
proof -
  note okD = area_okD[OF ok]
  show ok': "area_ok ca'" using okD idx by (simp add: area_ok_def ca' word_less_nat_alt)
  have used: "area_used ca' = area_used ca - m"
  proof (rule area_used_eq[OF ok'])
    show "unat (writeidx ca') = (unat (readidx ca') + (area_used ca - m)) mod unat (area_length ca')"
      using writeidx_used[OF ok] m mod_add_left_eq[of "unat (readidx ca) + m" "unat (area_length ca)" "area_used ca - m"]
      by (simp add: ca' idx)
  qed (use m okD(1) area_used_le[OF ok] in \<open>auto simp: ca'\<close>)
  let ?x = "rotate (unat (readidx ca)) (data_buffer ca)"
  have "rotate (unat idx) (data_buffer ca) = rotate m ?x"
    using rotate_conv_mod[of "unat (readidx ca) + m" "data_buffer ca"] okD(3)
    by (simp add: idx rotate_rotate add.commute)
  moreover have "rotate m ?x = drop m ?x @ take m ?x"
    using m(2) area_used_le[OF ok] okD(3) by (intro rotate_take_drop) simp
  ultimately show "area_view ca' = drop m (area_view ca)"
    using m(2) area_used_le[OF ok] okD(3) used by (simp add: area_view_def ca' drop_take)
qed

lemma CircularAreaRead_view:
  assumes ok: "area_ok ca" and dl: "data_length \<noteq> 0" and ne: "area_view ca \<noteq> []"
  shows "\<exists>ca'. CircularAreaRead data_length ca = Some (EOK, take (unat data_length) (area_view ca), ca') \<and>
    area_ok ca' \<and> area_length ca' = area_length ca \<and> area_view ca' = drop (unat data_length) (area_view ca)"
proof -
  note okD = area_okD[OF ok] and le = area_used_le[OF ok]
  define d where "d = (if data_length > word_of_nat (area_used ca) then word_of_nat (area_used ca) else data_length)"
  have n: "unat (word_of_nat (area_used ca) :: uint32) = area_used ca"
    using le okD(2) by (simp add: unat_of_nat)
  have pos: "0 < area_used ca" using ne length_area_view[OF ok] by (cases "area_view ca") auto
  have m: "unat d = min (unat data_length) (area_used ca)" using n by (auto simp: d_def word_less_nat_alt)
  have dl': "0 < unat data_length" using dl by (simp add: unat_gt_0)
  have empty: "\<not> CircularAreaIsEmpty ca" using pos by (auto simp: CircularAreaIsEmpty_def area_used_def split: if_splits)
  let ?m = "min (unat data_length) (area_used ca)"
  have bnd: "0 < ?m" "?m \<le> unat (area_length ca)" using pos dl' le by auto
  obtain idx :: uint8 where idx: "unat idx = (unat (readidx ca) + ?m) mod unat (area_length ca)"
    and run: "CircularAreaRead data_length ca = Some (EOK, take ?m (rotate (unat (readidx ca)) (data_buffer ca)), ca\<lparr>readidx := idx, b_status := False\<rparr>)"
    using read_range[OF ok m bnd] dl empty CircularAreaGetDataLength_used[OF ok]
    by (auto simp: CircularAreaRead_def d_def[symmetric])
  show ?thesis
    using area_view_read[OF ok bnd(1) _ idx refl] run by (simp add: area_view_def min_def)
qed

lemma ring_put_wrap:
  assumes "w < length buf" and "u = length buf - w" and "u < k" and "k \<le> length buf" and "k \<le> length xs"
  shows "rotate w (take (k - u) (drop u xs) @ drop (k - u) (take w buf @ take u xs)) = take k xs @ drop k (rotate w buf)"
proof -
  let ?b = "take (k - u) (drop u xs)" and ?m = "drop (k - u) (take w buf)"
  have split: "take u xs @ ?b = take k xs" using assms(3) take_add[of u "k - u" xs] by simp
  have len: "length ?b + length ?m = w" "length (take u xs) = u" using assms by auto
  have "drop (k - u) (take w buf @ take u xs) = ?m @ take u xs" using assms by simp
  then have "rotate w (?b @ drop (k - u) (take w buf @ take u xs)) = rotate (length (?b @ ?m)) ((?b @ ?m) @ take u xs)"
    using len by simp
  also have "\<dots> = take k xs @ ?m" by (simp only: rotate_append append_assoc[symmetric] split)
  also have "?m = drop k (rotate w buf)" using assms by (simp add: rotate_take_drop)
  finally show ?thesis .
qed

text \<open>The buffer after a write, seen from the write index, starts with what was written.\<close>

lemma write_range:
  assumes ok: "area_ok ca" and k: "unat d = k" "0 < k" "k \<le> unat (area_length ca)" "k \<le> length input"
  shows "\<exists>buf idx. CircularAreaWrite_copy input d ca = Some (buf, idx) \<and> length buf = length (data_buffer ca) \<and>
    rotate (unat (writeidx ca)) buf = take k input @ drop k (rotate (unat (writeidx ca)) (data_buffer ca)) \<and>
    unat idx = (unat (writeidx ca) + k) mod unat (area_length ca)"
proof -
  note ok = area_okD[OF ok]
  let ?w = "ucast (writeidx ca) :: uint32" and ?u = "unat (area_length ca) - unat (writeidx ca)"
  have u: "unat ?w = unat (writeidx ca)" by (rule unat_ucast_8_32)
  have add: "unat (?w + d) = unat (writeidx ca) + k" using ok u k by (simp add: unat_word_ariths)
  have div: "CircularAreaDivideWrData ca d \<longleftrightarrow> unat (area_length ca) < unat (writeidx ca) + k"
    using add by (simp add: CircularAreaDivideWrData_def word_le_nat_alt not_le)
  have up: "unat (area_length ca - ?w) = unat (area_length ca) - unat (writeidx ca)"
    using ok u by (simp add: unat_sub word_le_nat_alt)
  show ?thesis
  proof (cases "unat (area_length ca) < unat (writeidx ca) + k")
    case True
    then have down: "unat (d - (area_length ca - ?w)) = k - (unat (area_length ca) - unat (writeidx ca))"
      using up k by (simp add: unat_sub word_le_nat_alt)
    have "unat (ucast (d - (area_length ca - ?w)) :: uint8) = k - (unat (area_length ca) - unat (writeidx ca))"
      using down ok k by (subst unat_ucast_32_8) auto
    moreover have "(unat (writeidx ca) + k) mod unat (area_length ca) = k - (unat (area_length ca) - unat (writeidx ca))"
      using True ok k by (simp add: mod_if add.commute)
    moreover have "CircularAreaWrite_copy input d ca =
        Some (take (k - ?u) (drop ?u input) @ drop (k - ?u) (take (unat (writeidx ca)) (data_buffer ca) @ take ?u input),
          ucast (d - (area_length ca - ?w)))"
      using True div up down ok k
      by (simp add: CircularAreaWrite_copy_def memcpy_from_def memcpy_to_def Let_def) linarith
    ultimately show ?thesis
      using True ok k ring_put_wrap[of "unat (writeidx ca)" "data_buffer ca" ?u k input] by simp
  next
    case False
    have "unat ((?w + d) mod area_length ca) = (unat (writeidx ca) + k) mod unat (area_length ca)"
      using add by (simp add: unat_mod)
    moreover have "(unat (writeidx ca) + k) mod unat (area_length ca) < 256"
      using ok(2) mod_less_divisor[OF ok(1), of "unat (writeidx ca) + k"] by linarith
    ultimately have "unat (ucast ((?w + d) mod area_length ca) :: uint8) = (unat (writeidx ca) + k) mod unat (area_length ca)"
      by (simp add: unat_ucast_32_8)
    then show ?thesis using False div ok k
      by (simp add: CircularAreaWrite_copy_def memcpy_from_def memcpy_to_def rotate_take_drop add.commute)
  qed
qed

lemma area_view_write:
  assumes ok: "area_ok ca" and k: "0 < k" "area_used ca + k \<le> unat (area_length ca)" "k \<le> length input"
    and buf: "length buf = length (data_buffer ca)"
      "rotate (unat (writeidx ca)) buf = take k input @ drop k (rotate (unat (writeidx ca)) (data_buffer ca))"
    and idx: "unat idx = (unat (writeidx ca) + k) mod unat (area_length ca)"
    and ca': "ca' = ca\<lparr>data_buffer := buf, writeidx := idx, b_status := True\<rparr>"
  shows "area_ok ca'" and "area_view ca' = area_view ca @ take k input"
proof -
  note okD = area_okD[OF ok]
  show ok': "area_ok ca'" using okD idx buf(1) by (simp add: area_ok_def ca' word_less_nat_alt)
  have used: "area_used ca' = area_used ca + k"
  proof (rule area_used_eq[OF ok'])
    show "unat (writeidx ca') = (unat (readidx ca') + (area_used ca + k)) mod unat (area_length ca')"
      using writeidx_used[OF ok] mod_add_left_eq[of "unat (readidx ca) + area_used ca" "unat (area_length ca)" k]
      by (simp add: ca' idx add.assoc)
  qed (use k in \<open>auto simp: ca'\<close>)
  let ?x = "rotate (unat (readidx ca)) (data_buffer ca)" and ?y = "rotate (unat (readidx ca)) buf"
  let ?n = "area_used ca"
  have rot: "rotate (unat (writeidx ca)) zs = drop ?n (rotate (unat (readidx ca)) zs) @ take ?n (rotate (unat (readidx ca)) zs)"
    if "length zs = unat (area_length ca)" for zs :: "uint8 list"
    using rotate_conv_mod[of "unat (readidx ca) + ?n" zs] that writeidx_used[OF ok] k
      rotate_take_drop[of ?n "rotate (unat (readidx ca)) zs"]
    by (simp add: rotate_rotate add.commute)
  have "drop ?n ?y @ take ?n ?y = (take k input @ drop (?n + k) ?x) @ take ?n ?x"
    using buf okD(3) k rot[of buf] rot[of "data_buffer ca"] by (simp add: add.commute)
  moreover have "length (drop ?n ?y) = length (take k input @ drop (?n + k) ?x)" using buf(1) okD(3) k by simp
  ultimately have "drop ?n ?y = take k input @ drop (?n + k) ?x" "take ?n ?y = take ?n ?x"
    using append_eq_append_conv by blast+
  then have "take (?n + k) ?y = take ?n ?x @ take k input"
    using k by (simp add: take_add)
  then show "area_view ca' = area_view ca @ take k input" by (simp add: area_view_def used) (simp add: ca')
qed

lemma CircularAreaWrite_view:
  assumes ok: "area_ok ca" and dl: "data_length \<noteq> 0" "unat data_length = length input"
    and free: "area_used ca < unat (area_length ca)"
  shows "\<exists>ca'. CircularAreaWrite input data_length False ca = Some (EOK, ca') \<and>
    area_ok ca' \<and> area_length ca' = area_length ca \<and>
    area_view ca' = area_view ca @ take (unat (area_length ca) - area_used ca) input"
proof -
  note okD = area_okD[OF ok] and le = area_used_le[OF ok]
  define fr where "fr = area_length ca - word_of_nat (area_used ca)"
  define d where "d = (if data_length > fr then fr else data_length)"
  have "unat (word_of_nat (area_used ca) :: uint32) = area_used ca"
    using le okD(2) by (simp add: unat_of_nat)
  then have fr: "unat fr = unat (area_length ca) - area_used ca" using le by (simp add: fr_def unat_sub word_le_nat_alt)
  then have k: "unat d = min (length input) (unat (area_length ca) - area_used ca)"
    using dl by (auto simp: d_def word_less_nat_alt)
  let ?k = "min (length input) (unat (area_length ca) - area_used ca)"
  have bnd: "0 < ?k" "?k \<le> unat (area_length ca)" "?k \<le> length input" "area_used ca + ?k \<le> unat (area_length ca)"
    using free dl by (auto simp: min_def unat_gt_0 simp flip: dl(2))
  have full: "\<not> CircularAreaIsFull ca" using free by (auto simp: CircularAreaIsFull_def area_used_def)
  obtain buf idx where w: "CircularAreaWrite_copy input d ca = Some (buf, idx)"
    and buf: "length buf = length (data_buffer ca)"
      "rotate (unat (writeidx ca)) buf = take ?k input @ drop ?k (rotate (unat (writeidx ca)) (data_buffer ca))"
    and idx: "unat idx = (unat (writeidx ca) + ?k) mod unat (area_length ca)"
    using write_range[OF ok k bnd(1-3)] by blast
  have "CircularAreaWrite input data_length False ca =
      Some (EOK, ca\<lparr>data_buffer := buf, writeidx := idx, b_status := True\<rparr>)"
    using dl full w CircularAreaGetDataLength_used[OF ok]
    by (simp add: CircularAreaWrite_def fr_def[symmetric] d_def[symmetric])
  then show ?thesis
    using area_view_write[OF ok bnd(1,4,3) buf idx refl] by (simp add: min_def)
qed

subsection \<open>An area as a first-in first-out buffer\<close>

definition area_put :: "uint8 list \<Rightarrow> CircularArea \<Rightarrow> CircularArea option" where
  "area_put xs ca = map_option snd (CircularAreaWrite xs (word_of_nat (length xs)) False ca)"

definition area_get :: "nat \<Rightarrow> CircularArea \<Rightarrow> (uint8 list \<times> CircularArea) option" where
  "area_get n ca = map_option snd (CircularAreaRead (word_of_nat n) ca)"

definition area_cap :: "CircularArea \<Rightarrow> nat" where
  "area_cap ca = unat (CircularAreaGetMaxLength ca)"

lemma length_word32:
  assumes "0 < n" and "n \<le> 2 ^ 32 - 1"
  shows "(word_of_nat n :: uint32) \<noteq> 0" and "unat (word_of_nat n :: uint32) = n"
proof -
  show "unat (word_of_nat n :: uint32) = n" using assms(2) by (simp add: unat_of_nat)
  then show "(word_of_nat n :: uint32) \<noteq> 0" using assms(1) by (metis less_numeral_extra(3) unsigned_0)
qed

interpretation ca: byte_fifo "2 ^ 32 - 1" area_ok area_view area_cap area_put area_get
proof unfold_locales
  fix ca and xs :: "uint8 list"
  assume a: "area_ok ca" "xs \<noteq> []" "length xs \<le> 2 ^ 32 - 1" "length (area_view ca) < area_cap ca"
  then have "0 < length xs" by simp
  note w = length_word32[OF this a(3)]
  show "\<exists>s'. area_put xs ca = Some s' \<and> area_ok s' \<and> area_cap s' = area_cap ca \<and>
      area_view s' = area_view ca @ take (area_cap ca - length (area_view ca)) xs"
    using CircularAreaWrite_view[OF a(1) w(1,2)] a(4) length_area_view[OF a(1)]
    by (auto simp: area_put_def area_cap_def CircularAreaGetMaxLength_def)
next
  fix ca and n :: nat
  assume a: "area_ok ca" "0 < n" "n \<le> 2 ^ 32 - 1" "area_view ca \<noteq> []"
  note w = length_word32[OF a(2,3)]
  show "\<exists>t'. area_get n ca = Some (take n (area_view ca), t') \<and> area_ok t' \<and> area_cap t' = area_cap ca \<and>
      area_view t' = drop n (area_view ca)"
    using CircularAreaRead_view[OF a(1) w(1) a(4)] w(2)
    by (auto simp: area_get_def area_cap_def CircularAreaGetMaxLength_def)
qed

lemma area_used_bounds:
  assumes "area_ok ca"
  shows "area_used ca = 0 \<longleftrightarrow> CircularAreaIsEmpty ca"
    and "area_used ca = unat (area_length ca) \<longleftrightarrow> CircularAreaIsFull ca"
proof -
  have ne: "0 < area_used ca \<and> area_used ca < unat (area_length ca)" if ne: "readidx ca \<noteq> writeidx ca"
  proof
    show "0 < area_used ca"
    proof (rule gr0I)
      assume "area_used ca = 0"
      then have "unat (writeidx ca) = unat (readidx ca)" using writeidx_used[OF assms] area_okD(4)[OF assms] by simp
      then show False using ne by (simp add: word_unat_eq_iff)
    qed
    show "area_used ca < unat (area_length ca)" using ne area_okD(1)[OF assms] by (simp add: area_used_def)
  qed
  have eq: "area_used ca = (if b_status ca then unat (area_length ca) else 0)" if "readidx ca = writeidx ca"
    using that by (simp add: area_used_def)
  show "area_used ca = 0 \<longleftrightarrow> CircularAreaIsEmpty ca"
    and "area_used ca = unat (area_length ca) \<longleftrightarrow> CircularAreaIsFull ca"
    using ne eq area_okD(1)[OF assms] by (cases "readidx ca = writeidx ca"; simp add: CircularAreaIsEmpty_def CircularAreaIsFull_def)+
qed

lemma area_view_empty: "area_ok ca \<Longrightarrow> area_view ca = [] \<longleftrightarrow> CircularAreaIsEmpty ca"
  using length_area_view[of ca] area_used_bounds(1)[of ca] by auto

lemma CircularAreaWrite_cases:
  assumes "area_ok ca" and "data_length \<noteq> 0" and "unat data_length = length input"
  shows "if CircularAreaIsFull ca then CircularAreaWrite input data_length False ca = Some (ERROR, ca)
    else \<exists>ca'. CircularAreaWrite input data_length False ca = Some (EOK, ca') \<and> area_ok ca' \<and>
      area_view ca' = area_view ca @ take (area_cap ca - length (area_view ca)) input"
proof (cases "CircularAreaIsFull ca")
  case False
  then have "area_used ca < unat (area_length ca)"
    using area_used_bounds(2)[OF assms(1)] area_used_le[OF assms(1)] by auto
  then show ?thesis using CircularAreaWrite_view[OF assms] False length_area_view[OF assms(1)]
    by (auto simp: area_cap_def CircularAreaGetMaxLength_def)
qed (simp add: CircularAreaWrite_def assms(2))

lemma CircularAreaRead_cases:
  assumes "area_ok ca" and "data_length \<noteq> 0"
  shows "if CircularAreaIsEmpty ca then CircularAreaRead data_length ca = Some (ERROR, [], ca)
    else \<exists>ca'. CircularAreaRead data_length ca = Some (EOK, take (unat data_length) (area_view ca), ca') \<and>
      area_ok ca' \<and> area_view ca' = drop (unat data_length) (area_view ca)"
proof (cases "CircularAreaIsEmpty ca")
  case True
  then show ?thesis using assms(2) by (simp add: CircularAreaRead_def)
next
  case False
  then show ?thesis using CircularAreaRead_view[OF assms] area_view_empty[OF assms(1)] by auto
qed


definition demo_area :: "nat \<Rightarrow> CircularArea" where
  "demo_area n = \<lparr>data_buffer = replicate n 0, readidx = 3, writeidx = 3, area_length = word_of_nat n, b_status = False\<rparr>"


text \<open>C26: What is written into an empty area in two parts, if both fit, is read back in the same order,
  wherever the indices stand, and the area is empty again.\<close>

theorem CircularArea_roundtrip:
  assumes "area_ok ca" and "CircularAreaIsEmpty ca" and "xs \<noteq> []" and "ys \<noteq> []"
    and "length xs + length ys \<le> area_cap ca"
  shows "\<exists>s1 s2 s3 s4. area_put xs ca = Some s1 \<and> area_put ys s1 = Some s2 \<and>
    area_get (length xs) s2 = Some (xs, s3) \<and> area_get (length ys) s3 = Some (ys, s4) \<and>
    area_ok s4 \<and> CircularAreaIsEmpty s4"
proof -
  have "area_cap ca \<le> 256" using area_okD(2)[OF assms(1)] by (simp add: area_cap_def CircularAreaGetMaxLength_def)
  then show ?thesis
    using ca.put_put_get_get[OF assms(1) _ assms(3-5)] area_view_empty[OF assms(1)] assms(2,5) area_view_empty by fastforce
qed

theorem CircularArea_roundtrip_witness:
  "\<exists>s1 s2 s3 s4. area_put [1, 2] (demo_area 4) = Some s1 \<and> area_put [5] s1 = Some s2 \<and>
    area_get 2 s2 = Some ([1, 2], s3) \<and> area_get 1 s3 = Some ([5], s4) \<and> area_ok s4 \<and> CircularAreaIsEmpty s4"
proof -
  have "area_ok (demo_area 4)" "CircularAreaIsEmpty (demo_area 4)" "area_cap (demo_area 4) = 4"
    by (simp_all add: demo_area_def area_ok_def area_cap_def CircularAreaGetMaxLength_def CircularAreaIsEmpty_def)
  then show ?thesis using CircularArea_roundtrip[of "demo_area 4" "[1, 2]" "[5]"] by (simp add: numeral_2_eq_2)
qed

text \<open>C37: The indices are 8 bits wide while an area may be longer: a write of 256 or more bytes that fits into
  a new, larger area reports success, but the area then holds only the length modulo 256, or claims to be full
  when that is 0.\<close>

theorem CircularAreaWrite_index_wraps:
  assumes init: "CircularAreaInit align True (Some buf) len = Some (Some ca)" and buf: "length buf = unat (area_length ca)"
    and n: "256 \<le> length input" "length input < unat (area_length ca)" "unat (area_length ca) < 2 ^ 31"
  shows "\<exists>ca'. CircularAreaWrite input (word_of_nat (length input)) False ca = Some (EOK, ca') \<and>
    CircularAreaGetDataLength ca' =
      Some (if length input mod 256 = 0 then area_length ca else word_of_nat (length input mod 256))"
proof -
  have ca: "readidx ca = 0" "writeidx ca = 0" "\<not> b_status ca" "data_buffer ca = buf"
    using init by (auto simp: CircularAreaInit_def Let_def split: if_splits)
  define d :: uint32 where "d = word_of_nat (length input)"
  define idx :: uint8 where "idx = word_of_nat (length input)"
  have d1: "unat d = length input" using n by (simp add: d_def unat_of_nat)
  have d: "unat d = length input" "d \<noteq> 0" "d < area_length ca" using d1 n by (auto simp: word_less_nat_alt)
  have idx: "unat idx = length input mod 256" by (simp add: idx_def unat_of_nat)
  have len: "CircularAreaGetDataLength ca = Some 0"
    using ca n by (auto simp: CircularAreaGetDataLength_def CircularAreaIsFull_def)
  have mod: "d mod area_length ca = d" using d(3) by (simp add: word_unat_eq_iff unat_mod word_less_nat_alt)
  have "ucast d = idx" using d1 idx by (simp add: word_unat_eq_iff unsigned_ucast_eq take_bit_eq_mod)
  then have copy: "CircularAreaWrite_copy input d ca = Some (input @ drop (length input) buf, idx)"
    using ca d n buf mod by (simp add: CircularAreaWrite_copy_def CircularAreaDivideWrData_def memcpy_from_def memcpy_to_def)
  let ?ca = "ca\<lparr>data_buffer := input @ drop (length input) buf, writeidx := idx, b_status := True\<rparr>"
  have "CircularAreaWrite input d False ca = Some (EOK, ?ca)"
    using ca d len copy by (auto simp: CircularAreaWrite_def CircularAreaIsFull_def Let_def)
  moreover have "CircularAreaGetDataLength ?ca =
      Some (if length input mod 256 = 0 then area_length ca else word_of_nat (length input mod 256))"
  proof (cases "length input mod 256 = 0")
    case True
    then have "idx = 0" using idx by (simp add: unat_eq_zero)
    then show ?thesis using True ca by (simp add: CircularAreaGetDataLength_def CircularAreaIsFull_def)
  next
    case False
    then have nz: "idx \<noteq> 0" using idx by (metis unsigned_0)
    have "unat (ucast idx + area_length ca) = length input mod 256 + unat (area_length ca)"
      using idx n(3) unat_ucast_8_32[of idx] mod_less_divisor[of 256 "length input"] by (simp add: unat_word_ariths)
    then have "unat ((ucast idx + area_length ca) mod area_length ca) = length input mod 256"
      using n by (simp add: unat_mod)
    then have "(ucast idx + area_length ca) mod area_length ca = word_of_nat (length input mod 256)"
      by (simp add: word_unat_eq_iff unat_of_nat)
    then show ?thesis using False nz ca n by (auto simp: CircularAreaGetDataLength_def CircularAreaIsFull_def)
  qed
  ultimately show ?thesis unfolding d_def by blast
qed

theorem CircularAreaWrite_index_wraps_witness:
  "\<exists>ca ca'. CircularAreaInit 8 True (Some (replicate 512 0)) 512 = Some (Some ca) \<and>
    CircularAreaWrite (replicate 300 1) 300 False ca = Some (EOK, ca') \<and> CircularAreaGetDataLength ca' = Some 44"
proof -
  let ?ca = "\<lparr>data_buffer = replicate 512 0, readidx = 0, writeidx = 0, area_length = 512, b_status = False\<rparr>"
  have "CircularAreaInit 8 True (Some (replicate 512 0)) 512 = Some (Some ?ca)"
    by (simp add: CircularAreaInit_def ALIGN_MEN_DOWN_def Let_def)
  then show ?thesis
    using CircularAreaWrite_index_wraps[of 8 "replicate 512 0" 512 ?ca "replicate 300 1"] by auto
qed

end
