(* ===== verification/MsgQueue.thy ===== *)
theory MsgQueue
  imports Event CircularArea
begin

text \<open>
  Message queues (\<^verbatim>\<open>msgqueue.c\<close>). A queue is a ring of \<open>max_msgs\<close> slots of \<open>each_len\<close> bytes; senders wait in
  \<open>MqSendPend i\<close>, receivers in \<open>MqRecvPend i\<close>. The identifier of a queue that has been freed stays registered: it maps to
  \<open>Some None\<close>, and using it has no result. A call that waits may wait several times; \<open>_loop\<close> is one turn of its
  waiting loop, \<open>_resume\<close> continues it after the wait that started at the given tick. Timeouts are 32-bit integers read as signed.
\<close>

record MsgQueue =
  msg_buf :: "uint8 list"
  mq_index :: uint16
  num_msgs :: uint16
  each_len :: uint16
  max_msgs :: uint16

record mqk = eventk +
  k_mq_id_manager :: "nat \<rightharpoonup> MsgQueue option"
  k_mq_list :: "nat list"

definition set_mq :: "nat \<Rightarrow> MsgQueue option \<Rightarrow> 'a mqk_scheme \<Rightarrow> 'a mqk_scheme" where
  "set_mq i mq s = s\<lparr>k_mq_id_manager := (k_mq_id_manager s)(i \<mapsto> mq)\<rparr>"

definition get_mq :: "nat \<Rightarrow> 'a mqk_scheme \<Rightarrow> MsgQueue option" where
  "get_mq i s = Option.bind (k_mq_id_manager s i) (\<lambda>mq. mq)"

definition GetMsgQueueById :: "int \<Rightarrow> 'a mqk_scheme \<Rightarrow> nat option" where
  "GetMsgQueueById i s = (if i < 0 then None
     else case id_get (k_mq_id_manager s) i of None \<Rightarrow> None | Some _ \<Rightarrow> Some (id_trunc i))"

text \<open>\<open>buf\<close> is the result of the allocation of the message buffer.\<close>

definition InitMsgQueue :: "nat \<Rightarrow> uint8 list option \<Rightarrow> nat \<Rightarrow> uint32 \<Rightarrow> uint32 \<Rightarrow> 'a mqk_scheme \<Rightarrow> x_err_t \<times> 'a mqk_scheme" where
  "InitMsgQueue MEM_ALIGN_SIZE buf i msg_size maxm s =
     (let s = s\<lparr>lists := (lists s)(MqSendPend i := [], MqRecvPend i := [])\<rparr> in
      case buf of
        None \<Rightarrow> (- ENOMEMORY, set_mq i None (s\<lparr>k_mq_list := removeAll i (k_mq_list s)\<rparr>))
      | Some b \<Rightarrow> (EOK, set_mq i (Some \<lparr>msg_buf = b, mq_index = 0, num_msgs = 0,
           each_len = word_of_nat (ALIGN_MEN_UP (unat msg_size) MEM_ALIGN_SIZE), max_msgs = ucast maxm\<rparr>) s))"

text \<open>The slot the next message goes to, and the end of a successful send.\<close>

definition mq_put :: "uint8 list \<Rightarrow> uint32 \<Rightarrow> MsgQueue \<Rightarrow> MsgQueue option" where
  "mq_put buffer sz mq = do {
     a \<leftarrow> memcpy_from buffer 0 (unat sz);
     b \<leftarrow> memcpy_to (msg_buf mq) ((unat (mq_index mq) + unat (num_msgs mq)) mod unat (max_msgs mq) * unat (each_len mq)) a;
     Some (mq\<lparr>msg_buf := b, num_msgs := num_msgs mq + 1\<rparr>) }"

definition mq_wake :: "lhead \<Rightarrow> 'a mqk_scheme \<Rightarrow> 'a mqk_scheme option" where
  "mq_wake l s =
     (if lists s l \<noteq> [] then do {
        (_, s) \<leftarrow> LinklistResume l s;
        let s = CriticalAreaUnLock s;
        DO_KTASK_ASSIGN s }
      else Some (CriticalAreaUnLock s))"

text \<open>Suspending the caller on one of the lists of a queue.\<close>

definition mq_wait :: "bool \<Rightarrow> lhead \<Rightarrow> tid \<Rightarrow> uint32 \<Rightarrow> 'a mqk_scheme \<Rightarrow> 'a mqk_scheme option" where
  "mq_wait mem l task timeout s = do {
     (_, s) \<leftarrow> LinklistSuspend l task LINKLIST_FLAG_FIFO s;
     s \<leftarrow> (if sint timeout > 0 then do { (_, s) \<leftarrow> KTaskSetDelay mem task timeout s; Some s } else Some s);
     let s = CriticalAreaUnLock s;
     DO_KTASK_ASSIGN s }"

text \<open>What is left of a timeout after a wait that started at \<open>tick\<close>.\<close>

definition mq_rest :: "uint32 \<Rightarrow> uint32 \<Rightarrow> uint32 \<Rightarrow> uint32" where
  "mq_rest now tick timeout =
     (if sint timeout > 0 then if sint (timeout - (now - tick)) < 0 then 0 else timeout - (now - tick) else timeout)"

definition MsgQueueSend_loop :: "bool \<Rightarrow> nat \<Rightarrow> uint8 list \<Rightarrow> uint32 \<Rightarrow> uint32 \<Rightarrow> 'a mqk_scheme \<Rightarrow>
    (outcome \<times> 'a mqk_scheme) option" where
  "MsgQueueSend_loop mem i buffer sz timeout s = do {
     mq \<leftarrow> get_mq i s;
     if num_msgs mq \<ge> max_msgs mq then do {
       task \<leftarrow> GetKTaskDescriptor s;
       s \<leftarrow> upd_task task (\<lambda>d. d\<lparr>exstatus := EOK\<rparr>) s;
       if timeout = 0 then Some (Ret (- EFULL), CriticalAreaUnLock s)
       else do { s \<leftarrow> mq_wait mem (MqSendPend i) task timeout s; Some (Wait, s) } }
     else do {
       mq \<leftarrow> mq_put buffer sz mq;
       s \<leftarrow> mq_wake (MqRecvPend i) (set_mq i (Some mq) s);
       Some (Ret EOK, s) } }"

definition MsgQueueSend :: "bool \<Rightarrow> nat \<Rightarrow> uint8 list \<Rightarrow> uint32 \<Rightarrow> uint32 \<Rightarrow> 'a mqk_scheme \<Rightarrow> (outcome \<times> 'a mqk_scheme) option" where
  "MsgQueueSend mem i buffer sz msec s = do {
     mq \<leftarrow> get_mq i s;
     if unat sz > unat (each_len mq) then Some (Ret (- ERROR), s)
     else let timeout = CalculteTickFromTimeMs (TICK_PER_SECOND (cfg s)) msec; s = CriticalAreaLock s in
       if num_msgs mq \<ge> max_msgs mq \<and> timeout = 0 then Some (Ret (- EFULL), CriticalAreaUnLock s)
       else MsgQueueSend_loop mem i buffer sz timeout s }"

definition MsgQueueSend_resume :: "bool \<Rightarrow> nat \<Rightarrow> uint8 list \<Rightarrow> uint32 \<Rightarrow> uint32 \<Rightarrow> uint32 \<Rightarrow> 'a mqk_scheme \<Rightarrow>
    (outcome \<times> 'a mqk_scheme) option" where
  "MsgQueueSend_resume mem i buffer sz timeout tick s = do {
     task \<leftarrow> GetKTaskDescriptor s;
     d \<leftarrow> tasks s task;
     if exstatus d \<noteq> EOK then Some (Ret (exstatus d), s)
     else MsgQueueSend_loop mem i buffer sz (mq_rest (CurrentTicksGain s) tick timeout) (CriticalAreaLock s) }"

definition MsgQueueUrgentSend :: "nat \<Rightarrow> uint8 list \<Rightarrow> uint32 \<Rightarrow> 'a mqk_scheme \<Rightarrow> (x_err_t \<times> 'a mqk_scheme) option" where
  "MsgQueueUrgentSend i buffer sz s = do {
     mq \<leftarrow> get_mq i s;
     if unat sz > unat (each_len mq) then Some (- ERROR, s)
     else let s = CriticalAreaLock s in
       if num_msgs mq \<ge> max_msgs mq then Some (- EFULL, CriticalAreaUnLock s)
       else do {
         let mq = mq\<lparr>mq_index := mq_index mq - 1\<rparr>;
         let mq = (if uint (mq_index mq) < 0 then mq\<lparr>mq_index := mq_index mq + max_msgs mq\<rparr> else mq);
         mq \<leftarrow> mq_put buffer sz mq;
         s \<leftarrow> mq_wake (MqSendPend i) (set_mq i (Some mq) s);
         Some (EOK, s) } }"

definition MsgQueueRecv_loop :: "bool \<Rightarrow> nat \<Rightarrow> uint32 \<Rightarrow> uint32 \<Rightarrow> 'a mqk_scheme \<Rightarrow>
    (outcome \<times> uint8 list \<times> 'a mqk_scheme) option" where
  "MsgQueueRecv_loop mem i sz timeout s = do {
     mq \<leftarrow> get_mq i s;
     if num_msgs mq \<le> 0 then do {
       task \<leftarrow> GetKTaskDescriptor s;
       s \<leftarrow> upd_task task (\<lambda>d. d\<lparr>exstatus := EOK\<rparr>) s;
       if timeout = 0 then do {
         let s = CriticalAreaUnLock s;
         s \<leftarrow> upd_task task (\<lambda>d. d\<lparr>exstatus := - ETIMEOUT\<rparr>) s;
         Some (Ret (- ETIMEOUT), [], s) }
       else do { s \<leftarrow> mq_wait mem (MqRecvPend i) task timeout s; Some (Wait, [], s) } }
     else if max_msgs mq = 0 then None
     else do {
       out \<leftarrow> memcpy_from (msg_buf mq) (unat (mq_index mq) * unat (each_len mq))
         (if unat sz > unat (each_len mq) then unat (each_len mq) else unat sz);
       let mq = mq\<lparr>mq_index := word_of_nat ((unat (mq_index mq) + 1) mod unat (max_msgs mq)), num_msgs := num_msgs mq - 1\<rparr>;
       s \<leftarrow> mq_wake (MqSendPend i) (set_mq i (Some mq) s);
       Some (Ret EOK, out, s) } }"

definition MsgQueueRecv :: "bool \<Rightarrow> nat \<Rightarrow> uint32 \<Rightarrow> uint32 \<Rightarrow> 'a mqk_scheme \<Rightarrow> (outcome \<times> uint8 list \<times> 'a mqk_scheme) option" where
  "MsgQueueRecv mem i sz msec s = do {
     mq \<leftarrow> get_mq i s;
     let timeout = CalculteTickFromTimeMs (TICK_PER_SECOND (cfg s)) msec;
     let s = CriticalAreaLock s;
     if mq_index mq = 0 \<and> timeout = 0 then Some (Ret (- ETIMEOUT), [], CriticalAreaUnLock s)
     else MsgQueueRecv_loop mem i sz timeout s }"

definition MsgQueueRecv_resume :: "bool \<Rightarrow> nat \<Rightarrow> uint32 \<Rightarrow> uint32 \<Rightarrow> uint32 \<Rightarrow> 'a mqk_scheme \<Rightarrow>
    (outcome \<times> uint8 list \<times> 'a mqk_scheme) option" where
  "MsgQueueRecv_resume mem i sz timeout tick s = do {
     task \<leftarrow> GetKTaskDescriptor s;
     d \<leftarrow> tasks s task;
     if exstatus d \<noteq> EOK then Some (Ret (exstatus d), [], s)
     else MsgQueueRecv_loop mem i sz (mq_rest (CurrentTicksGain s) tick timeout) (CriticalAreaLock s) }"

definition MsgQueueReinit :: "nat \<Rightarrow> 'a mqk_scheme \<Rightarrow> (x_err_t \<times> 'a mqk_scheme) option" where
  "MsgQueueReinit i s = do {
     let s = CriticalAreaLock s;
     (_, s) \<leftarrow> LinklistResumeAll (MqSendPend i) s;
     (_, s) \<leftarrow> LinklistResumeAll (MqRecvPend i) s;
     mq \<leftarrow> get_mq i s;
     let s = set_mq i (Some (mq\<lparr>mq_index := 0, num_msgs := 0\<rparr>)) s;
     let s = CriticalAreaUnLock s;
     s \<leftarrow> DO_KTASK_ASSIGN s;
     Some (EOK, s) }"

definition DeleteMsgQueue :: "nat \<Rightarrow> 'a mqk_scheme \<Rightarrow> (x_err_t \<times> 'a mqk_scheme) option" where
  "DeleteMsgQueue i s = do {
     (_, s) \<leftarrow> LinklistResumeAll (MqSendPend i) s;
     (_, s) \<leftarrow> LinklistResumeAll (MqRecvPend i) s;
     let s = CriticalAreaLock s;
     let s = s\<lparr>k_mq_list := removeAll i (k_mq_list s)\<rparr>;
     let s = CriticalAreaUnLock s;
     Some (EOK, set_mq i None s) }"

definition KCreateMsgQueue :: "nat \<Rightarrow> bool \<Rightarrow> uint8 list option \<Rightarrow> uint32 \<Rightarrow> uint32 \<Rightarrow> 'a mqk_scheme \<Rightarrow> int \<times> 'a mqk_scheme" where
  "KCreateMsgQueue MEM_ALIGN_SIZE mem buf msg_size maxm s =
     (if \<not> mem then (- ENOMEMORY, s)
      else case id_alloc (ID_NUM_MAX (cfg s)) (k_mq_id_manager s) of
        None \<Rightarrow> (- ENOMEMORY, s)
      | Some i \<Rightarrow>
          (let s = set_mq i (Some \<lparr>msg_buf = [], mq_index = 0, num_msgs = 0, each_len = 0, max_msgs = 0\<rparr>) s;
               s = s\<lparr>k_mq_list := i # k_mq_list s\<rparr>;
               (ret, s) = InitMsgQueue MEM_ALIGN_SIZE buf i msg_size maxm s
           in if ret = EOK then (int i, s) else (- ERROR, s)))"

text \<open>The calls go through the table of operations in the queue, so a freed queue cannot be called.\<close>

definition mq_call :: "int \<Rightarrow> (nat \<Rightarrow> 'r option) \<Rightarrow> 'r \<Rightarrow> 'a mqk_scheme \<Rightarrow> 'r option" where
  "mq_call i f err s = (if i < 0 then Some err
     else case GetMsgQueueById i s of None \<Rightarrow> Some err
     | Some k \<Rightarrow> if get_mq k s = None then None else f k)"

definition KMsgQueueReinit :: "int \<Rightarrow> 'a mqk_scheme \<Rightarrow> (x_err_t \<times> 'a mqk_scheme) option" where
  "KMsgQueueReinit i s = mq_call i (\<lambda>k. MsgQueueReinit k s) (- EINVALED, s) s"

definition KMsgQueueRecv :: "bool \<Rightarrow> int \<Rightarrow> uint32 \<Rightarrow> uint32 \<Rightarrow> 'a mqk_scheme \<Rightarrow> (outcome \<times> uint8 list \<times> 'a mqk_scheme) option" where
  "KMsgQueueRecv mem i sz timeout s = mq_call i (\<lambda>k. MsgQueueRecv mem k sz timeout s) (Ret (- EINVALED), [], s) s"

definition KDeleteMsgQueue :: "int \<Rightarrow> 'a mqk_scheme \<Rightarrow> (x_err_t \<times> 'a mqk_scheme) option" where
  "KDeleteMsgQueue i s = mq_call i (\<lambda>k. DeleteMsgQueue k s) (- EINVALED, s) s"

definition KMsgQueueUrgentSend :: "int \<Rightarrow> uint8 list \<Rightarrow> uint32 \<Rightarrow> 'a mqk_scheme \<Rightarrow> (x_err_t \<times> 'a mqk_scheme) option" where
  "KMsgQueueUrgentSend i buffer sz s = mq_call i (\<lambda>k. MsgQueueUrgentSend k buffer sz s) (- EINVALED, s) s"

definition KMsgQueueSend :: "bool \<Rightarrow> int \<Rightarrow> uint8 list \<Rightarrow> uint32 \<Rightarrow> 'a mqk_scheme \<Rightarrow> (outcome \<times> 'a mqk_scheme) option" where
  "KMsgQueueSend mem i buffer sz s = mq_call i (\<lambda>k. MsgQueueSend mem k buffer sz 0 s) (Ret (- EINVALED), s) s"

definition KMsgQueueSendwait :: "bool \<Rightarrow> int \<Rightarrow> uint8 list \<Rightarrow> uint32 \<Rightarrow> uint32 \<Rightarrow> 'a mqk_scheme \<Rightarrow> (outcome \<times> 'a mqk_scheme) option" where
  "KMsgQueueSendwait mem i buffer sz timeout s =
     mq_call i (\<lambda>k. MsgQueueSend mem k buffer sz timeout s) (Ret (- EINVALED), s) s"

subsection \<open>The messages of a queue\<close>

definition mq_ok :: "MsgQueue \<Rightarrow> bool" where
  "mq_ok mq \<longleftrightarrow> mq_index mq < max_msgs mq \<and> num_msgs mq \<le> max_msgs mq \<and>
     length (msg_buf mq) = unat (max_msgs mq) * unat (each_len mq)"

definition mq_slot :: "MsgQueue \<Rightarrow> nat \<Rightarrow> uint8 list" where
  "mq_slot mq k = take (unat (each_len mq)) (drop (k * unat (each_len mq)) (msg_buf mq))"

definition mq_view :: "MsgQueue \<Rightarrow> uint8 list list" where
  "mq_view mq = map (\<lambda>j. mq_slot mq ((unat (mq_index mq) + j) mod unat (max_msgs mq))) [0..<unat (num_msgs mq)]"

lemma mq_okD:
  assumes "mq_ok mq"
  shows "unat (mq_index mq) < unat (max_msgs mq)" "unat (num_msgs mq) \<le> unat (max_msgs mq)"
    "length (msg_buf mq) = unat (max_msgs mq) * unat (each_len mq)" "0 < unat (max_msgs mq)"
  using assms by (auto simp: mq_ok_def word_less_nat_alt word_le_nat_alt)

text \<open>Writing into one slot leaves the others alone.\<close>

lemma slot_bound: "k < n \<Longrightarrow> k * m + m \<le> n * (m :: nat)"
  using mult_le_mono1[of "Suc k" n m] by simp

lemma slot_disjoint: "j \<noteq> k \<Longrightarrow> j * m + m \<le> k * m \<or> k * m + m \<le> j * (m :: nat)"
  using slot_bound[of j k m] slot_bound[of k j m] by linarith

lemma take_drop_left: "q + m \<le> p \<Longrightarrow> p \<le> length buf \<Longrightarrow> take m (drop q (take p buf @ xs)) = take m (drop q buf)"
  by (simp add: drop_take)

lemma drop_right: "p + length a \<le> q \<Longrightarrow> p \<le> length buf \<Longrightarrow> drop q (take p buf @ a @ drop (p + length a) buf) = drop q buf"
  by simp

lemma memcpy_to_slot:
  assumes "length buf = n * m" and "k < n" and "length a \<le> m"
  shows "\<exists>b. memcpy_to buf (k * m) a = Some b \<and> length b = length buf \<and>
    take m (drop (k * m) b) = a @ drop (length a) (take m (drop (k * m) buf)) \<and>
    (\<forall>j. j \<noteq> k \<longrightarrow> j < n \<longrightarrow> take m (drop (j * m) b) = take m (drop (j * m) buf))"
proof -
  have km: "k * m + length a \<le> length buf" using slot_bound[OF assms(2), of m] assms by linarith
  let ?b = "take (k * m) buf @ a @ drop (k * m + length a) buf"
  have len: "length (take (k * m) buf) = k * m" using km by simp
  have "take m (drop (j * m) ?b) = take m (drop (j * m) buf)" if j: "j \<noteq> k" "j < n" for j
  proof (cases "j * m + m \<le> k * m")
    case True
    then show ?thesis using km by (intro take_drop_left) auto
  next
    case False
    then have "k * m + length a \<le> j * m" using slot_disjoint[OF j(1), of m] assms(3) by linarith
    then have "drop (j * m) ?b = drop (j * m) buf" using km by (intro drop_right) auto
    then show ?thesis by simp
  qed
  moreover have "take m (drop (k * m) ?b) = a @ drop (length a) (take m (drop (k * m) buf))"
    using len assms(3) by (simp add: drop_take add.commute)
  ultimately show ?thesis using km by (simp add: memcpy_to_def)
qed

lemma ring_inj: "a < n \<Longrightarrow> b < n \<Longrightarrow> i < n \<Longrightarrow> (i + a) mod n = (i + b) mod n \<Longrightarrow> a = (b :: nat)"
  by (auto simp: mod_if split: if_splits)

lemma mq_put_view:
  assumes ok: "mq_ok mq" and free: "num_msgs mq < max_msgs mq" and sz: "unat sz \<le> unat (each_len mq)" "unat sz \<le> length buffer"
  obtains mq' m where "mq_put buffer sz mq = Some mq'" "mq_ok mq'" "mq_view mq' = mq_view mq @ [m]"
    "take (unat sz) m = take (unat sz) buffer" "length m = unat (each_len mq)"
proof -
  note o = mq_okD[OF ok]
  let ?n = "unat (max_msgs mq)" and ?e = "unat (each_len mq)" and ?i = "unat (mq_index mq)" and ?c = "unat (num_msgs mq)"
  let ?k = "(?i + ?c) mod ?n" and ?a = "take (unat sz) buffer"
  have f: "?c < ?n" using free by (simp add: word_less_nat_alt)
  have k: "?k < ?n" using o(4) by simp
  have la: "length ?a \<le> ?e" using sz by simp
  obtain b where b: "memcpy_to (msg_buf mq) (?k * ?e) ?a = Some b" "length b = length (msg_buf mq)"
    "take ?e (drop (?k * ?e) b) = ?a @ drop (length ?a) (take ?e (drop (?k * ?e) (msg_buf mq)))"
    "\<forall>j. j \<noteq> ?k \<longrightarrow> j < ?n \<longrightarrow> take ?e (drop (j * ?e) b) = take ?e (drop (j * ?e) (msg_buf mq))"
    using memcpy_to_slot[OF o(3) k la] by blast
  let ?mq = "mq\<lparr>msg_buf := b, num_msgs := num_msgs mq + 1\<rparr>"
  have c: "unat (num_msgs mq + 1) = Suc ?c"
    using f unsigned_less[of "max_msgs mq", where 'a = nat] by (simp add: unat_word_ariths)
  have put: "mq_put buffer sz mq = Some ?mq" using b(1) sz(2) by (simp add: mq_put_def memcpy_from_def)
  have ok': "mq_ok ?mq" using ok b(2) c f by (simp add: mq_ok_def word_le_nat_alt)
  have old: "mq_slot ?mq ((?i + j) mod ?n) = mq_slot mq ((?i + j) mod ?n)" if "j < ?c" for j
  proof -
    have "(?i + j) mod ?n \<noteq> ?k" using ring_inj[of j ?n ?c ?i] that f o(1) by linarith
    moreover have "(?i + j) mod ?n < ?n" using o(4) by simp
    ultimately show ?thesis using b(4) by (simp add: mq_slot_def)
  qed
  then have view: "mq_view ?mq = mq_view mq @ [mq_slot ?mq ?k]" using c by (simp add: mq_view_def)
  have "take (unat sz) (mq_slot ?mq ?k) = ?a" using b(3) sz by (simp add: mq_slot_def)
  moreover have "length (mq_slot ?mq ?k) = ?e" using slot_bound[OF k, of ?e] b(2) o(3) by (simp add: mq_slot_def)
  ultimately show thesis using that[OF put ok' view] by blast
qed

definition mq_pop :: "MsgQueue \<Rightarrow> MsgQueue" where
  "mq_pop mq = mq\<lparr>mq_index := word_of_nat ((unat (mq_index mq) + 1) mod unat (max_msgs mq)), num_msgs := num_msgs mq - 1\<rparr>"

lemma mq_pop_view:
  assumes ok: "mq_ok mq" and ne: "num_msgs mq \<noteq> 0" and n: "n \<le> unat (each_len mq)"
  obtains m ms where "mq_view mq = m # ms" "mq_ok (mq_pop mq)" "mq_view (mq_pop mq) = ms" "length m = unat (each_len mq)"
    "memcpy_from (msg_buf mq) (unat (mq_index mq) * unat (each_len mq)) n = Some (take n m)"
proof -
  note o = mq_okD[OF ok]
  let ?n = "unat (max_msgs mq)" and ?e = "unat (each_len mq)" and ?i = "unat (mq_index mq)" and ?c = "unat (num_msgs mq)"
  have c: "unat (num_msgs mq - 1) = ?c - 1" "0 < ?c" using ne by (simp_all add: unat_minus_one unat_gt_0)
  have "(?i + 1) mod ?n < 2 ^ 16" using mod_less_divisor[OF o(4), of "?i + 1"] unsigned_less[of "max_msgs mq", where 'a = nat] by simp
  then have i: "unat (mq_index (mq_pop mq)) = (?i + 1) mod ?n" by (simp add: mq_pop_def unat_of_nat)
  let ?f = "\<lambda>j. mq_slot mq ((?i + j) mod ?n)"
  have up: "[0..<?c] = 0 # map Suc [0..<?c - 1]" using c(2) by (simp add: upt_conv_Cons map_Suc_upt)
  have "mq_view mq = ?f 0 # map (?f \<circ> Suc) [0..<?c - 1]" unfolding mq_view_def up by simp
  then have view: "mq_view mq = mq_slot mq ?i # map (?f \<circ> Suc) [0..<?c - 1]" using o(1) by simp
  have ok': "mq_ok (mq_pop mq)"
    using ok i o c mod_less_divisor[OF o(4)] by (simp add: mq_ok_def word_less_nat_alt word_le_nat_alt) (simp add: mq_pop_def)
  have "((?i + 1) mod ?n + j) mod ?n = (?i + Suc j) mod ?n" for j using mod_add_left_eq[of "?i + 1" ?n j] by simp
  then have view': "mq_view (mq_pop mq) = map (?f \<circ> Suc) [0..<?c - 1]"
    unfolding mq_view_def i using c by (simp add: mq_pop_def mq_slot_def)
  have bnd: "?i * ?e + ?e \<le> length (msg_buf mq)" using slot_bound[OF o(1), of ?e] o(3) by simp
  then have "memcpy_from (msg_buf mq) (?i * ?e) n = Some (take n (mq_slot mq ?i))"
    using n by (simp add: memcpy_from_def mq_slot_def)
  moreover have "length (mq_slot mq ?i) = ?e" using bnd by (simp add: mq_slot_def)
  ultimately show thesis using that[OF view ok' view'] by blast
qed

subsection \<open>Frames\<close>

lemma set_mq_simps [simp]:
  "os_inv (set_mq i m s) = os_inv s" "tasks (set_mq i m s) = tasks s" "lists (set_mq i m s) = lists s"
  "cfg (set_mq i m s) = cfg s" "os_running_task (set_mq i m s) = os_running_task s"
  "GetOsAssignLockLevel (set_mq i m s) = GetOsAssignLockLevel s" "KTaskOsAssignLockNest (set_mq i m s) = KTaskOsAssignLockNest s"
  "k_mq_id_manager (set_mq i m s) = (k_mq_id_manager s)(i \<mapsto> m)"
  "CriticalAreaUnLock (set_mq i m s) = set_mq i m (CriticalAreaUnLock s)"
  "set_mq i m (CriticalAreaLock s) = CriticalAreaLock (set_mq i m s)"
  by (simp_all add: set_mq_def os_inv_defs CriticalAreaLock_def CriticalAreaUnLock_def GetOsAssignLockLevel_def)

lemma mq_more:
  assumes "kernel.more s' = kernel.more s"
  shows "k_mq_id_manager s' = k_mq_id_manager s" "k_mq_list s' = k_mq_list s" "get_mq i s' = get_mq i s"
proof -
  show k: "k_mq_id_manager s' = k_mq_id_manager s" "k_mq_list s' = k_mq_list s" using assms by (cases s, cases s', simp)+
  show "get_mq i s' = get_mq i s" using k by (simp add: get_mq_def)
qed

lemma mq_Lock [simp]:
  "k_mq_id_manager (CriticalAreaLock s) = k_mq_id_manager s" "k_mq_id_manager (CriticalAreaUnLock s) = k_mq_id_manager s"
  "get_mq i (CriticalAreaLock s) = get_mq i s" "get_mq i (CriticalAreaUnLock s) = get_mq i s"
  "get_mq i (set_mq i m s) = m"
  by (simp_all add: CriticalAreaLock_def CriticalAreaUnLock_def get_mq_def set_mq_def)

subsection \<open>Waking and waiting\<close>

lemma mq_wake_os:
  fixes s :: "'a mqk_scheme"
  assumes inv: "os_inv s" and r: "os_running_task s = Some r" and lock: "GetOsAssignLockLevel s = 0" and l: "is_pend l"
  obtains s' where "mq_wake l (CriticalAreaLock s) = Some s'" "os_inv s'" "kernel.more s' = kernel.more s" "lists s' l = tl (lists s l)"
proof (cases "lists s l")
  case Nil
  then have "mq_wake l (CriticalAreaLock s) = Some s" by (simp add: mq_wake_def)
  then show thesis using that inv Nil by simp
next
  case (Cons t ts)
  have o: "os_inv (CriticalAreaLock s)" "lists (CriticalAreaLock s) l = t # ts" using inv Cons by simp_all
  obtain s1 where s1: "LinklistResume l (CriticalAreaLock s) = Some (EOK, s1)" "wakes t (CriticalAreaLock s) s1"
    using LinklistResume_os[OF o(1) l o(2)] by auto
  have w: "wakes t s (CriticalAreaUnLock s1)" by (rule wakes_lock[OF s1(2)])
  have m: "os_running_task (CriticalAreaUnLock s1) = Some r" "GetOsAssignLockLevel (CriticalAreaUnLock s1) = 0"
    using wakesD(3,5)[OF w] r lock by (simp_all add: GetOsAssignLockLevel_def)
  obtain s' where a: "assigned (CriticalAreaUnLock s1) s'" by (rule assignedI[OF wakesD(1)[OF w] m])
  have "mq_wake l (CriticalAreaLock s) = Some s'" using Cons s1(1) assignedD(1)[OF a] by (simp add: mq_wake_def)
  moreover have "t \<notin> set ts" using links_invD(1)[OF os_invD(6)[OF inv], of l] Cons by simp
  then have "lists s' l = ts"
    using assigned_lists[OF a l] wakesD(13)[OF w, of l] is_pendD(1)[OF l] Cons by simp
  moreover have "kernel.more s' = kernel.more s" using assigned_more[OF a] wakesD(4)[OF w] by simp
  ultimately show thesis using that assignedD(3)[OF a] Cons by simp
qed

lemma mq_wait_os:
  fixes s :: "'a mqk_scheme"
  assumes inv: "os_inv s" and r: "os_running_task s = Some t" and t: "tasks s t = Some d" and run: "JudgeKTaskStatIsRunning d"
    and lock: "GetOsAssignLockLevel s = 0" and l: "is_pend l" and ti: "sint timeout > 0"
  obtains s' where "mq_wait mem l t timeout (CriticalAreaLock s) = Some s'" "os_inv s'" "kernel.more s' = kernel.more s"
    "t \<in> set (lists s' l)"
proof -
  obtain s1 x s2 s' where b: "LinklistSuspend l t LINKLIST_FLAG_FIFO (CriticalAreaLock s) = Some (EOK, s1)"
    "KTaskSetDelay mem t timeout s1 = Some (x, s2)" "blocks l LINKLIST_FLAG_FIFO mem timeout t s (CriticalAreaUnLock s2)"
    "assigned (CriticalAreaUnLock s2) s'"
    using block_steps[OF inv r t run l disjI1[OF refl] lock] by metis
  have w: "mq_wait mem l t timeout (CriticalAreaLock s) = Some s'"
    using b(1,2) assignedD(1)[OF b(4)] ti by (simp add: mq_wait_def)
  have "t \<in># mset (lists (CriticalAreaUnLock s2) l)" using blocksD(5)[OF b(3) l] by simp
  then have "t \<in> set (lists s' l)" using assigned_lists[OF b(4) l] by simp
  then show thesis
    using that[OF w assignedD(3)[OF b(4)]] assigned_more[OF b(4)] blocksD(2)[OF b(3)] by (simp add: same_rest_def)
qed

lemma MsgQueueSend_put:
  fixes s :: "'a mqk_scheme"
  assumes inv: "os_inv s" and r: "os_running_task s = Some t" and lock: "GetOsAssignLockLevel s = 0"
    and mq: "get_mq i s = Some mq" "mq_ok mq" "num_msgs mq < max_msgs mq" and sz: "unat sz \<le> unat (each_len mq)" "unat sz \<le> length buffer"
  obtains s' mq' m where "MsgQueueSend mem i buffer sz msec s = Some (Ret EOK, s')" "os_inv s'" "get_mq i s' = Some mq'" "mq_ok mq'"
    "mq_view mq' = mq_view mq @ [m]" "take (unat sz) m = take (unat sz) buffer" "lists s' (MqRecvPend i) = tl (lists s (MqRecvPend i))"
proof -
  obtain mq' m where p: "mq_put buffer sz mq = Some mq'" "mq_ok mq'" "mq_view mq' = mq_view mq @ [m]"
    "take (unat sz) m = take (unat sz) buffer"
    by (rule mq_put_view[OF mq(2,3) sz])
  let ?u = "set_mq i (Some mq') s"
  have u: "os_inv ?u" "os_running_task ?u = Some t" "GetOsAssignLockLevel ?u = 0" using inv r lock by simp_all
  obtain s' where w: "mq_wake (MqRecvPend i) (CriticalAreaLock ?u) = Some s'" "os_inv s'" "kernel.more s' = kernel.more ?u"
    "lists s' (MqRecvPend i) = tl (lists ?u (MqRecvPend i))"
    using mq_wake_os[OF u, of "MqRecvPend i"] by auto
  have "MsgQueueSend mem i buffer sz msec s = Some (Ret EOK, s')"
    using mq(1,3) sz p(1) w(1) by (auto simp: MsgQueueSend_def MsgQueueSend_loop_def Let_def)
  then show thesis using that[OF _ w(2) _ p(2-4)] w(4) mq_more(3)[OF w(3), of i] by simp
qed

lemma MsgQueueSend_full:
  fixes s :: "'a mqk_scheme"
  assumes inv: "os_inv s" and r: "os_running_task s = Some t" and t: "tasks s t = Some d" and run: "JudgeKTaskStatIsRunning d"
    and lock: "GetOsAssignLockLevel s = 0" and mq: "get_mq i s = Some mq" "\<not> num_msgs mq < max_msgs mq" and sz: "unat sz \<le> unat (each_len mq)"
  obtains s' where "MsgQueueSend mem i buffer sz msec s = Some (Wait, s')" "os_inv s'" "get_mq i s' = Some mq" "t \<in> set (lists s' (MqSendPend i))"
proof -
  let ?u = "eok_status t d s" and ?w = "CalculteTickFromTimeMs (TICK_PER_SECOND (cfg s)) msec"
  have u: "os_inv ?u" "os_running_task ?u = Some t" "tasks ?u t = Some (d\<lparr>exstatus := EOK\<rparr>)"
    "JudgeKTaskStatIsRunning (d\<lparr>exstatus := EOK\<rparr>)" "GetOsAssignLockLevel ?u = 0"
    using exstatus_os[OF inv t, of EOK] r run lock by (simp_all add: Judge_StatGet) (simp add: eok_status_def)
  obtain s' where w: "mq_wait mem (MqSendPend i) t ?w (CriticalAreaLock ?u) = Some s'" "os_inv s'" "kernel.more s' = kernel.more ?u"
    "t \<in> set (lists s' (MqSendPend i))"
    using mq_wait_os[OF u, of "MqSendPend i" ?w] ticks_sint by auto
  have up: "upd_task t (\<lambda>d. d\<lparr>exstatus := EOK\<rparr>) (CriticalAreaLock s) = Some (CriticalAreaLock ?u)"
    using t by (simp add: upd_task_def eok_status_def)
  have "?w \<noteq> 0" using ticks_positive[of "TICK_PER_SECOND (cfg s)" msec] by auto
  then have "MsgQueueSend mem i buffer sz msec s = Some (Wait, s')"
    using mq sz up w(1) r by (auto simp: MsgQueueSend_def MsgQueueSend_loop_def Let_def GetKTaskDescriptor_def)
  then show thesis using that w(2,4) mq_more(3)[OF w(3), of i] mq(1) by (simp add: get_mq_def eok_status_def)
qed

lemma MsgQueueRecv_take:
  fixes s :: "'a mqk_scheme"
  assumes inv: "os_inv s" and r: "os_running_task s = Some t" and lock: "GetOsAssignLockLevel s = 0"
    and mq: "get_mq i s = Some mq" "mq_ok mq" "num_msgs mq \<noteq> 0"
  obtains s' m ms mq' where "MsgQueueRecv mem i sz msec s = Some (Ret EOK, take (unat sz) m, s')" "os_inv s'" "mq_view mq = m # ms"
    "get_mq i s' = Some mq'" "mq_ok mq'" "mq_view mq' = ms" "lists s' (MqSendPend i) = tl (lists s (MqSendPend i))"
proof -
  let ?n = "if unat sz > unat (each_len mq) then unat (each_len mq) else unat sz"
  have le: "?n \<le> unat (each_len mq)" by simp
  obtain m ms where p: "mq_view mq = m # ms" "mq_ok (mq_pop mq)" "mq_view (mq_pop mq) = ms" "length m = unat (each_len mq)"
    "memcpy_from (msg_buf mq) (unat (mq_index mq) * unat (each_len mq)) ?n = Some (take ?n m)"
    by (rule mq_pop_view[OF mq(2,3) le])
  have out: "memcpy_from (msg_buf mq) (unat (mq_index mq) * unat (each_len mq)) ?n = Some (take (unat sz) m)"
    using p(4,5) by (cases "unat sz > unat (each_len mq)") simp_all
  let ?u = "set_mq i (Some (mq_pop mq)) s"
  have u: "os_inv ?u" "os_running_task ?u = Some t" "GetOsAssignLockLevel ?u = 0" using inv r lock by simp_all
  obtain s' where w: "mq_wake (MqSendPend i) (CriticalAreaLock ?u) = Some s'" "os_inv s'" "kernel.more s' = kernel.more ?u"
    "lists s' (MqSendPend i) = tl (lists ?u (MqSendPend i))"
    using mq_wake_os[OF u, of "MqSendPend i"] by auto
  have nz: "max_msgs mq \<noteq> 0" "\<not> num_msgs mq \<le> 0" using mq_okD(4)[OF mq(2)] mq(3) by auto
  have tp: "CalculteTickFromTimeMs (TICK_PER_SECOND (cfg s)) msec \<noteq> 0"
    using ticks_positive[of "TICK_PER_SECOND (cfg s)" msec] by auto
  have "MsgQueueRecv mem i sz msec s = Some (Ret EOK, take (unat sz) m, s')"
    using mq(1) tp nz out w(1) unfolding MsgQueueRecv_def MsgQueueRecv_loop_def mq_pop_def[symmetric] by (simp add: Let_def)
  then show thesis using that[OF _ w(2) p(1) _ p(2,3)] w(4) mq_more(3)[OF w(3), of i] by simp
qed

lemma MsgQueueRecv_empty:
  fixes s :: "'a mqk_scheme"
  assumes inv: "os_inv s" and r: "os_running_task s = Some t" and t: "tasks s t = Some d" and run: "JudgeKTaskStatIsRunning d"
    and lock: "GetOsAssignLockLevel s = 0" and mq: "get_mq i s = Some mq" "num_msgs mq = 0"
  obtains s' where "MsgQueueRecv mem i sz msec s = Some (Wait, [], s')" "os_inv s'" "get_mq i s' = Some mq" "t \<in> set (lists s' (MqRecvPend i))"
proof -
  let ?u = "eok_status t d s" and ?w = "CalculteTickFromTimeMs (TICK_PER_SECOND (cfg s)) msec"
  have u: "os_inv ?u" "os_running_task ?u = Some t" "tasks ?u t = Some (d\<lparr>exstatus := EOK\<rparr>)"
    "JudgeKTaskStatIsRunning (d\<lparr>exstatus := EOK\<rparr>)" "GetOsAssignLockLevel ?u = 0"
    using exstatus_os[OF inv t, of EOK] r run lock by (simp_all add: Judge_StatGet) (simp add: eok_status_def)
  obtain s' where w: "mq_wait mem (MqRecvPend i) t ?w (CriticalAreaLock ?u) = Some s'" "os_inv s'" "kernel.more s' = kernel.more ?u"
    "t \<in> set (lists s' (MqRecvPend i))"
    using mq_wait_os[OF u, of "MqRecvPend i" ?w] ticks_sint by auto
  have up: "upd_task t (\<lambda>d. d\<lparr>exstatus := EOK\<rparr>) (CriticalAreaLock s) = Some (CriticalAreaLock ?u)"
    using t by (simp add: upd_task_def eok_status_def)
  have "?w \<noteq> 0" using ticks_positive[of "TICK_PER_SECOND (cfg s)" msec] by auto
  then have "MsgQueueRecv mem i sz msec s = Some (Wait, [], s')"
    using mq up w(1) r by (simp add: MsgQueueRecv_def MsgQueueRecv_loop_def Let_def GetKTaskDescriptor_def)
  then show thesis using that w(2,4) mq_more(3)[OF w(3), of i] mq(1) by (simp add: get_mq_def eok_status_def)
qed

lemma mq_call_get: "i < 65536 \<Longrightarrow> get_mq i s = Some mq \<Longrightarrow> mq_call (int i) f err s = f i"
  by (auto simp: mq_call_def GetMsgQueueById_def id_get_def get_mq_def bind_eq_Some_conv)

subsection \<open>Properties\<close>

definition demo_mq :: "MsgQueue \<Rightarrow> mqk" where
  "demo_mq mq = demo_kernel \<lparr>k_sem_id_manager = Map.empty, k_sem_list = [], k_mutex_id_manager = Map.empty, k_mutex_list = [],
     k_event_id_manager = Map.empty, k_event_list = [], k_mq_id_manager = [0 \<mapsto> Some mq], k_mq_list = [0]\<rparr>"

lemma demo_mq_simps:
  "get_mq 0 (demo_mq mq) = Some mq" "os_running_task (demo_mq mq) = Some 10"
  "tasks (demo_mq mq) 10 = Some (demo_task 0 KTASK_RUNNING None 0)" "GetOsAssignLockLevel (demo_mq mq) = 0" "os_inv (demo_mq mq)"
  unfolding demo_mq_def by (simp_all add: demo_simps demo_os_inv) (simp_all add: demo_kernel_def get_mq_def)


definition demo_queue :: "uint16 \<Rightarrow> uint16 \<Rightarrow> MsgQueue" where
  "demo_queue k n = \<lparr>msg_buf = [1, 2, 3, 4], mq_index = k, num_msgs = n, each_len = 2, max_msgs = 2\<rparr>"


text \<open>C5: Receiving from a queue that is not empty returns the oldest message, cut to the size asked for, removes it, keeps the
  order of the others, and wakes the first waiting sender; on an empty queue the caller waits in the list of
  receivers, whatever the timeout.\<close>

theorem KMsgQueueRecv_correct:
  fixes s :: "'a mqk_scheme"
  assumes "os_inv s" and "os_running_task s = Some t" and "tasks s t = Some d" and "JudgeKTaskStatIsRunning d"
    and "GetOsAssignLockLevel s = 0" and "i < 65536" and "get_mq i s = Some mq" and "mq_ok mq"
  shows "case mq_view mq of
      [] \<Rightarrow> \<exists>s'. KMsgQueueRecv mem (int i) sz timeout s = Some (Wait, [], s') \<and> os_inv s' \<and> get_mq i s' = Some mq \<and>
        t \<in> set (lists s' (MqRecvPend i))
    | m # ms \<Rightarrow> \<exists>s' mq'. KMsgQueueRecv mem (int i) sz timeout s = Some (Ret EOK, take (unat sz) m, s') \<and> os_inv s' \<and>
        get_mq i s' = Some mq' \<and> mq_ok mq' \<and> mq_view mq' = ms \<and> lists s' (MqSendPend i) = tl (lists s (MqSendPend i))"
proof -
  have eq: "KMsgQueueRecv mem (int i) sz timeout s = MsgQueueRecv mem i sz timeout s"
    using mq_call_get[OF assms(6,7)] by (simp add: KMsgQueueRecv_def)
  show ?thesis
  proof (cases "num_msgs mq = 0")
    case True
    obtain s' where "MsgQueueRecv mem i sz timeout s = Some (Wait, [], s')" "os_inv s'" "get_mq i s' = Some mq" "t \<in> set (lists s' (MqRecvPend i))"
      by (rule MsgQueueRecv_empty[OF assms(1-5,7) True])
    then show ?thesis using eq True by (simp add: mq_view_def)
  next
    case False
    obtain s' m ms mq' where "MsgQueueRecv mem i sz timeout s = Some (Ret EOK, take (unat sz) m, s')" "os_inv s'" "mq_view mq = m # ms"
      "get_mq i s' = Some mq'" "mq_ok mq'" "mq_view mq' = ms" "lists s' (MqSendPend i) = tl (lists s (MqSendPend i))"
      by (rule MsgQueueRecv_take[OF assms(1,2,5,7,8) False])
    then show ?thesis using eq by simp
  qed
qed

theorem KMsgQueueRecv_correct_witness:
  "(\<exists>s'. KMsgQueueRecv True 0 8 100 (demo_mq (demo_queue 1 1)) = Some (Ret EOK, [3, 4], s') \<and> os_inv s') \<and>
   (\<exists>s'. KMsgQueueRecv True 0 8 0 (demo_mq (demo_queue 0 0)) = Some (Wait, [], s') \<and> 10 \<in> set (lists s' (MqRecvPend 0)))"
proof -
  have ok: "mq_ok (demo_queue 1 1)" "mq_ok (demo_queue 0 0)" by (simp_all add: demo_queue_def mq_ok_def)
  have l: "(0 :: nat) < 65536" by simp
  note c = KMsgQueueRecv_correct[OF demo_mq_simps(5,2,3) demo_run demo_mq_simps(4) l demo_mq_simps(1), where mem = True and sz = 8]
  have "mq_view (demo_queue 1 1) = [[3, 4]]" "mq_view (demo_queue 0 0) = []" by (simp_all add: demo_queue_def mq_view_def mq_slot_def)
  then show ?thesis using c[OF ok(1), of 100] c[OF ok(2), of 0] by auto
qed

lemma MsgQueueUrgentSend_effect:
  fixes s :: "'a mqk_scheme"
  assumes inv: "os_inv s" and r: "os_running_task s = Some t" and lock: "GetOsAssignLockLevel s = 0"
    and mq: "get_mq i s = Some mq" "num_msgs mq < max_msgs mq" "unat sz \<le> unat (each_len mq)"
    and put: "mq_put buffer sz (mq\<lparr>mq_index := mq_index mq - 1\<rparr>) = Some mq'"
  obtains s' where "MsgQueueUrgentSend i buffer sz s = Some (EOK, s')" "get_mq i s' = Some mq'"
proof -
  let ?u = "set_mq i (Some mq') s"
  have u: "os_inv ?u" "os_running_task ?u = Some t" "GetOsAssignLockLevel ?u = 0" using inv r lock by simp_all
  obtain s' where w: "mq_wake (MqSendPend i) (CriticalAreaLock ?u) = Some s'" "kernel.more s' = kernel.more ?u"
    using mq_wake_os[OF u, of "MqSendPend i"] by auto
  have "MsgQueueUrgentSend i buffer sz s = Some (EOK, s')"
    using mq put w(1) by (auto simp: MsgQueueUrgentSend_def Let_def not_less)
  then show thesis using that mq_more(3)[OF w(2), of i] by simp
qed

lemma mq_view_shift:
  assumes ok: "mq_ok mq" and i: "mq_index mq \<noteq> 0"
  shows "mq_ok (mq\<lparr>mq_index := mq_index mq - 1\<rparr>)"
    and "mq_view (mq\<lparr>mq_index := mq_index mq - 1\<rparr>) =
      (if mq_view mq = [] then [] else mq_slot mq (unat (mq_index mq) - 1) # butlast (mq_view mq))"
proof -
  note o = mq_okD[OF ok]
  have k: "unat (mq_index mq - 1) = unat (mq_index mq) - 1" "0 < unat (mq_index mq)" using i by (simp_all add: unat_minus_one unat_gt_0)
  show "mq_ok (mq\<lparr>mq_index := mq_index mq - 1\<rparr>)" using ok k o by (simp add: mq_ok_def word_less_nat_alt)
  have sl: "mq_slot (mq\<lparr>mq_index := x\<rparr>) = mq_slot mq" for x by (simp add: mq_slot_def fun_eq_iff)
  show "mq_view (mq\<lparr>mq_index := mq_index mq - 1\<rparr>) =
      (if mq_view mq = [] then [] else mq_slot mq (unat (mq_index mq) - 1) # butlast (mq_view mq))"
  proof (cases "unat (num_msgs mq)")
    case 0
    then show ?thesis by (simp add: mq_view_def)
  next
    case (Suc n)
    have up: "[0..<Suc n] = 0 # map Suc [0..<n]" by (simp add: upt_conv_Cons map_Suc_upt del: upt_Suc)
    have "mq_view (mq\<lparr>mq_index := mq_index mq - 1\<rparr>) =
        mq_slot mq (unat (mq_index mq) - 1) # map (\<lambda>j. mq_slot mq ((unat (mq_index mq) + j) mod unat (max_msgs mq))) [0..<n]"
      using k o(1) by (simp add: mq_view_def Suc sl up del: upt_Suc)
    moreover have "mq_view mq \<noteq> []"
      "butlast (mq_view mq) = map (\<lambda>j. mq_slot mq ((unat (mq_index mq) + j) mod unat (max_msgs mq))) [0..<n]"
      by (simp_all add: mq_view_def Suc butlast_append)
    ultimately show ?thesis by simp
  qed
qed

lemma mq_put_wrapped:
  assumes ok: "mq_ok mq" and i: "mq_index mq = 0" and sz: "unat sz \<le> unat (each_len mq)" "unat sz \<le> length buffer"
  obtains mq' where "mq_put buffer sz (mq\<lparr>mq_index := mq_index mq - 1\<rparr>) = Some mq'" "mq_index mq' = 0xFFFF"
    "num_msgs mq' = num_msgs mq + 1" "length (msg_buf mq') = unat (max_msgs mq) * unat (each_len mq)" "each_len mq' = each_len mq"
proof -
  note o = mq_okD[OF ok]
  let ?mq = "mq\<lparr>mq_index := mq_index mq - 1\<rparr>"
  let ?k = "(unat (mq_index ?mq) + unat (num_msgs mq)) mod unat (max_msgs mq)"
  have k: "?k < unat (max_msgs mq)" using o(4) by simp
  have la: "length (take (unat sz) buffer) \<le> unat (each_len mq)" using sz by simp
  obtain b where "memcpy_to (msg_buf mq) (?k * unat (each_len mq)) (take (unat sz) buffer) = Some b" "length b = length (msg_buf mq)"
    using memcpy_to_slot[OF o(3) k la] by blast
  then show thesis using that i o(3) sz(2) by (simp add: mq_put_def memcpy_from_def)
qed

text \<open>C40: An urgent message does not go to the head of the queue, as its comment says. In a queue that starts at its first slot
  the 16-bit index wraps to 65535, so the next receive reads far outside the buffer; otherwise the message
  overwrites the newest one and the oldest message becomes whatever the slot before the queue holds.\<close>

theorem MsgQueueUrgentSend_wrong:
  fixes s :: "'a mqk_scheme"
  assumes "os_inv s" and "os_running_task s = Some t" and "GetOsAssignLockLevel s = 0" and "get_mq i s = Some mq" and "mq_ok mq"
    and "num_msgs mq < max_msgs mq" and "unat sz \<le> unat (each_len mq)" and "unat sz \<le> length buffer"
    and "0 < unat sz"  and "max_msgs mq \<noteq> 0xFFFF"
  shows "\<exists>s' mq'. MsgQueueUrgentSend i buffer sz s = Some (EOK, s') \<and> get_mq i s' = Some mq' \<and>
    (if mq_index mq = 0 then mq_index mq' = 0xFFFF \<and> MsgQueueRecv mem i sz msec s' = None
     else \<exists>m. length m = unat (each_len mq) \<and> take (unat sz) m = take (unat sz) buffer \<and>
       mq_view mq' = (if mq_view mq = [] then [m]
         else mq_slot mq (unat (mq_index mq) - 1) # butlast (mq_view mq) @ [m]))"
proof (cases "mq_index mq = 0")
  case True
  obtain mq' where p: "mq_put buffer sz (mq\<lparr>mq_index := mq_index mq - 1\<rparr>) = Some mq'" "mq_index mq' = 0xFFFF"
    "num_msgs mq' = num_msgs mq + 1" "length (msg_buf mq') = unat (max_msgs mq) * unat (each_len mq)" "each_len mq' = each_len mq"
    by (rule mq_put_wrapped[OF assms(5) True assms(7,8)])
  obtain s' where s': "MsgQueueUrgentSend i buffer sz s = Some (EOK, s')" "get_mq i s' = Some mq'"
    by (rule MsgQueueUrgentSend_effect[OF assms(1-4,6,7) p(1)])
  have "unat (num_msgs mq + 1) = Suc (unat (num_msgs mq))"
    using assms(6) unsigned_less[of "max_msgs mq", where 'a = nat] by (simp add: unat_word_ariths word_less_nat_alt)
  then have n: "num_msgs mq' \<noteq> 0" using p(3) by auto
  have "unat (max_msgs mq) \<noteq> 65535" using assms(10) by (auto simp: word_unat_eq_iff)
  then have "Suc (unat (max_msgs mq)) \<le> 65535" using unsigned_less[of "max_msgs mq", where 'a = nat] by simp
  then have "Suc (unat (max_msgs mq)) * unat (each_len mq) \<le> 65535 * unat (each_len mq)" by (rule mult_le_mono1)
  then have "\<not> 65535 * unat (each_len mq) + unat sz \<le> unat (max_msgs mq) * unat (each_len mq)"
    using assms(7,9) unfolding mult_Suc by linarith
  then have "memcpy_from (msg_buf mq') (unat (mq_index mq') * unat (each_len mq')) (unat sz) = None"
    using p by (simp add: memcpy_from_def)
  then have "MsgQueueRecv mem i sz msec s' = None"
    using s'(2) p n assms(7) by (simp add: MsgQueueRecv_def MsgQueueRecv_loop_def Let_def)
  then show ?thesis using s' p True by simp
next
  case False
  note sh = mq_view_shift[OF assms(5) False]
  have f: "num_msgs (mq\<lparr>mq_index := mq_index mq - 1\<rparr>) < max_msgs (mq\<lparr>mq_index := mq_index mq - 1\<rparr>)"
    "unat sz \<le> unat (each_len (mq\<lparr>mq_index := mq_index mq - 1\<rparr>))" using assms(6,7) by simp_all
  obtain mq' m where p: "mq_put buffer sz (mq\<lparr>mq_index := mq_index mq - 1\<rparr>) = Some mq'"
    "mq_view mq' = mq_view (mq\<lparr>mq_index := mq_index mq - 1\<rparr>) @ [m]" "take (unat sz) m = take (unat sz) buffer"
    "length m = unat (each_len (mq\<lparr>mq_index := mq_index mq - 1\<rparr>))"
    by (rule mq_put_view[OF sh(1) f assms(8)])
  obtain s' where s': "MsgQueueUrgentSend i buffer sz s = Some (EOK, s')" "get_mq i s' = Some mq'"
    by (rule MsgQueueUrgentSend_effect[OF assms(1-4,6,7) p(1)])
  show ?thesis using s' p sh(2) False by auto
qed

theorem MsgQueueUrgentSend_wrong_witness:
  "\<exists>s' mq'. MsgQueueUrgentSend 0 [9] 1 (demo_mq (demo_queue 0 1)) = Some (EOK, s') \<and> get_mq 0 s' = Some mq' \<and>
     mq_index mq' = 0xFFFF \<and> MsgQueueRecv True 0 1 100 s' = None"
proof -
  have "mq_ok (demo_queue 0 1)" "num_msgs (demo_queue 0 1) < max_msgs (demo_queue 0 1)" "unat (1 :: uint32) \<le> unat (each_len (demo_queue 0 1))"
    "unat (1 :: uint32) \<le> length [9 :: uint8]" "0 < unat (1 :: uint32)" "max_msgs (demo_queue 0 1) \<noteq> 0xFFFF" "mq_index (demo_queue 0 1) = 0"
    by (simp_all add: demo_queue_def mq_ok_def)
  then show ?thesis using MsgQueueUrgentSend_wrong[OF demo_mq_simps(5,2,4,1), of "demo_queue 0 1" 1 "[9]" True 100] by simp
qed

end
