(* ===== verification/Avl.thy ===== *)
theory Avl
  imports Prelude
begin

text \<open>
  Balanced search trees of integers (\<^verbatim>\<open>avl_tree.c\<close>, \<^verbatim>\<open>xs_avltree.h\<close>). A tree is the value its root pointer
  leads to; \<open>NONE_NODE\<close> is the null pointer. Heights are natural numbers and balance factors integers: a tree
  as high as their 32 bits does not fit into memory. Rotating at a null pointer has no result. The lemmas
  relate the operations to the sorted list of the data, and show on which trees \<^verbatim>\<open>AvlTreeBalance\<close> drops
  its argument.
\<close>

datatype AvlNode = NONE_NODE | AvlNode (data: int) (height: nat) (left: AvlNode) (right: AvlNode)

definition AVL_MAX :: "nat \<Rightarrow> nat \<Rightarrow> nat" where
  "AVL_MAX a b = (if a > b then a else b)"

definition AVL_ABS :: "int \<Rightarrow> int" where
  "AVL_ABS a = (if a > 0 then a else - a)"

fun AvlTreeGetNodeHeight :: "AvlNode \<Rightarrow> nat" where
  "AvlTreeGetNodeHeight NONE_NODE = 0"
| "AvlTreeGetNodeHeight (AvlNode d h l r) = AVL_MAX (AvlTreeGetNodeHeight l) (AvlTreeGetNodeHeight r) + 1"

fun AvlTreeGetNodeBalanceFactor :: "AvlNode \<Rightarrow> int" where
  "AvlTreeGetNodeBalanceFactor NONE_NODE = 0"
| "AvlTreeGetNodeBalanceFactor (AvlNode d h l r) = int (AvlTreeGetNodeHeight l) - int (AvlTreeGetNodeHeight r)"

text \<open>The height stored in a node, recomputed from its children.\<close>

definition set_height :: "int \<Rightarrow> AvlNode \<Rightarrow> AvlNode \<Rightarrow> AvlNode" where
  "set_height d l r = AvlNode d (AVL_MAX (AvlTreeGetNodeHeight l) (AvlTreeGetNodeHeight r) + 1) l r"

fun AvlTreeSetRightRotate :: "AvlNode \<Rightarrow> AvlNode option" where
  "AvlTreeSetRightRotate (AvlNode d h (AvlNode d' h' l' r') r) = Some (set_height d' l' (set_height d r' r))"
| "AvlTreeSetRightRotate _ = None"

fun AvlTreeSetLeftRotate :: "AvlNode \<Rightarrow> AvlNode option" where
  "AvlTreeSetLeftRotate (AvlNode d h l (AvlNode d' h' l' r')) = Some (set_height d' (set_height d l l') r')"
| "AvlTreeSetLeftRotate _ = None"

fun AvlTreeSetLRRotate :: "AvlNode \<Rightarrow> AvlNode option" where
  "AvlTreeSetLRRotate NONE_NODE = None"
| "AvlTreeSetLRRotate (AvlNode d h l r) = do {
     left_node \<leftarrow> AvlTreeSetLeftRotate l;
     AvlTreeSetRightRotate (AvlNode d h left_node r) }"

fun AvlTreeSetRLRotate :: "AvlNode \<Rightarrow> AvlNode option" where
  "AvlTreeSetRLRotate NONE_NODE = None"
| "AvlTreeSetRLRotate (AvlNode d h l r) = do {
     right_node \<leftarrow> AvlTreeSetRightRotate r;
     AvlTreeSetLeftRotate (AvlNode d h l right_node) }"

fun AvlTreeBalance :: "AvlNode \<Rightarrow> AvlNode option" where
  "AvlTreeBalance NONE_NODE = Some NONE_NODE"
| "AvlTreeBalance (AvlNode d h l r) =
     (if AVL_ABS (AvlTreeGetNodeBalanceFactor (AvlNode d h l r)) > 1 then
        if AvlTreeGetNodeBalanceFactor l > 0 then AvlTreeSetRightRotate (AvlNode d h l r)
        else if AvlTreeGetNodeBalanceFactor l < 0 then AvlTreeSetLRRotate (AvlNode d h l r)
        else if AvlTreeGetNodeBalanceFactor r < 0 then AvlTreeSetLeftRotate (AvlNode d h l r)
        else if AvlTreeGetNodeBalanceFactor r > 0 then AvlTreeSetRLRotate (AvlNode d h l r)
        else Some NONE_NODE
      else Some (AvlNode d h l r))"

text \<open>\<open>mem\<close> tells whether the allocation of the new node succeeds.\<close>

fun AvlTreeInsertNode :: "bool \<Rightarrow> AvlNode \<Rightarrow> int \<Rightarrow> AvlNode option" where
  "AvlTreeInsertNode mem NONE_NODE x =
     (if mem then AvlTreeBalance (AvlNode x 1 NONE_NODE NONE_NODE) else Some NONE_NODE)"
| "AvlTreeInsertNode mem (AvlNode d h l r) x =
     (if x = d then Some (AvlNode d h l r)
      else if d < x then do {
        r' \<leftarrow> AvlTreeInsertNode mem r x;
        if r' = NONE_NODE then Some NONE_NODE else AvlTreeBalance (AvlNode d h l r') }
      else do {
        l' \<leftarrow> AvlTreeInsertNode mem l x;
        if l' = NONE_NODE then Some NONE_NODE else AvlTreeBalance (AvlNode d h l' r) })"

text \<open>The loop of \<^verbatim>\<open>AvlTreeFindPreNode\<close> walks to the last right child.\<close>

fun AvlTreeFindPreNode_loop :: "AvlNode \<Rightarrow> AvlNode" where
  "AvlTreeFindPreNode_loop (AvlNode d h l (AvlNode d' h' l' r')) = AvlTreeFindPreNode_loop (AvlNode d' h' l' r')"
| "AvlTreeFindPreNode_loop t = t"

fun AvlTreeFindPreNode :: "AvlNode \<Rightarrow> AvlNode option" where
  "AvlTreeFindPreNode NONE_NODE = None"
| "AvlTreeFindPreNode (AvlNode d h l r) =
     (case l of
        AvlNode _ _ _ (AvlNode d' h' l' r') \<Rightarrow> Some (AvlTreeFindPreNode_loop (AvlNode d' h' l' r'))
      | AvlNode _ _ _ NONE_NODE \<Rightarrow> Some l
      | NONE_NODE \<Rightarrow> Some (AvlNode d h l r))"

function (sequential) AvlTreeDeleteLeafNode :: "AvlNode \<Rightarrow> AvlNode option"
and AvlTreeDeleteNode :: "AvlNode \<Rightarrow> int \<Rightarrow> AvlNode option" where
  "AvlTreeDeleteLeafNode NONE_NODE = None"
| "AvlTreeDeleteLeafNode (AvlNode d h NONE_NODE NONE_NODE) = Some NONE_NODE"
| "AvlTreeDeleteLeafNode (AvlNode d h NONE_NODE r) = Some (AvlNode (data r) h NONE_NODE NONE_NODE)"
| "AvlTreeDeleteLeafNode (AvlNode d h l NONE_NODE) = Some (AvlNode (data l) h NONE_NODE NONE_NODE)"
| "AvlTreeDeleteLeafNode (AvlNode d h l r) = do {
     pre_node \<leftarrow> AvlTreeFindPreNode (AvlNode d h l r);
     if pre_node = NONE_NODE then Some (AvlNode d h l r)
     else do {
       l' \<leftarrow> AvlTreeDeleteNode l (data pre_node);
       Some (AvlNode (data pre_node) h l' r) } }"
| "AvlTreeDeleteNode NONE_NODE x = Some NONE_NODE"
| "AvlTreeDeleteNode (AvlNode d h l r) x = do {
     t \<leftarrow> (if x = d then AvlTreeDeleteLeafNode (AvlNode d h l r)
          else if d < x then do {
            r' \<leftarrow> AvlTreeDeleteNode r x;
            Some (AvlNode d h l r') }
          else do {
            l' \<leftarrow> AvlTreeDeleteNode l x;
            Some (AvlNode d h l' r) });
     AvlTreeBalance t }"
  by pat_completeness auto
termination
  by (relation "measure (\<lambda>c. case c of Inl t \<Rightarrow> 2 * size t | Inr (t, x) \<Rightarrow> 2 * size t + 1)") auto

definition AvlNodeModifyNode :: "bool \<Rightarrow> AvlNode \<Rightarrow> int \<Rightarrow> int \<Rightarrow> AvlNode option" where
  "AvlNodeModifyNode mem t src_data dst_data =
     (if t = NONE_NODE then Some NONE_NODE
      else do {
        t \<leftarrow> AvlTreeDeleteNode t src_data;
        AvlTreeInsertNode mem t dst_data })"

fun AvlNodeSearchNode :: "AvlNode \<Rightarrow> int \<Rightarrow> AvlNode" where
  "AvlNodeSearchNode NONE_NODE x = NONE_NODE"
| "AvlNodeSearchNode (AvlNode d h l r) x =
     (if x = d then AvlNode d h l r
      else if d < x then AvlNodeSearchNode r x
      else AvlNodeSearchNode l x)"

fun inorder :: "AvlNode \<Rightarrow> int list" where
  "inorder NONE_NODE = []"
| "inorder (AvlNode d h l r) = inorder l @ d # inorder r"

subsection \<open>Search\<close>

text \<open>The reference: insertion into a sorted list without repetition.\<close>

fun ins_list :: "int \<Rightarrow> int list \<Rightarrow> int list" where
  "ins_list x [] = [x]"
| "ins_list x (y # ys) = (if x < y then x # y # ys else if x = y then y # ys else y # ins_list x ys)"

abbreviation search_tree :: "AvlNode \<Rightarrow> bool" where
  "search_tree t \<equiv> sorted_wrt (<) (inorder t)"

lemma set_ins_list [simp]: "set (ins_list x xs) = insert x (set xs)"
  by (induction xs) auto

lemma sorted_ins_list [simp]: "sorted_wrt (<) xs \<Longrightarrow> sorted_wrt (<) (ins_list x xs)"
  by (induction xs) (auto intro: less_trans)

lemma ins_list_append:
  "sorted_wrt (<) (xs @ y # ys) \<Longrightarrow> ins_list x (xs @ y # ys) =
     (if x < y then ins_list x xs @ y # ys else xs @ ins_list x (y # ys))"
  by (induction xs) (auto dest: less_trans)

lemma search_tree_node:
  "search_tree (AvlNode d h l r) \<longleftrightarrow>
     search_tree l \<and> search_tree r \<and> (\<forall>y \<in> set (inorder l). y < d) \<and> (\<forall>y \<in> set (inorder r). d < y)"
  by (force simp: sorted_wrt_append)

lemma AvlNodeSearchNode_iff:
  assumes "search_tree t"
  shows "AvlNodeSearchNode t x \<noteq> NONE_NODE \<longleftrightarrow> x \<in> set (inorder t)"
    and "AvlNodeSearchNode t x \<noteq> NONE_NODE \<Longrightarrow> data (AvlNodeSearchNode t x) = x"
  using assms
proof (induction t)
  case (AvlNode d h l r)
  { case 1 show ?case using AvlNode(1,3) 1[unfolded search_tree_node] by (auto dest: less_asym) }
  { case 2 show ?case using AvlNode(2,4) 2(1) 2(2)[unfolded search_tree_node] by (auto split: if_splits) }
qed simp_all

subsection \<open>Rebalancing\<close>

fun avl :: "AvlNode \<Rightarrow> bool" where
  "avl NONE_NODE = True"
| "avl (AvlNode d h l r) = (avl l \<and> avl r \<and> \<bar>AvlTreeGetNodeBalanceFactor (AvlNode d h l r)\<bar> \<le> 1)"

text \<open>At a node that leans to the right the left child is level.\<close>

fun left_level :: "AvlNode \<Rightarrow> bool" where
  "left_level NONE_NODE = True"
| "left_level (AvlNode d h l r) = (left_level l \<and> left_level r \<and>
     (AvlTreeGetNodeBalanceFactor (AvlNode d h l r) < 0 \<longrightarrow> AvlTreeGetNodeBalanceFactor l = 0))"

lemmas avl_nums = AVL_MAX_def AVL_ABS_def set_height_def

lemma AvlTreeBalance_inorder:
  "\<exists>t'. AvlTreeBalance t = Some t' \<and> (t' = NONE_NODE \<or> inorder t' = inorder t)"
  by (cases t; cases "left t"; cases "right t"; cases "right (left t)"; cases "left (right t)")
    (auto simp: set_height_def)

lemma AvlTreeBalance_lost_iff:
  "AvlTreeBalance (AvlNode d h l r) = Some NONE_NODE \<longleftrightarrow>
     \<bar>AvlTreeGetNodeBalanceFactor (AvlNode d h l r)\<bar> > 1 \<and>
     AvlTreeGetNodeBalanceFactor l = 0 \<and> AvlTreeGetNodeBalanceFactor r = 0"
  by (cases l; cases r; cases "right l"; cases "left r") (auto simp: set_height_def AVL_ABS_def split: if_splits)

text \<open>A node one of whose children has grown by one level, rebalanced.\<close>

lemma AvlTreeBalance_grown_left:
  assumes "avl l" and "avl r" and "int (AvlTreeGetNodeHeight l) - int (AvlTreeGetNodeHeight r) \<in> {-1..2}"
    and "int (AvlTreeGetNodeHeight l) - int (AvlTreeGetNodeHeight r) = 2 \<longrightarrow> AvlTreeGetNodeBalanceFactor l \<noteq> 0"
  shows "\<exists>t'. AvlTreeBalance (AvlNode d h l r) = Some t' \<and> avl t' \<and> t' \<noteq> NONE_NODE \<and> inorder t' = inorder l @ d # inorder r \<and>
    (if int (AvlTreeGetNodeHeight l) - int (AvlTreeGetNodeHeight r) = 2
     then AvlTreeGetNodeHeight t' = AvlTreeGetNodeHeight l else t' = AvlNode d h l r)"
  using assms
  by (cases l; cases r; cases "right l") (auto simp: avl_nums split: if_splits)

lemma AvlTreeBalance_grown_right:
  assumes "avl l" and "avl r" and "int (AvlTreeGetNodeHeight r) - int (AvlTreeGetNodeHeight l) \<in> {-1..2}"
    and "int (AvlTreeGetNodeHeight r) - int (AvlTreeGetNodeHeight l) = 2 \<longrightarrow>
      AvlTreeGetNodeBalanceFactor r \<noteq> 0 \<and> AvlTreeGetNodeBalanceFactor l = 0"
  shows "\<exists>t'. AvlTreeBalance (AvlNode d h l r) = Some t' \<and> avl t' \<and> t' \<noteq> NONE_NODE \<and> inorder t' = inorder l @ d # inorder r \<and>
    (if int (AvlTreeGetNodeHeight r) - int (AvlTreeGetNodeHeight l) = 2
     then AvlTreeGetNodeHeight t' = AvlTreeGetNodeHeight r else t' = AvlNode d h l r)"
  using assms
  by (cases l; cases r; cases "left r") (auto simp: avl_nums split: if_splits)

subsection \<open>Insertion\<close>

definition grown :: "AvlNode \<Rightarrow> AvlNode \<Rightarrow> bool" where
  "grown t t' \<longleftrightarrow> avl t' \<and> t' \<noteq> NONE_NODE \<and>
     (AvlTreeGetNodeHeight t' = AvlTreeGetNodeHeight t \<or>
      AvlTreeGetNodeHeight t' = AvlTreeGetNodeHeight t + 1 \<and> (t = NONE_NODE \<or> AvlTreeGetNodeBalanceFactor t' \<noteq> 0))"

lemma height_BF:
  "AvlTreeGetNodeHeight (AvlNode d h l r) =
     (if AvlTreeGetNodeBalanceFactor (AvlNode d h l r) > 0 then AvlTreeGetNodeHeight l + 1 else AvlTreeGetNodeHeight r + 1)"
  by (auto simp: AVL_MAX_def)

lemma grown_right:
  assumes "avl (AvlNode d h l r)" and "left_level (AvlNode d h l r)" and "grown r r'"
  shows "\<exists>t'. AvlTreeBalance (AvlNode d h l r') = Some t' \<and> grown (AvlNode d h l r) t' \<and> inorder t' = inorder l @ d # inorder r'"
proof -
  let ?H = AvlTreeGetNodeHeight
  have bnd: "\<bar>int (?H l) - int (?H r)\<bar> \<le> 1" "avl l" using assms(1) by auto
  have g: "avl r'" "r' \<noteq> NONE_NODE"
    "?H r' = ?H r \<or> ?H r' = ?H r + 1 \<and> (r = NONE_NODE \<or> AvlTreeGetNodeBalanceFactor r' \<noteq> 0)"
    using assms(3) by (auto simp: grown_def)
  have "?H r' - ?H l = 2 \<longrightarrow> ?H l < ?H r" using bnd g(3) by auto
  moreover have "r = NONE_NODE \<longrightarrow> \<not> ?H l < ?H r" by simp
  moreover have "?H l < ?H r \<longrightarrow> AvlTreeGetNodeBalanceFactor l = 0" using assms(2) by auto
  ultimately have two: "int (?H r') - int (?H l) = 2 \<longrightarrow>
      AvlTreeGetNodeBalanceFactor r' \<noteq> 0 \<and> AvlTreeGetNodeBalanceFactor l = 0"
    using bnd(1) g(3) by auto
  have range: "int (?H r') - int (?H l) \<in> {-1..2}" using bnd(1) g(3) by auto
  obtain t' where t': "AvlTreeBalance (AvlNode d h l r') = Some t'" "avl t'" "t' \<noteq> NONE_NODE"
    "inorder t' = inorder l @ d # inorder r'"
    "if int (?H r') - int (?H l) = 2 then ?H t' = ?H r' else t' = AvlNode d h l r'"
    using AvlTreeBalance_grown_right[OF bnd(2) g(1) range two] by blast
  have "grown (AvlNode d h l r) t'"
    using t'(2,3,5) bnd(1) g(3) by (auto simp: grown_def AVL_MAX_def split: if_splits)
  then show ?thesis using t' by blast
qed

lemma grown_left:
  assumes "avl (AvlNode d h l r)" and "grown l l'"
  shows "\<exists>t'. AvlTreeBalance (AvlNode d h l' r) = Some t' \<and> grown (AvlNode d h l r) t' \<and> inorder t' = inorder l' @ d # inorder r"
proof -
  let ?H = AvlTreeGetNodeHeight
  have bnd: "\<bar>int (?H l) - int (?H r)\<bar> \<le> 1" "avl r" using assms(1) by auto
  have g: "avl l'" "l' \<noteq> NONE_NODE"
    "?H l' = ?H l \<or> ?H l' = ?H l + 1 \<and> (l = NONE_NODE \<or> AvlTreeGetNodeBalanceFactor l' \<noteq> 0)"
    using assms(2) by (auto simp: grown_def)
  have two: "int (?H l') - int (?H r) = 2 \<longrightarrow> AvlTreeGetNodeBalanceFactor l' \<noteq> 0"
    using bnd(1) g(3) by auto
  have range: "int (?H l') - int (?H r) \<in> {-1..2}" using bnd(1) g(3) by auto
  obtain t' where t': "AvlTreeBalance (AvlNode d h l' r) = Some t'" "avl t'" "t' \<noteq> NONE_NODE"
    "inorder t' = inorder l' @ d # inorder r"
    "if int (?H l') - int (?H r) = 2 then ?H t' = ?H l' else t' = AvlNode d h l' r"
    using AvlTreeBalance_grown_left[OF g(1) bnd(2) range two] by blast
  have "grown (AvlNode d h l r) t'"
    using t'(2,3,5) bnd(1) g(3) by (auto simp: grown_def AVL_MAX_def split: if_splits)
  then show ?thesis using t' by blast
qed

lemma AvlTreeInsertNode_grown:
  assumes "avl t" and "left_level t" and "search_tree t"
  shows "\<exists>t'. AvlTreeInsertNode True t x = Some t' \<and> grown t t' \<and> inorder t' = ins_list x (inorder t)"
  using assms
proof (induction t)
  case NONE_NODE
  show ?case by (simp add: grown_def AVL_ABS_def AVL_MAX_def)
next
  case (AvlNode d h l r)
  note st = AvlNode.prems(3)[unfolded search_tree_node]
  have split: "ins_list x (inorder l @ d # inorder r) =
      (if x < d then ins_list x (inorder l) @ d # inorder r else inorder l @ ins_list x (d # inorder r))"
    using ins_list_append AvlNode.prems(3) by simp
  consider "x = d" | "d < x" | "x < d" by linarith
  then show ?case
  proof cases
    case 1
    then show ?thesis using AvlNode.prems split by (auto simp: grown_def)
  next
    case 2
    obtain r' where r': "AvlTreeInsertNode True r x = Some r'" "grown r r'" "inorder r' = ins_list x (inorder r)"
      using AvlNode.IH(2) AvlNode.prems(1,2) st by auto
    then have "r' \<noteq> NONE_NODE" by (simp add: grown_def)
    then show ?thesis using grown_right[OF AvlNode.prems(1,2) r'(2)] 2 r'(1,3) split by auto
  next
    case 3
    obtain l' where l': "AvlTreeInsertNode True l x = Some l'" "grown l l'" "inorder l' = ins_list x (inorder l)"
      using AvlNode.IH(1) AvlNode.prems(1,2) st by auto
    then have "l' \<noteq> NONE_NODE" by (simp add: grown_def)
    then show ?thesis using grown_left[OF AvlNode.prems(1) l'(2)] 3 l'(1,3) split by auto
  qed
qed

abbreviation leaf :: "int \<Rightarrow> AvlNode" where
  "leaf d \<equiv> AvlNode d 1 NONE_NODE NONE_NODE"

text \<open>C27: Inserting into a balanced search tree in which every node that leans to the right has a level left
  child gives a balanced search tree whose data are those of the sorted-list insertion, and afterwards the search
  finds exactly the inserted value and the old ones.\<close>

theorem AvlTreeInsertNode_correct:
  assumes "avl t" and "left_level t" and "search_tree t"
  shows "\<exists>t'. AvlTreeInsertNode True t x = Some t' \<and> avl t' \<and> search_tree t' \<and>
    inorder t' = ins_list x (inorder t) \<and>
    (\<forall>y. AvlNodeSearchNode t' y \<noteq> NONE_NODE \<longleftrightarrow> y = x \<or> AvlNodeSearchNode t y \<noteq> NONE_NODE)"
proof -
  obtain t' where t': "AvlTreeInsertNode True t x = Some t'" "grown t t'" "inorder t' = ins_list x (inorder t)"
    using AvlTreeInsertNode_grown[OF assms] by blast
  then have "search_tree t'" using assms(3) by simp
  then show ?thesis using t' AvlNodeSearchNode_iff(1)[of t'] AvlNodeSearchNode_iff(1)[OF assms(3)]
    by (auto simp: grown_def)
qed

theorem AvlTreeInsertNode_correct_witness:
  "\<exists>t'. AvlTreeInsertNode True (AvlNode 2 2 (leaf 1) (leaf 3)) 4 = Some t' \<and> inorder t' = [1, 2, 3, 4]"
proof -
  let ?t = "AvlNode 2 2 (leaf 1) (leaf 3)"
  have "avl ?t" "left_level ?t" "search_tree ?t" by simp_all
  moreover have "ins_list 4 (inorder ?t) = [1, 2, 3, 4]" by simp
  ultimately show ?thesis using AvlTreeInsertNode_correct[of ?t 4] by metis
qed

text \<open>C38: Rebalancing drops the whole tree when a node is out of balance while both children are level. So
  deleting the only node beside a level subtree loses every remaining value, and so does a sequence of
  insertions of different values that starts with the empty tree.\<close>

theorem AvlTreeBalance_loses_tree:
  assumes "a < b" and "b < c" and "c < d" and "d < e"
  shows "avl (AvlNode b 3 (leaf a) (AvlNode d 2 (leaf c) (leaf e))) \<and>
    search_tree (AvlNode b 3 (leaf a) (AvlNode d 2 (leaf c) (leaf e))) \<and>
    AvlTreeDeleteNode (AvlNode b 3 (leaf a) (AvlNode d 2 (leaf c) (leaf e))) a = Some NONE_NODE \<and>
    fold (\<lambda>x t. Option.bind t (\<lambda>t. AvlTreeInsertNode True t x)) [10, 8, 1, 2, 3, 5, 11, 6, 7, 4, 9] (Some NONE_NODE)
      = Some NONE_NODE"
proof -
  have "fold (\<lambda>x t. Option.bind t (\<lambda>t. AvlTreeInsertNode True t x)) [10, 8, 1, 2, 3, 5, 11, 6, 7, 4, 9] (Some NONE_NODE)
      = Some NONE_NODE"
    by code_simp
  then show ?thesis using assms by (simp add: AVL_ABS_def AVL_MAX_def)
qed

theorem AvlTreeBalance_loses_tree_witness:
  "AvlTreeDeleteNode (AvlNode 2 3 (leaf 1) (AvlNode 4 2 (leaf 3) (leaf 5))) 1 = Some NONE_NODE"
  using AvlTreeBalance_loses_tree[of 1 2 3 4 5] by simp

end
