(* ===== verification/Spec2Isabelle.thy ===== *)
theory Spec2Isabelle
  imports SingleLink MsgQueue Avl
begin

text \<open>
  A verification development of the kernel of XiUOS, the operating system under
  \<^verbatim>\<open>src/Ubiquitous/XiUOS/kernel\<close>, in its single-core configuration. File names below are relative to
  \<^verbatim>\<open>src/Ubiquitous/XiUOS/kernel/thread\<close> unless they start with a directory of \<^verbatim>\<open>kernel\<close>.

  \<^bold>\<open>The program.\<close> Tasks have descriptors that are linked into ready lists, one per priority, with a bitmap
  over the priorities that have a ready task. The scheduler picks the most urgent ready task (the largest
  priority number) and switches to it. Kernel objects (semaphores, mutexes, events, message queues)
  are named by identifiers of an identifier manager; a task that has to wait is suspended on the pend list of the object, with a
  delay when it gave a timeout, and is resumed by the operation that makes the object available or by the tick
  interrupt when the delay ends. Below these are the data structures: linked lists, the bitmap,
  circular byte buffers, search trees.

  \<^bold>\<open>Conventions.\<close> Operations are functions on an explicit state. \<open>None\<close> means that the machine stops or that
  the behaviour is undefined in C (a null pointer that is checked by \<^verbatim>\<open>NULL_PARAM_CHECK\<close>, an access outside a
  buffer, linking a node twice); error returns of the code are values. Integers keep their C width
  wherever the code can reach the end of the range (ticks, priorities, counters, buffer indices). The outcome of
  an allocation is an argument of the operation (\<open>mem\<close>, \<open>buf\<close>, \<open>stk\<close>), so every theorem covers its failure too. A call
  that blocks is split at the point where the task gives up the processor: the first part returns \<open>Wait\<close>, and
  a \<open>_resume\<close> definition holds the code that runs when the task is scheduled again. The context
  checks \<^verbatim>\<open>KDEBUG_IN_KTASK_CONTEXT\<close> and \<^verbatim>\<open>KDEBUG_NOT_IN_INTERRUPT\<close> are those of a build without kernel debugging, that is
  empty. The state is an extensible record: \<open>kernel\<close> (tasks, lists, bitmap, ticks) is extended by the table of semaphores, then of
  mutexes, events and message queues, and every operation is polymorphic in the rest, so a theorem about one layer holds in
  all layers above it.

  \<^bold>\<open>Data structures.\<close>
  \<^item> \<open>Prelude\<close>: machine types, error codes, alignment macros (\<^verbatim>\<open>include/xs_base.h\<close>), generic lemmas.
  \<^item> \<open>DoubleLink\<close>: \<^verbatim>\<open>double_link.c\<close> on a heap of nodes. The locale \<open>list_store\<close> is the contract of lists that share a store;
    its interpretation \<open>dl\<close> shows that the pointer operations implement lists of nodes and leave other lists alone. Loops
    over a list are fuelled by the number of nodes, which is shown to be enough.
  \<^item> \<open>SingleLink\<close>: \<^verbatim>\<open>single_link.c\<close>, in the same way.
  \<^item> \<open>Bitmap\<close>: \<^verbatim>\<open>bitmap.c\<close>, the highest set bit of a word by a table of leading zeros.
  \<^item> \<open>IdManager\<close>: \<^verbatim>\<open>id.c\<close>, a bitmap of used identifiers with a hash table; it implements a finite map (locale \<open>id_registry\<close>,
    interpretation \<open>idm\<close>), and the kernel objects use that map.
  \<^item> \<open>CircularArea\<close>: \<^verbatim>\<open>circular_area.c\<close>; refinement to a bounded queue of bytes (locale \<open>byte_fifo\<close>, interpretation
    \<open>ca\<close>) for areas whose indices fit 8 bits, and what happens beyond.
  \<^item> \<open>Avl\<close>: \<^verbatim>\<open>avl_tree.c\<close>; insertion and search, and the trees that rebalancing loses.

  \<^bold>\<open>Tasks and the scheduler.\<close>
  \<^item> \<open>Task\<close>: descriptors, the kernel state, \<^verbatim>\<open>ktask_stat.c\<close>, \<^verbatim>\<open>CriticalArea.c\<close>, and the invariant of a well-formed
    kernel (\<open>os_inv\<close>): every task is in at most one list and every list holds the tasks that say so, one task runs,
    the ready lists hold exactly the ready tasks, the bitmap has exactly the bits of the non-empty ready lists.
  \<^item> \<open>Ready\<close>: the ready vector and the policies \<^verbatim>\<open>assign_fifo.c\<close>, \<^verbatim>\<open>assign_roundrobin.c\<close>, \<^verbatim>\<open>assign_roundrobinremain.c\<close>.
    The locale \<open>prio_set\<close> is the contract of a set of priorities with a maximum, interpreted (\<open>rb\<close>) on the bitmap.
  \<^item> \<open>Assign\<close>: \<^verbatim>\<open>assign.c\<close>, \<^verbatim>\<open>assignstat.c\<close>, \<^verbatim>\<open>lock.c\<close>: after a scheduling point the running task is a most urgent one, and the
    invariant holds again.
  \<^item> \<open>Delay\<close>, \<open>Tick\<close>, \<open>Heartbeat\<close>: \<^verbatim>\<open>delay.c\<close>, \<^verbatim>\<open>tick.c\<close>: conversions, the ordered list of delays, and the tick
    interrupt, which wakes every task whose delay is over and no other.
  \<^item> \<open>KTask\<close>, \<open>TaskLife\<close>, \<open>Lifecycle\<close>: \<^verbatim>\<open>ktask.c\<close>, \<^verbatim>\<open>zombierecycle.c\<close>, \<^verbatim>\<open>idle.c\<close>: creation, start, suspension, wake-up, delay,
    change of priority, deletion and recycling of tasks.

  \<^bold>\<open>Synchronisation objects.\<close>
  \<^item> \<open>Linklist\<close>: \<^verbatim>\<open>linklist.c\<close>, suspending on a pend list and resuming from it.
  \<^item> \<open>Semaphore\<close>: \<^verbatim>\<open>semaphore.c\<close>; every operation, and that units are neither lost nor made along any sequence of
    operations.
  \<^item> \<open>Mutex\<close>: \<^verbatim>\<open>mutex.c\<close>; mutual exclusion along any sequence of operations, nesting, priority inheritance.
  \<^item> \<open>Event\<close>: \<^verbatim>\<open>event.c\<close>; a trigger wakes exactly the tasks whose condition holds.
  \<^item> \<open>MsgQueue\<close>: \<^verbatim>\<open>msgqueue.c\<close>; a ring of slots that refines a queue of messages.

  \<^bold>\<open>Fuel and bounds.\<close> Only loops over linked lists use fuel, the number of nodes, and the lemmas show that
  they end within it. Nothing else is bounded: the number of tasks, objects and messages is arbitrary.

  \<^bold>\<open>Not modelled.\<close> The SMP scheduler \<^verbatim>\<open>smp_assign.c\<close> and the spin locks depend on the interleaving of cores at the hardware level.
  User tasks with memory isolation (\<^verbatim>\<open>memory/isolation.c\<close>, the user part of \<^verbatim>\<open>ktask.c\<close>) call code of the architecture. Assembly, context switches,
  interrupt controllers and drivers (\<^verbatim>\<open>arch\<close>, \<^verbatim>\<open>board\<close>, \<^verbatim>\<open>resources\<close>), file systems, the console, start-up and the
  application framework are input and output or ported third-party code.
\<close>

end
